(* ===== verification/Goat_Prelude.thy ===== *)
theory Goat_Prelude
  imports "HOL-Library.Word" "HOL-Library.List_Lexorder" "HOL-Library.Sublist"
begin

text \<open>
  Shared vocabulary of the development: the machine types of the Rust sources
  (\<open>u8\<close>, \<open>u32\<close>, \<open>u64\<close> as words, \<open>usize\<close> lengths as natural numbers), the
  error type of \<open>error.rs\<close> with its result type and the \<open>?\<close> operator, and the
  little- and big-endian integer encodings the file formats use.  Byte strings are
  ordered by the lexicographic order of \<open>HOL-Library.List_Lexorder\<close>, which is the
  order of Rust's \<open>[u8]\<close> (a proper prefix comes first).
\<close>

unbundle bit_operations_syntax

named_theorems res_simps \<open>rewrites that run the result monad\<close>
named_theorems codec_simps \<open>rewrites that run encoders and decoders\<close>

type_synonym u8 = "8 word"
type_synonym u16 = "16 word"
type_synonym u32 = "32 word"
type_synonym u64 = "64 word"
type_synonym bytes = "u8 list"

section \<open>Errors and results\<close>

text \<open>
  The variants of \<open>Error\<close> keep the static scope (parameter, entity or operation
  name) and the literal part of the message; values interpolated into a message
  and the boxed source of an I/O or internal error are dropped.  \<open>Panic\<close> stands
  for a Rust panic.
\<close>

datatype Error =
    InvalidArgument string string
  | NotFound string string
  | Corruption string string
  | Conflict string string
  | Unavailable string string
  | Io string
  | Internal string string
  | Panic string

datatype ErrorKind = KInvalidArgument | KNotFound | KCorruption | KConflict
  | KUnavailable | KIo | KInternal

text \<open>\<open>Error::kind\<close>; a panic unwinds and never has a kind.\<close>

fun error_kind :: "Error \<Rightarrow> ErrorKind option" where
  "error_kind (InvalidArgument _ _) = Some KInvalidArgument"
| "error_kind (NotFound _ _) = Some KNotFound"
| "error_kind (Corruption _ _) = Some KCorruption"
| "error_kind (Conflict _ _) = Some KConflict"
| "error_kind (Unavailable _ _) = Some KUnavailable"
| "error_kind (Io _) = Some KIo"
| "error_kind (Internal _ _) = Some KInternal"
| "error_kind (Panic _) = None"

type_synonym 'a result = "Error + 'a"

abbreviation Ok :: "'a \<Rightarrow> 'a result" where "Ok \<equiv> Inr"
abbreviation Err :: "Error \<Rightarrow> 'a result" where "Err \<equiv> Inl"

text \<open>The \<open>?\<close> operator: stop at the first error, otherwise go on with the value.\<close>

definition and_then :: "'a result \<Rightarrow> ('a \<Rightarrow> 'b result) \<Rightarrow> 'b result" where
  "and_then r f = (case r of Inl e \<Rightarrow> Inl e | Inr x \<Rightarrow> f x)"

definition map_err :: "(Error \<Rightarrow> Error) \<Rightarrow> 'a result \<Rightarrow> 'a result" where
  "map_err g r = (case r of Inl e \<Rightarrow> Inl (g e) | Inr x \<Rightarrow> Inr x)"

definition is_ok :: "'a result \<Rightarrow> bool" where
  "is_ok r = (case r of Inl _ \<Rightarrow> False | Inr _ \<Rightarrow> True)"

lemma and_then_Ok [simp, res_simps]: "and_then (Ok x) f = f x"
  by (simp add: and_then_def)

lemma and_then_Err [simp, res_simps]: "and_then (Err e) f = Err e"
  by (simp add: and_then_def)

lemma and_then_eq_Ok:
  "and_then r f = Ok y \<longleftrightarrow> (\<exists>x. r = Ok x \<and> f x = Ok y)"
  by (cases r) auto

lemma and_then_cong [fundef_cong]:
  "r = r' \<Longrightarrow> (\<And>x. r' = Ok x \<Longrightarrow> f x = g x) \<Longrightarrow> and_then r f = and_then r' g"
  by (cases r') (auto simp: and_then_def)

lemma map_err_simps [simp, res_simps]:
  "map_err g (Ok x) = Ok x" "map_err g (Err e) = Err (g e)"
  by (simp_all add: map_err_def)

lemma is_ok_simps [simp, res_simps]: "is_ok (Ok x)" "\<not> is_ok (Err e)"
  by (simp_all add: is_ok_def)

lemma is_ok_iff: "is_ok r \<longleftrightarrow> (\<exists>x. r = Ok x)"
  by (cases r) auto

section \<open>Bits of the varint masks\<close>

lemma and_0x7F: "v AND 0x7F = take_bit 7 (v :: 'a::len word)"
proof -
  have "(0x7F :: 'a word) = mask 7" by (simp add: mask_eq_exp_minus_1)
  then show ?thesis by (simp only: take_bit_eq_mask)
qed

lemma and_0x80: "(b AND 0x80 = (0 :: u8)) \<longleftrightarrow> \<not> bit b 7"
proof -
  have "(0x80 :: u8) = 2 ^ 7" by simp
  then show ?thesis by (simp only: and_exp_eq_0_iff_not_bit)
qed

lemma bit_0x80: "bit (0x80 :: u8) n \<longleftrightarrow> n = 7"
proof -
  have "(0x80 :: u8) = 2 ^ 7" by simp
  then show ?thesis by (simp only: bit_exp_iff) auto
qed

lemma unat_drop_bit: "unat (drop_bit n (v :: 'a::len word)) = unat v div 2 ^ n"
  by (simp only: unat_drop_bit_eq) (simp only: drop_bit_eq_div)

lemma unat_less_width: "unat (v :: 'a::len word) < 2 ^ LENGTH('a)"
  by (rule unsigned_less)

lemma unat_of_nat_small: "n < 2 ^ LENGTH('a) \<Longrightarrow> unat (of_nat n :: 'a::len word) = n"
  by (simp add: unsigned_of_nat take_bit_nat_eq_self)

lemma unat_max: "unat (- 1 :: u64) = 2 ^ 64 - 1"
  by (simp add: unsigned_minus_1_eq_mask mask_eq_exp_minus_1)

lemma unat_incr: "(n :: u64) \<noteq> - 1 \<Longrightarrow> unat (n + 1) = unat n + 1"
proof -
  assume "n \<noteq> - 1"
  then have "unat n \<noteq> unat (- 1 :: u64)" by (simp add: word_eq_iff_unsigned [symmetric])
  then have "unat n + 1 < 2 ^ 64" using unat_less_width [of n] unat_max by simp
  then show ?thesis by (simp add: unat_word_ariths(1))
qed

section \<open>Fixed-width integers as bytes\<close>

text \<open>
  \<open>to_le n w\<close> is the first \<open>n\<close> bytes of \<open>w.to_le_bytes()\<close>; \<open>from_le\<close> is
  \<open>from_le_bytes\<close> at the width of its result, the big-endian versions reverse.
\<close>

primrec to_le :: "nat \<Rightarrow> 'a::len word \<Rightarrow> bytes" where
  "to_le 0 w = []"
| "to_le (Suc n) w = ucast w # to_le n (drop_bit 8 w)"

primrec from_le :: "bytes \<Rightarrow> 'a::len word" where
  "from_le [] = 0"
| "from_le (b # bs) = ucast b OR push_bit 8 (from_le bs)"

definition to_be :: "nat \<Rightarrow> 'a::len word \<Rightarrow> bytes" where
  "to_be n w = rev (to_le n w)"

definition from_be :: "bytes \<Rightarrow> 'a::len word" where
  "from_be bs = from_le (rev bs)"

abbreviation u32_le :: "u32 \<Rightarrow> bytes" where "u32_le \<equiv> to_le 4"
abbreviation u64_le :: "u64 \<Rightarrow> bytes" where "u64_le \<equiv> to_le 8"
abbreviation u16_le :: "u16 \<Rightarrow> bytes" where "u16_le \<equiv> to_le 2"
abbreviation u64_be :: "u64 \<Rightarrow> bytes" where "u64_be \<equiv> to_be 8"

lemma length_to_le [simp]: "length (to_le n w) = n"
  by (induction n arbitrary: w) auto

lemma to_le_eq_Nil [simp]: "to_le n w = [] \<longleftrightarrow> n = 0"
  by (cases n) auto

lemma length_to_be [simp]: "length (to_be n w) = n"
  by (simp add: to_be_def)

lemma from_le_to_le:
  fixes w :: "'a::len word"
  shows "from_le (to_le n w) = take_bit (8 * n) w"
proof (induction n arbitrary: w)
  case (Suc n)
  show ?case
    by (rule bit_word_eqI)
      (auto simp: Suc bit_or_iff bit_push_bit_iff bit_take_bit_iff bit_drop_bit_eq
         bit_ucast_iff)
qed simp

lemma from_le_u32 [simp, codec_simps]: "from_le (u32_le w) = w"
  and from_le_u64 [simp, codec_simps]: "from_le (u64_le w') = w'"
  and from_le_u16 [simp, codec_simps]: "from_le (u16_le w'') = w''"
  by (simp_all add: from_le_to_le take_bit_word_eq_self)

lemma to_le_from_le:
  "8 * length bs \<le> LENGTH('a) \<Longrightarrow> to_le (length bs) (from_le bs :: 'a::len word) = bs"
proof (induction bs)
  case (Cons b bs)
  have head: "ucast (from_le (b # bs) :: 'a word) = b"
    using Cons.prems
    by (intro bit_word_eqI) (auto simp: bit_or_iff bit_push_bit_iff bit_ucast_iff)
  have "drop_bit 8 (from_le (b # bs) :: 'a word) = take_bit (LENGTH('a) - 8) (from_le bs)"
    using bit_imp_le_length [of b]
    by (intro bit_word_eqI)
      (auto simp: bit_or_iff bit_push_bit_iff bit_ucast_iff bit_drop_bit_eq bit_take_bit_iff
        dest: bit_imp_le_length)
  moreover have "from_le bs = take_bit (LENGTH('a) - 8) (from_le bs :: 'a word)"
  proof -
    have "from_le bs = (from_le (to_le (length bs) (from_le bs :: 'a word)) :: 'a word)"
      using Cons by simp
    also have "\<dots> = take_bit (8 * length bs) (from_le bs)"
      by (rule from_le_to_le)
    finally have self: "take_bit (8 * length bs) (from_le bs :: 'a word) = from_le bs"
      by simp
    have "8 * length bs \<le> LENGTH('a) - 8" using Cons.prems by simp
    then show ?thesis
      by (metis self take_bit_take_bit min.absorb2)
  qed
  ultimately show ?case
    using Cons head by simp
qed simp

lemma from_be_to_be:
  "from_be (to_be n w) = take_bit (8 * n) (w :: 'a::len word)"
  by (simp add: from_be_def to_be_def from_le_to_le)

lemma from_be_u64 [simp, codec_simps]: "from_be (u64_be w) = w"
  by (simp add: from_be_to_be take_bit_word_eq_self)

lemma to_be_from_be:
  "8 * length bs \<le> LENGTH('a) \<Longrightarrow> to_be (length bs) (from_be bs :: 'a::len word) = bs"
  using to_le_from_le [of "rev bs", where 'a = 'a] by (simp add: from_be_def to_be_def)

lemma to_be_inject:
  "LENGTH('a) \<le> 8 * n \<Longrightarrow> to_be n (v :: 'a::len word) = to_be n w \<longleftrightarrow> v = w"
  by (metis from_be_to_be take_bit_word_eq_self)

lemma to_le_snoc: "to_le (Suc n) w = to_le n w @ [ucast (drop_bit (8 * n) w)]"
proof (induction n arbitrary: w)
  case (Suc n)
  show ?case
    using Suc [of "drop_bit 8 w"] by (simp add: add.commute)
qed simp

lemma to_be_Suc: "to_be (Suc n) w = ucast (drop_bit (8 * n) w) # to_be n w"
  by (simp add: to_be_def to_le_snoc del: to_le.simps)

section \<open>Byte order and numeric order\<close>

lemma not_less_not_iff [simp]: "NOT a < NOT b \<longleftrightarrow> b < (a :: 'a::len word)"
proof -
  have eq: "unat (NOT w) = 2 ^ LENGTH('a) - 1 - unat w" for w :: "'a word"
  proof -
    have "NOT w = - 1 - w" by (simp add: not_eq_complement)
    then show ?thesis by (simp add: unat_sub unsigned_minus_1_eq_mask mask_eq_exp_minus_1)
  qed
  show ?thesis
    using unat_less_width [of a] unat_less_width [of b] unfolding word_less_nat_alt eq by arith
qed

primrec le_nat :: "bytes \<Rightarrow> nat" where
  "le_nat [] = 0"
| "le_nat (b # bs) = unat b + 256 * le_nat bs"

lemma le_nat_less: "le_nat bs < 256 ^ length bs"
proof (induction bs)
  case (Cons b bs)
  have "unat b < 256" using unat_less_width [of b] by simp
  with Cons show ?case by simp
qed simp

lemma le_nat_snoc: "le_nat (bs @ [b]) = le_nat bs + 256 ^ length bs * unat b"
  by (induction bs) (simp_all add: algebra_simps)

lemma from_le_of_nat:
  "8 \<le> LENGTH('a) \<Longrightarrow> (from_le bs :: 'a::len word) = of_nat (le_nat bs)"
proof (induction bs)
  case (Cons b bs)
  have "(from_le (b # bs) :: 'a word) = ucast b + push_bit 8 (from_le bs)"
    by (simp, rule disjunctive_add [symmetric])
      (auto simp: bit_push_bit_iff bit_ucast_iff dest: bit_imp_le_length)
  also have "\<dots> = of_nat (le_nat (b # bs))"
    using Cons by (simp add: push_bit_eq_mult of_nat_unat)
  finally show ?case .
qed simp

lemma unat_from_be:
  assumes "8 \<le> LENGTH('a)" "8 * length bs \<le> LENGTH('a)"
  shows "unat (from_be bs :: 'a::len word) = le_nat (rev bs)"
proof -
  have "le_nat (rev bs) < 256 ^ length bs" using le_nat_less [of "rev bs"] by simp
  also have "(256 :: nat) ^ length bs = 2 ^ (8 * length bs)" by (simp add: power_mult)
  also have "\<dots> \<le> 2 ^ LENGTH('a)" using assms by (intro power_increasing) auto
  finally show ?thesis
    using assms(1) by (simp add: from_be_def from_le_of_nat unat_of_nat_small)
qed

lemma bytes_less_iff_le_nat:
  "length xs = length ys \<Longrightarrow> xs < ys \<longleftrightarrow> le_nat (rev xs) < le_nat (rev ys)"
proof (induction xs ys rule: list_induct2)
  case (Cons x xs y ys)
  let ?n = "256 ^ length xs :: nat"
  have lt: "le_nat (rev xs) < ?n" "le_nat (rev ys) < ?n"
    using le_nat_less [of "rev xs"] le_nat_less [of "rev ys"] Cons.hyps by simp_all
  have step: "a + ?n * i < b + ?n * j \<longleftrightarrow> i < j \<or> i = j \<and> a < b" if "a < ?n" "b < ?n"
    for a b i j :: nat
  proof -
    have "i < j \<Longrightarrow> ?n * Suc i \<le> ?n * j" "j < i \<Longrightarrow> ?n * Suc j \<le> ?n * i"
      by (intro mult_le_mono; simp)+
    with that show ?thesis by (cases i j rule: linorder_cases) auto
  qed
  show ?case
    using Cons step [OF lt] by (auto simp: le_nat_snoc word_less_nat_alt word_unat_eq_iff)
qed simp

text \<open>Big-endian bytes compare like the numbers they encode.\<close>

lemma u64_be_less_iff: "u64_be v < u64_be w \<longleftrightarrow> v < w"
proof -
  have "u64_be v < u64_be w \<longleftrightarrow> unat (from_be (u64_be v) :: u64) < unat (from_be (u64_be w) :: u64)"
    by (subst (1 2) unat_from_be) (simp_all add: bytes_less_iff_le_nat)
  then show ?thesis by (simp add: word_less_nat_alt)
qed

lemma append_less_append:
  "length xs = length ys \<Longrightarrow> xs @ as < ys @ bs \<longleftrightarrow> xs < ys \<or> xs = ys \<and> as < (bs :: 'a::linorder list)"
  by (induction xs ys rule: list_induct2) auto

lemma append_less_same [simp]: "xs @ as < xs @ bs \<longleftrightarrow> as < (bs :: 'a::linorder list)"
  by (induction xs) auto

lemma less_append_no_prefix:
  "\<not> prefix xs ys \<Longrightarrow> \<not> prefix ys xs \<Longrightarrow>
   xs @ as < ys @ bs \<longleftrightarrow> xs < (ys :: 'a::linorder list)"
proof (induction xs arbitrary: ys)
  case (Cons x xs)
  then show ?case by (cases ys) auto
qed simp

section \<open>Slices\<close>

text \<open>\<open>subslice xs a b\<close> is Rust's \<open>xs[a..b]\<close> for \<open>a \<le> b \<le> xs.len()\<close>.\<close>

definition subslice :: "'a list \<Rightarrow> nat \<Rightarrow> nat \<Rightarrow> 'a list" where
  "subslice xs a b = take (b - a) (drop a xs)"

lemma length_subslice [simp]: "b \<le> length xs \<Longrightarrow> length (subslice xs a b) = b - a"
  by (simp add: subslice_def)

lemma subslice_append_exact [simp]:
  "a = length xs \<Longrightarrow> b = length xs + length ys \<Longrightarrow> subslice (xs @ ys @ zs) a b = ys"
  by (simp add: subslice_def)

section \<open>Sorted lists\<close>

lemma dropWhile_sorted:
  "sorted_wrt R ns \<Longrightarrow> (\<And>a b. R a b \<Longrightarrow> P b \<Longrightarrow> P a) \<Longrightarrow> b \<in> set (dropWhile P ns) \<Longrightarrow> \<not> P b"
  by (induction ns) (auto split: if_splits)

end
