(* ===== verification/Coding.thy ===== *)
theory Coding
  imports Goat_Prelude
begin

text \<open>
  \<open>format/coding.rs\<close>: variable-length integers and length-prefixed slices, the
  primitives of every file format of the store.  The locale \<open>prefix_codec\<close> is the
  contract the other formats rely on: a decoder reads one encoded value off the
  front of a buffer and reports how many bytes it took.
\<close>

section \<open>Varints\<close>

lemma drop_bit_7_less:
  assumes "\<not> v < (0x80 :: u64)"
  shows "unat (drop_bit 7 v) < unat v"
proof -
  have "0 < unat v" using assms by (cases "v = 0") (auto simp: unat_gt_0)
  then show ?thesis by (simp add: unat_drop_bit)
qed

text \<open>One byte of a varint that is not the last: seven bits and the continuation bit.\<close>

definition varint_cont_byte :: "u64 \<Rightarrow> u8" where
  "varint_cont_byte value = ucast (value AND 0x7F) OR 0x80"

text \<open>\<open>put_varint64\<close>: the loop pushes onto \<open>buf\<close> until the value fits seven bits.\<close>

function put_varint64 :: "bytes \<Rightarrow> u64 \<Rightarrow> bytes" where
  "put_varint64 buf value =
     (if value < 0x80 then buf @ [ucast value]
      else put_varint64 (buf @ [varint_cont_byte value]) (drop_bit 7 value))"
  by auto
termination
  by (relation "measure (\<lambda>(_, v). unat v)") (auto dest: drop_bit_7_less)

declare put_varint64.simps [simp del]

definition encode_varint64 :: "u64 \<Rightarrow> bytes" where
  "encode_varint64 value = put_varint64 [] value"

text \<open>\<open>decode_varint64_with_length\<close>: the loop state is (result, shift, bytes read).\<close>

fun decode_varint64_loop :: "u64 \<Rightarrow> nat \<Rightarrow> nat \<Rightarrow> bytes \<Rightarrow> (u64 \<times> nat) result" where
  "decode_varint64_loop result shift bytes_read [] =
     Err (Corruption ''varint_decode'' ''incomplete varint'')"
| "decode_varint64_loop result shift bytes_read (byte # rest) =
     (if 64 \<le> shift then Err (Corruption ''varint_decode'' ''overflow'')
      else let result' = result OR push_bit shift (ucast (byte AND 0x7F)) in
        if byte AND 0x80 = 0 then Ok (result', bytes_read + 1)
        else decode_varint64_loop result' (shift + 7) (bytes_read + 1) rest)"

definition decode_varint64_with_length :: "bytes \<Rightarrow> (u64 \<times> nat) result" where
  "decode_varint64_with_length bs = decode_varint64_loop 0 0 0 bs"

definition decode_varint64 :: "bytes \<Rightarrow> u64 result" where
  "decode_varint64 bs = and_then (decode_varint64_with_length bs) (\<lambda>(value, _). Ok value)"

section \<open>Length-prefixed slices\<close>

definition put_length_prefixed_slice :: "bytes \<Rightarrow> bytes \<Rightarrow> bytes" where
  "put_length_prefixed_slice buf data = put_varint64 buf (of_nat (length data)) @ data"

text \<open>
  \<open>bytes_read + length\<close> is a 64-bit \<open>usize\<close> addition.  When it overflows the
  function panics: with overflow checks at the addition, without them at the
  slice \<open>bytes[bytes_read..end]\<close>, whose wrapped end is below its start.
\<close>

definition get_length_prefixed_slice :: "bytes \<Rightarrow> (bytes \<times> nat) result" where
  "get_length_prefixed_slice bs =
     and_then (decode_varint64_with_length bs) (\<lambda>(len, bytes_read).
       let stop = bytes_read + unat len in
       if 2 ^ 64 \<le> stop then Err (Panic ''length_prefixed_decode'')
       else if length bs < stop
       then Err (Corruption ''length_prefixed_decode'' ''incomplete length-prefixed slice'')
       else Ok (subslice bs bytes_read stop, stop))"

section \<open>Facts about the varint loops\<close>

lemma put_varint64_small [codec_simps]:
  "value < 0x80 \<Longrightarrow> put_varint64 buf value = buf @ [ucast value]"
  by (simp add: put_varint64.simps)

lemma put_varint64_big:
  "\<not> value < 0x80 \<Longrightarrow>
   put_varint64 buf value = put_varint64 (buf @ [varint_cont_byte value]) (drop_bit 7 value)"
  by (subst put_varint64.simps) simp

lemma put_varint64_append: "put_varint64 buf v = buf @ encode_varint64 v"
  unfolding encode_varint64_def
proof (induction "unat v" arbitrary: buf v rule: less_induct)
  case less
  show ?case
  proof (cases "v < 0x80")
    case False
    note IH = less [OF drop_bit_7_less [OF False]]
    show ?thesis
      using IH [of "buf @ [varint_cont_byte v]"] IH [of "[varint_cont_byte v]"]
      by (simp add: put_varint64_big [OF False])
  qed (simp add: put_varint64_small)
qed

lemma encode_varint64_small [codec_simps]:
  "value < 0x80 \<Longrightarrow> encode_varint64 value = [ucast value]"
  by (simp add: encode_varint64_def put_varint64_small)

lemma encode_varint64_big:
  "\<not> value < 0x80 \<Longrightarrow>
   encode_varint64 value = varint_cont_byte value # encode_varint64 (drop_bit 7 value)"
  using put_varint64_append [of "[varint_cont_byte value]" "drop_bit 7 value"]
  by (simp add: encode_varint64_def put_varint64_big)

lemma encode_varint64_induct [case_names small big]:
  assumes "\<And>v. v < 0x80 \<Longrightarrow> P v"
    and "\<And>v. \<not> v < 0x80 \<Longrightarrow> P (drop_bit 7 v) \<Longrightarrow> P v"
  shows "P (v :: u64)"
proof (induction "unat v" arbitrary: v rule: less_induct)
  case less
  then show ?case using assms drop_bit_7_less by blast
qed

text \<open>The bits of the two kinds of varint byte.\<close>

lemma varint_cont_byte_bits:
  "varint_cont_byte v AND 0x80 \<noteq> 0"
  "ucast (varint_cont_byte v AND 0x7F) = v AND 0x7F"
proof -
  show "varint_cont_byte v AND 0x80 \<noteq> 0"
    by (simp add: and_0x80 varint_cont_byte_def bit_or_iff)
  show "ucast (varint_cont_byte v AND 0x7F) = v AND 0x7F"
    unfolding and_0x7F varint_cont_byte_def
    by (rule bit_word_eqI)
      (auto simp: bit_or_iff bit_take_bit_iff bit_ucast_iff bit_0x80 simp del: bit_numeral_word_iff)
qed

lemma varint_last_byte_bits:
  assumes "v < 0x80"
  shows "ucast v AND (0x80 :: u8) = 0" "ucast ((ucast v :: u8) AND 0x7F) = (v :: u64)"
proof -
  have "take_bit 7 v = v"
    using assms
    by (simp add: word_less_nat_alt word_unat_eq_iff unsigned_take_bit_eq take_bit_nat_eq_self)
  then have small: "bit v i \<Longrightarrow> i < 7" for i by (metis bit_take_bit_iff)
  show "ucast v AND (0x80 :: u8) = 0"
    by (auto simp: and_0x80 bit_ucast_iff dest: small)
  show "ucast ((ucast v :: u8) AND 0x7F) = v"
    unfolding and_0x7F
    by (rule bit_word_eqI) (auto simp: bit_take_bit_iff bit_ucast_iff dest: small)
qed

lemma varint_split:
  "push_bit s (v AND 0x7F) OR push_bit (s + 7) (drop_bit 7 v) = push_bit s (v :: u64)"
proof (rule bit_word_eqI)
  fix n assume "n < LENGTH(64)"
  show "bit (push_bit s (v AND 0x7F) OR push_bit (s + 7) (drop_bit 7 v)) n = bit (push_bit s v) n"
  proof (cases "s + 7 \<le> n")
    case True
    then have "7 + (n - (s + 7)) = n - s" by simp
    with True show ?thesis
      by (auto simp: and_0x7F bit_or_iff bit_push_bit_iff bit_take_bit_iff bit_drop_bit_eq)
  qed (auto simp: and_0x7F bit_or_iff bit_push_bit_iff bit_take_bit_iff)
qed

text \<open>The decoding loop, started anywhere in the middle of a value, reads the rest of it.\<close>

lemma decode_loop_encode:
  "s < 64 \<Longrightarrow> unat v < 2 ^ (64 - s) \<Longrightarrow>
   decode_varint64_loop r s n (encode_varint64 v @ rest)
     = Ok (r OR push_bit s v, n + length (encode_varint64 v))"
proof (induction v arbitrary: r s n rule: encode_varint64_induct)
  case (small v)
  then show ?case by (simp add: encode_varint64_small varint_last_byte_bits Let_def)
next
  case (big v)
  have "2 ^ 7 < (2 :: nat) ^ (64 - s)"
    using big.hyps(1) big.prems by (simp add: word_less_nat_alt)
  then have s: "7 < 64 - s" by (rule power_less_imp_less_exp [rotated]) simp
  have "unat (drop_bit 7 v) < 2 ^ (64 - (s + 7))"
  proof -
    have "unat v < 2 ^ (64 - (s + 7)) * 2 ^ 7"
      using big.prems(2) s by (metis (no_types) diff_diff_left le_add_diff_inverse2 less_imp_le power_add)
    then show ?thesis unfolding unat_drop_bit by (rule less_mult_imp_div_less)
  qed
  with s have "decode_varint64_loop (r OR push_bit s (v AND 0x7F)) (s + 7) (n + 1)
      (encode_varint64 (drop_bit 7 v) @ rest)
    = Ok ((r OR push_bit s (v AND 0x7F)) OR push_bit (s + 7) (drop_bit 7 v),
          n + 1 + length (encode_varint64 (drop_bit 7 v)))"
    by (intro big.IH) auto
  then show ?case
    using big.prems s
    by (simp add: encode_varint64_big [OF big.hyps(1)] varint_cont_byte_bits Let_def
        or.assoc varint_split del: push_bit_and)
qed

lemma decode_encode_varint64 [codec_simps]:
  "decode_varint64_with_length (encode_varint64 v @ rest) = Ok (v, length (encode_varint64 v))"
  using decode_loop_encode [of 0 v 0 0 rest] unat_less_width [of v]
  by (simp add: decode_varint64_with_length_def)

text \<open>What a successful run of the loop consumed.\<close>

lemma decode_loop_consumed:
  "decode_varint64_loop r s n bs = Ok (v, m) \<Longrightarrow>
     n < m \<and> m \<le> n + length bs \<and> s + 7 * (m - n - 1) < 64 \<and>
     decode_varint64_loop r s n (take (m - n) bs @ rest) = Ok (v, m)"
proof (induction r s n bs rule: decode_varint64_loop.induct)
  case (2 result shift bytes_read byte tl)
  show ?case
  proof (cases "byte AND 0x80 = 0")
    case False
    note step = 2 (1) [OF _ refl False]
    from 2(2) False have "shift < 64"
      by (simp split: if_splits)
    with step 2(2) False have IH:
      "bytes_read + 1 < m" "m \<le> bytes_read + 1 + length tl"
      "shift + 7 + 7 * (m - (bytes_read + 1) - 1) < 64"
      "decode_varint64_loop (result OR push_bit shift (ucast (byte AND 0x7F))) (shift + 7)
         (bytes_read + 1) (take (m - (bytes_read + 1)) tl @ rest) = Ok (v, m)"
      by (auto simp: Let_def)
    then have "m - bytes_read = Suc (m - (bytes_read + 1))" by simp
    with IH \<open>shift < 64\<close> False show ?thesis by (auto simp: Let_def)
  qed (use 2(2) in \<open>auto simp: Let_def split: if_splits\<close>)
qed simp

section \<open>The contract of a prefix decoder\<close>

text \<open>
  \<open>wf x\<close> says that \<open>x\<close> is encodable.  The laws are the round trip in front of
  arbitrary bytes and that no encoding is empty; prefix-freeness and the decoding of concatenations follow once
  for every instance.
\<close>

locale prefix_codec =
  fixes enc :: "'a \<Rightarrow> bytes"
    and dec :: "bytes \<Rightarrow> ('a \<times> nat) result"
    and wf :: "'a \<Rightarrow> bool"
  assumes dec_enc: "wf x \<Longrightarrow> dec (enc x @ rest) = Ok (x, length (enc x))"
    and enc_nonempty: "wf x \<Longrightarrow> enc x \<noteq> []"
begin

lemma enc_prefix_free:
  assumes "wf x" "wf y" "enc x @ r = enc y @ s"
  shows "x = y \<and> r = s"
proof -
  have "Ok (x, length (enc x)) = (Ok (y, length (enc y)) :: ('a \<times> nat) result)"
    using dec_enc [OF assms(1), of r] dec_enc [OF assms(2), of s] assms(3) by metis
  with assms(3) show ?thesis by simp
qed

lemma enc_inj: "wf x \<Longrightarrow> wf y \<Longrightarrow> enc x = enc y \<Longrightarrow> x = y"
  using enc_prefix_free [of x y "[]" "[]"] by simp

lemma concat_inj:
  "list_all wf xs \<Longrightarrow> list_all wf ys \<Longrightarrow> concat (map enc xs) = concat (map enc ys) \<Longrightarrow> xs = ys"
proof (induction xs arbitrary: ys)
  case Nil
  then show ?case using enc_nonempty by (cases ys) auto
next
  case (Cons x xs)
  then obtain y ys' where ys: "ys = y # ys'" using enc_nonempty by (cases ys) auto
  with Cons.prems enc_prefix_free [of x y "concat (map enc xs)" "concat (map enc ys')"]
  have "x = y" "concat (map enc xs) = concat (map enc ys')" by auto
  with Cons ys show ?case by auto
qed

end

text \<open>A slice is encodable when its length is a \<open>usize\<close> with room for the prefix.\<close>

definition slice_ok :: "bytes \<Rightarrow> bool" where
  "slice_ok data \<longleftrightarrow> length data < 2 ^ 63"

lemma encode_varint64_length_le:
  "0 < k \<Longrightarrow> length (encode_varint64 v) \<le> k \<longleftrightarrow> unat v < 128 ^ k"
proof (induction v arbitrary: k rule: encode_varint64_induct)
  case (small v)
  then have "unat v < 128 ^ 1" by (simp add: word_less_nat_alt)
  also have "\<dots> \<le> 128 ^ k" using small.prems by (intro power_increasing) auto
  finally show ?case using small by (simp add: encode_varint64_small)
next
  case (big v)
  have ge: "128 \<le> unat v" using big.hyps(1) by (simp add: word_less_nat_alt)
  obtain j where k: "k = Suc j" using big.prems by (cases k) auto
  show ?case
  proof (cases "j = 0")
    case True
    have "length (encode_varint64 (drop_bit 7 v)) \<noteq> 0"
      by (cases "drop_bit 7 v < 0x80") (simp_all add: encode_varint64_small encode_varint64_big)
    with True k ge show ?thesis by (simp add: encode_varint64_big [OF big.hyps(1)])
  next
    case False
    then have "length (encode_varint64 v) \<le> k \<longleftrightarrow> unat v div 128 < 128 ^ j"
      using big.IH [of j] k by (simp add: encode_varint64_big [OF big.hyps(1)] unat_drop_bit)
    also have "\<dots> \<longleftrightarrow> unat v < 128 ^ k"
      using k by (simp add: div_less_iff_less_mult mult.commute)
    finally show ?thesis .
  qed
qed

lemma encode_varint64_length_bounds:
  "1 \<le> length (encode_varint64 v)" "length (encode_varint64 v) \<le> 10"
proof -
  show "1 \<le> length (encode_varint64 v)"
    by (cases "v < 0x80") (simp_all add: encode_varint64_small encode_varint64_big)
  have "unat v < 128 ^ 10" using unat_less_width [of v] by simp
  then show "length (encode_varint64 v) \<le> 10"
    using encode_varint64_length_le [of 10 v] by simp
qed

lemma encode_varint64_nonempty: "encode_varint64 v \<noteq> []"
  using encode_varint64_length_bounds(1) [of v] by auto

interpretation varint: prefix_codec encode_varint64 decode_varint64_with_length "\<lambda>_. True"
  by unfold_locales (simp_all add: decode_encode_varint64 encode_varint64_nonempty)

definition encode_length_prefixed_slice :: "bytes \<Rightarrow> bytes" where
  "encode_length_prefixed_slice data = put_length_prefixed_slice [] data"

lemma put_length_prefixed_slice_append:
  "put_length_prefixed_slice buf data = buf @ encode_length_prefixed_slice data"
  by (simp add: put_length_prefixed_slice_def encode_length_prefixed_slice_def
      put_varint64_append [of buf] put_varint64_append [of "[]"])

lemma get_put_length_prefixed_slice:
  assumes "slice_ok data"
  shows "get_length_prefixed_slice (encode_length_prefixed_slice data @ rest)
           = Ok (data, length (encode_length_prefixed_slice data))"
proof -
  let ?pre = "encode_varint64 (of_nat (length data))"
  have len: "unat (of_nat (length data) :: u64) = length data"
    using assms by (intro unat_of_nat_small) (simp add: slice_ok_def)
  have enc: "encode_length_prefixed_slice data = ?pre @ data"
    by (simp add: encode_length_prefixed_slice_def put_length_prefixed_slice_def
        put_varint64_append [of "[]"])
  have "\<not> 2 ^ 64 \<le> length ?pre + length data"
    using assms encode_varint64_length_bounds(2) [of "of_nat (length data)"]
    by (simp add: slice_ok_def)
  then show ?thesis
    using decode_encode_varint64 [of "of_nat (length data)" "data @ rest"]
    by (simp add: get_length_prefixed_slice_def enc len Let_def)
qed

interpretation lp_slice: prefix_codec encode_length_prefixed_slice get_length_prefixed_slice slice_ok
  by unfold_locales (rule get_put_length_prefixed_slice, simp,
    simp add: encode_length_prefixed_slice_def put_length_prefixed_slice_def varint.enc_nonempty put_varint64_append)

section \<open>The value of a varint\<close>

text \<open>
  The number a varint spells: seven bits of each byte, least significant group first.
\<close>

fun varint_value :: "bytes \<Rightarrow> nat" where
  "varint_value [] = 0"
| "varint_value (b # bs) = unat (b AND 0x7F) + 128 * varint_value bs"

lemma varint_value_word:
  "(ucast (b AND 0x7F) OR push_bit 7 (of_nat (varint_value bs)) :: u64) = of_nat (varint_value (b # bs))"
proof -
  have "\<not> bit (ucast (b AND 0x7F) :: u64) n \<or> \<not> bit (push_bit 7 w :: u64) n" for w n
    by (cases "n < 7") (simp_all add: and_0x7F bit_ucast_iff bit_take_bit_iff bit_push_bit_iff)
  then have "(ucast (b AND 0x7F) OR push_bit 7 w :: u64) = ucast (b AND 0x7F) + push_bit 7 w" for w
    using disjunctive_add [of "ucast (b AND 0x7F) :: u64"] by metis
  then have "(ucast (b AND 0x7F) OR push_bit 7 (of_nat (varint_value bs)) :: u64)
      = of_nat (unat (b AND 0x7F)) + 128 * of_nat (varint_value bs)"
    by (simp add: push_bit_eq_mult)
  then show ?thesis by (simp only: varint_value.simps of_nat_add of_nat_mult of_nat_numeral)
qed

lemma varint_value_append: "varint_value (bs @ [b]) = varint_value bs + 128 ^ length bs * unat (b AND 0x7F)"
  by (induction bs) (simp_all add: algebra_simps)

lemma push_bit_63_parity: "(push_bit 63 w :: u64) = push_bit 63 (w AND 1)"
proof (rule bit_word_eqI)
  fix n assume "n < LENGTH(64)"
  then have "63 \<le> n \<longleftrightarrow> n = 63" by auto
  then show "bit (push_bit 63 w :: u64) n = bit (push_bit 63 (w AND 1)) n"
    by (auto simp only: bit_push_bit_iff bit_and_iff bit_1_iff possible_bit_word diff_self_eq_0)
qed

lemma varint_value_tenth:
  assumes "length bs = 9"
  shows "(of_nat (varint_value (bs @ [b])) :: u64) = of_nat (varint_value (bs @ [b AND 1]))"
proof -
  have "(of_nat (128 ^ 9 * unat w) :: u64) = push_bit 63 (ucast w)" for w :: u8 
    by (simp add: push_bit_eq_mult)
  moreover have "push_bit 63 (ucast (b AND 0x7F) :: u64) = push_bit 63 (ucast ((b AND 1) AND 0x7F))"
  proof -
    have "(ucast (b AND 0x7F) AND 1 :: u64) = ucast ((b AND 1) AND 0x7F) AND 1"
      by (rule bit_word_eqI) (auto simp: and_0x7F bit_and_iff bit_1_iff bit_ucast_iff bit_take_bit_iff)
    then show ?thesis using push_bit_63_parity by metis
  qed
  ultimately show ?thesis using assms by (simp only: varint_value_append of_nat_add)
qed

lemma decode_loop_value:
  "list_all (\<lambda>b. b AND 0x80 \<noteq> 0) bs \<Longrightarrow> b AND 0x80 = 0 \<Longrightarrow>
   decode_varint64_loop r s n (bs @ b # rest) =
     (if s + 7 * length bs < 64 then Ok (r OR push_bit s (of_nat (varint_value (bs @ [b]))), n + length bs + 1)
      else Err (Corruption ''varint_decode'' ''overflow''))"
proof (induction bs arbitrary: r s n)
  case Nil
  have "(of_nat (unat (b AND 0x7F)) :: u64) = ucast (b AND 0x7F)" by simp
  with Nil show ?case by (simp add: Let_def)
next
  case (Cons c bs)
  let ?v = "of_nat (varint_value (bs @ [b])) :: u64"
  have eq: "(r OR push_bit s (ucast (c AND 0x7F))) OR push_bit (s + 7) ?v
      = r OR push_bit s (of_nat (varint_value (c # bs @ [b])))"
    unfolding varint_value_word [symmetric] by (simp only: or.assoc push_bit_or push_bit_push_bit)
  have "decode_varint64_loop r s n ((c # bs) @ b # rest) =
     (if s < 64 then decode_varint64_loop (r OR push_bit s (ucast (c AND 0x7F))) (s + 7) (n + 1) (bs @ b # rest)
      else Err (Corruption ''varint_decode'' ''overflow''))"
    using Cons.prems by (simp only: append_Cons decode_varint64_loop.simps Let_def list.pred_inject) auto
  also have "\<dots> = (if s + 7 * length (c # bs) < 64 then Ok (r OR push_bit s (of_nat (varint_value ((c # bs) @ [b]))), n + length (c # bs) + 1)
      else Err (Corruption ''varint_decode'' ''overflow''))"
    using Cons.IH [of "r OR push_bit s (ucast (c AND 0x7F))" "s + 7" "n + 1"] Cons.prems
    by (simp only: eq append_Cons list.pred_inject) auto
  finally show ?case .
qed

section \<open>Properties\<close>

text \<open>
  (C26) Varints round-trip: encoding any 64-bit value, followed by arbitrary bytes,
  decodes to that value and reports exactly the encoded length, which is between 1
  and 10 bytes and is the least number of seven-bit groups that hold the value.
\<close>

theorem varint_roundtrip:
  "decode_varint64_with_length (put_varint64 [] v @ rest) = Ok (v, length (encode_varint64 v)) \<and>
   put_varint64 buf v = buf @ encode_varint64 v \<and>
   1 \<le> length (encode_varint64 v) \<and> length (encode_varint64 v) \<le> 10 \<and>
   (length (encode_varint64 v) \<le> Suc k) = (unat v < 128 ^ Suc k)"
  using decode_encode_varint64 [of v rest] encode_varint64_length_bounds [of v]
    encode_varint64_length_le [of "Suc k" v]
  by (simp add: put_varint64_append [of buf] encode_varint64_def)

text \<open>
  (C32) A successful varint decode reads between 1 and 10 bytes, never past the
  buffer, and its result depends only on the bytes it read.
\<close>

theorem varint_decode_local:
  assumes "decode_varint64_with_length bs = Ok (v, n)"
  shows "1 \<le> n \<and> n \<le> 10 \<and> n \<le> length bs \<and>
     decode_varint64_with_length (take n bs @ rest) = Ok (v, n)"
  using decode_loop_consumed [of 0 0 0 bs v n rest] assms
  by (auto simp: decode_varint64_with_length_def)

theorem varint_decode_local_witness:
  "decode_varint64_with_length [0xAC, 0x02, 0x55] = Ok (300, 2) \<and>
   decode_varint64_with_length [0xAC, 0x02, 0x77, 0x01] = Ok (300, 2)"
proof -
  have dec: "decode_varint64_with_length [0xAC, 0x02, 0x55] = Ok (300, 2)"
    by (simp add: decode_varint64_with_length_def Let_def)
  with varint_decode_local [OF dec, of "[0x77, 0x01]"] show ?thesis by simp
qed

text \<open>
  (C30) Length-prefixed slices round-trip in front of arbitrary bytes, and sequences of
  them are uniquely decodable: two buffers of slices written back to back, in whatever
  numbers, are equal only if the sequences of slices are.  A slice is shorter than
  \<open>2 ^ 63\<close> bytes.
\<close>

theorem length_prefixed_roundtrip:
  assumes "slice_ok data" "list_all slice_ok xs" "list_all slice_ok ys"
  shows "get_length_prefixed_slice (put_length_prefixed_slice [] data @ rest)
           = Ok (data, length (put_length_prefixed_slice [] data)) \<and>
         (fold (\<lambda>x buf. put_length_prefixed_slice buf x) xs [] = fold (\<lambda>y buf. put_length_prefixed_slice buf y) ys []
           \<longrightarrow> xs = ys)"
proof -
  have "fold (\<lambda>x buf. put_length_prefixed_slice buf x) zs buf = buf @ concat (map encode_length_prefixed_slice zs)"
    for zs buf by (induction zs arbitrary: buf) (simp_all add: put_length_prefixed_slice_append)
  then show ?thesis
    using lp_slice.dec_enc [OF assms(1), of rest] lp_slice.concat_inj [OF assms(2,3)]
    by (simp add: put_length_prefixed_slice_append [of "[]"])
qed

theorem length_prefixed_roundtrip_witness:
  "get_length_prefixed_slice (put_length_prefixed_slice [] [1, 2, 3] @ [9])
     = Ok ([1, 2, 3], length (put_length_prefixed_slice [] [1, 2, 3])) \<and>
   fold (\<lambda>x buf. put_length_prefixed_slice buf x) [[7], [8, 0]] [] \<noteq>
     fold (\<lambda>y buf. put_length_prefixed_slice buf y) [[7], [8], []] []"
  using length_prefixed_roundtrip [of "[1, 2, 3]" "[[7], [8, 0]]" "[[7], [8], []]" "[9]"]
  by (simp add: slice_ok_def)

text \<open>
  (C31) What the decoder returns on every varint, canonical or not: with up to nine
  continuation bytes the number they spell, reduced modulo \<open>2 ^ 64\<close>, and with more
  the overflow error.  The overflow check counts bytes and not bits, so a ten-byte
  varint of \<open>2 ^ 64\<close> or more is accepted: all bits of its last byte but the lowest are
  dropped without an error.
\<close>

theorem varint_decode_value:
  assumes "list_all (\<lambda>b. b AND 0x80 \<noteq> 0) bs" "b AND 0x80 = 0"
  shows "decode_varint64_with_length (bs @ b # rest) =
       (if length bs \<le> 9 then Ok (of_nat (varint_value (bs @ [b])), length bs + 1)
        else Err (Corruption ''varint_decode'' ''overflow'')) \<and>
     (length bs = 9 \<longrightarrow> decode_varint64 (bs @ b # rest) = decode_varint64 (bs @ (b AND 1) # rest))"
proof -
  have "(b AND 1) AND 0x80 = 0" by (simp add: and_0x80 bit_and_iff bit_1_iff)
  then show ?thesis
    using decode_loop_value [OF assms(1), of b 0 0 0 rest] decode_loop_value [OF assms(1), of "b AND 1" 0 0 0 rest]
      varint_value_tenth [of bs b] assms(2)
    by (simp add: decode_varint64_def decode_varint64_with_length_def)
qed

theorem varint_decode_value_witness:
  "decode_varint64_with_length ([0x80, 0x80, 0x80, 0x80, 0x80, 0x80, 0x80, 0x80, 0x80] @ 0x7F # [5])
     = Ok (of_nat (127 * 2 ^ 63), 10)"
  using varint_decode_value [of "[0x80, 0x80, 0x80, 0x80, 0x80, 0x80, 0x80, 0x80, 0x80]" "0x7F" "[5]"]
  by simp

text \<open>
  (C34) A length prefix near the top of the 64-bit range makes the slice decoder
  panic instead of reporting corruption.
\<close>

theorem length_prefixed_panics:
  "get_length_prefixed_slice (encode_varint64 (- 1) @ rest) = Err (Panic ''length_prefixed_decode'')"
  using encode_varint64_length_bounds(1) [of "- 1"]
  by (simp add: get_length_prefixed_slice_def decode_encode_varint64 Let_def unsigned_minus_1_eq_mask
      mask_eq_exp_minus_1)


end
