(* ===== verification/Internal_Key.thy ===== *)
theory Internal_Key
  imports Goat_Prelude
begin

text \<open>
  \<open>format/internal_key.rs\<close>: a user key with a 56-bit sequence number and an
  8-bit kind packed into one \<open>u64\<close>, its two byte encodings, and the order
  (user key ascending, sequence number descending, kind ignored).
\<close>

section \<open>Kinds\<close>

datatype InternalKeyKind = Put | Delete | TxnBatchBegin

definition SEQUENCE_NUMBER_MAX :: u64 where
  "SEQUENCE_NUMBER_MAX = push_bit 56 1 - 1"

definition kind_try_from :: "u8 \<Rightarrow> InternalKeyKind result" where
  "kind_try_from b =
     (if b = 0 then Ok Put
      else if b = 1 then Ok Delete
      else if b = 2 then Ok TxnBatchBegin
      else Err (Corruption ''internal_key_kind'' ''invalid internal key kind''))"

primrec kind_to_u8 :: "InternalKeyKind \<Rightarrow> u8" where
  "kind_to_u8 Put = 0"
| "kind_to_u8 Delete = 1"
| "kind_to_u8 TxnBatchBegin = 2"

section \<open>Keys\<close>

record InternalKey =
  user_key :: bytes
  encoded_sequence_number :: u64

text \<open>\<open>InternalKey::new\<close> panics on a sequence number wider than 56 bits.\<close>

definition new_InternalKey :: "bytes \<Rightarrow> u64 \<Rightarrow> InternalKeyKind \<Rightarrow> InternalKey result" where
  "new_InternalKey uk seq kd =
     (if SEQUENCE_NUMBER_MAX < seq then Err (Panic ''Sequence number exceeds maximum value'')
      else Ok \<lparr> user_key = uk,
                encoded_sequence_number = push_bit 8 seq OR ucast (kind_to_u8 kd) \<rparr>)"

definition new_separator :: "bytes \<Rightarrow> InternalKey result" where
  "new_separator uk = new_InternalKey uk SEQUENCE_NUMBER_MAX Put"

definition from_encoded :: "bytes \<Rightarrow> u64 \<Rightarrow> InternalKey" where
  "from_encoded uk enc = \<lparr> user_key = uk, encoded_sequence_number = enc \<rparr>"

definition sequence_number :: "InternalKey \<Rightarrow> u64" where
  "sequence_number k = drop_bit 8 (encoded_sequence_number k)"

definition kind :: "InternalKey \<Rightarrow> InternalKeyKind result" where
  "kind k = kind_try_from (ucast (encoded_sequence_number k AND 0xFF))"

text \<open>\<open>serialize\<close>: the user key, then the complemented tag in big-endian order.\<close>

definition serialize :: "InternalKey \<Rightarrow> bytes" where
  "serialize k = user_key k @ u64_be (NOT (encoded_sequence_number k))"

definition serialized_size :: "InternalKey \<Rightarrow> nat" where
  "serialized_size k = length (user_key k) + 8"

datatype Ordering = Less | Equal | Greater

definition cmp :: "'a::linorder \<Rightarrow> 'a \<Rightarrow> Ordering" where
  "cmp a b = (if a < b then Less else if a = b then Equal else Greater)"

definition ik_cmp :: "InternalKey \<Rightarrow> InternalKey \<Rightarrow> Ordering" where
  "ik_cmp a b =
     (case cmp (user_key a) (user_key b) of
        Equal \<Rightarrow> cmp (sequence_number b) (sequence_number a)
      | other \<Rightarrow> other)"

section \<open>The order position of a key\<close>

text \<open>
  \<open>Ord\<close> and \<open>Eq\<close> of \<open>InternalKey\<close> disagree: two keys that differ in kind only
  compare \<open>Equal\<close>.  The linear order is the one of the pair (user key, sequence
  number) with the second component reversed.
\<close>

datatype key_pos = KeyPos (kp_user: bytes) (kp_seq: u64)

definition ik_pos :: "InternalKey \<Rightarrow> key_pos" where
  "ik_pos k = KeyPos (user_key k) (sequence_number k)"

instantiation key_pos :: linorder
begin

definition less_eq_key_pos :: "key_pos \<Rightarrow> key_pos \<Rightarrow> bool" where
  "less_eq_key_pos a b \<longleftrightarrow>
     kp_user a < kp_user b \<or> kp_user a = kp_user b \<and> kp_seq b \<le> kp_seq a"

definition less_key_pos :: "key_pos \<Rightarrow> key_pos \<Rightarrow> bool" where
  "less_key_pos a b \<longleftrightarrow>
     kp_user a < kp_user b \<or> kp_user a = kp_user b \<and> kp_seq b < kp_seq a"

instance
proof
  fix x y z :: key_pos
  show "x < y \<longleftrightarrow> x \<le> y \<and> \<not> y \<le> x"
    by (auto simp: less_key_pos_def less_eq_key_pos_def)
  show "x \<le> x" by (simp add: less_eq_key_pos_def)
  show "x \<le> y \<Longrightarrow> y \<le> z \<Longrightarrow> x \<le> z"
    by (auto simp: less_eq_key_pos_def)
  show "x \<le> y \<Longrightarrow> y \<le> x \<Longrightarrow> x = y"
    by (cases x; cases y) (auto simp: less_eq_key_pos_def)
  show "x \<le> y \<or> y \<le> x" by (auto simp: less_eq_key_pos_def)
qed

end

lemma KeyPos_less [simp]: "KeyPos u s < KeyPos v t \<longleftrightarrow> u < v \<or> u = v \<and> t < s"
  by (simp add: less_key_pos_def)

lemma KeyPos_le [simp]: "KeyPos u s \<le> KeyPos v t \<longleftrightarrow> u < v \<or> u = v \<and> t \<le> s"
  by (simp add: less_eq_key_pos_def)

lemma cmp_simps [simp]:
  "cmp a b = Less \<longleftrightarrow> a < b" "cmp a b = Equal \<longleftrightarrow> a = b" "cmp a b = Greater \<longleftrightarrow> b < a"
  by (auto simp: cmp_def)

lemma ik_cmp_pos: "ik_cmp a b = cmp (ik_pos a) (ik_pos b)"
  by (auto simp: ik_cmp_def ik_pos_def cmp_def)

section \<open>Packing and unpacking\<close>

lemma SEQUENCE_NUMBER_MAX_val: "SEQUENCE_NUMBER_MAX = 0xFFFFFFFFFFFFFF"
  by (simp add: SEQUENCE_NUMBER_MAX_def push_bit_eq_mult)

lemma kind_roundtrip [simp, codec_simps]: "kind_try_from (kind_to_u8 kd) = Ok kd"
  by (cases kd) (simp_all add: kind_try_from_def)

lemma drop_bit_pack:
  "seq \<le> SEQUENCE_NUMBER_MAX \<Longrightarrow> drop_bit 8 (push_bit 8 seq OR ucast (b :: u8)) = (seq :: u64)"
proof -
  assume "seq \<le> SEQUENCE_NUMBER_MAX"
  then have "take_bit 56 seq = seq"
    by (simp add: SEQUENCE_NUMBER_MAX_val word_le_nat_alt word_unat_eq_iff unsigned_take_bit_eq
        take_bit_nat_eq_self)
  then have small: "bit seq i \<Longrightarrow> i < 56" for i by (metis bit_take_bit_iff)
  show ?thesis
    by (rule bit_word_eqI)
      (auto simp: bit_drop_bit_eq bit_or_iff bit_push_bit_iff bit_ucast_iff
        dest: bit_imp_le_length small)
qed

lemma low_byte_pack: "ucast ((push_bit 8 seq OR ucast (b :: u8)) AND (0xFF :: u64)) = b"
proof -
  have "(0xFF :: u64) = mask 8" by (simp add: mask_eq_exp_minus_1)
  then have "x AND 0xFF = take_bit 8 x" for x :: u64 by (simp only: take_bit_eq_mask)
  then show ?thesis
    by (intro bit_word_eqI) (auto simp: bit_or_iff bit_push_bit_iff bit_ucast_iff bit_take_bit_iff)
qed

lemma new_InternalKey_Ok:
  assumes "new_InternalKey uk seq kd = Ok k"
  shows "user_key k = uk" "sequence_number k = seq" "kind k = Ok kd" "seq \<le> SEQUENCE_NUMBER_MAX"
proof -
  from assms have le: "seq \<le> SEQUENCE_NUMBER_MAX"
    and k: "k = \<lparr> user_key = uk, encoded_sequence_number = push_bit 8 seq OR ucast (kind_to_u8 kd) \<rparr>"
    by (auto simp: new_InternalKey_def split: if_splits)
  show "seq \<le> SEQUENCE_NUMBER_MAX" by (rule le)
  show "user_key k = uk" by (simp add: k)
  show "sequence_number k = seq" using le by (simp add: k sequence_number_def drop_bit_pack del: drop_bit_or)
  show "kind k = Ok kd" by (simp add: k kind_def low_byte_pack)
qed

lemma sequence_number_le_max: "sequence_number k \<le> SEQUENCE_NUMBER_MAX"
proof -
  have "unat (encoded_sequence_number k) div 2 ^ 8 < 2 ^ 56"
    using unat_less_width [of "encoded_sequence_number k"]
    by (intro less_mult_imp_div_less) simp
  then show ?thesis
    by (simp add: sequence_number_def SEQUENCE_NUMBER_MAX_val word_le_nat_alt unat_drop_bit)
qed

text \<open>Every key whose kind byte is valid is one that \<open>new\<close> builds.\<close>

lemma new_InternalKey_total:
  assumes "kind k = Ok kd"
  shows "new_InternalKey (user_key k) (sequence_number k) kd = Ok k"
proof -
  have b: "ucast (encoded_sequence_number k AND 0xFF) = kind_to_u8 kd"
    using assms by (auto simp: kind_def kind_try_from_def split: if_splits)
  have "(0xFF :: u64) = mask 8" by (simp add: mask_eq_exp_minus_1)
  then have t: "x AND 0xFF = take_bit 8 x" for x :: u64 by (simp only: take_bit_eq_mask)
  have "push_bit 8 (drop_bit 8 (encoded_sequence_number k)) OR ucast (kind_to_u8 kd)
        = encoded_sequence_number k"
    unfolding b [symmetric] t
    by (rule bit_word_eqI)
      (auto simp: bit_or_iff bit_push_bit_iff bit_drop_bit_eq bit_ucast_iff bit_take_bit_iff)
  then show ?thesis
    using sequence_number_le_max [of k]
    by (simp add: new_InternalKey_def sequence_number_def [symmetric] linorder_not_less)
qed

section \<open>The serialized form\<close>

lemma length_serialize [simp]: "length (serialize k) = serialized_size k"
  by (simp add: serialize_def serialized_size_def)

lemma serialize_inj: "serialize a = serialize b \<longleftrightarrow> a = b"
proof
  assume eq: "serialize a = serialize b"
  then have "length (user_key a) = length (user_key b)"
    by (metis add_right_cancel length_serialize serialized_size_def)
  with eq have "user_key a = user_key b"
    "u64_be (NOT (encoded_sequence_number a)) = u64_be (NOT (encoded_sequence_number b))"
    by (simp_all add: serialize_def)
  then have "encoded_sequence_number a = encoded_sequence_number b"
    by (simp add: to_be_inject)
  with \<open>user_key a = user_key b\<close> show "a = b" by simp
qed simp

lemma pos_less_encoded:
  "sequence_number b < sequence_number a \<Longrightarrow> encoded_sequence_number b < encoded_sequence_number a"
  unfolding sequence_number_def word_less_nat_alt unat_drop_bit
  by (meson div_le_mono leD leI)

lemma serialize_less_same_user:
  "user_key a = user_key b \<Longrightarrow>
   serialize a < serialize b \<longleftrightarrow> encoded_sequence_number b < encoded_sequence_number a"
  by (simp add: serialize_def u64_be_less_iff)

text \<open>
  Between unrelated user keys (neither a prefix of the other) and between versions
  of one user key the byte order is the key order.
\<close>

lemma serialize_less_iff_pos:
  assumes "sequence_number a \<noteq> sequence_number b \<or> user_key a \<noteq> user_key b"
    and "prefix (user_key a) (user_key b) \<or> prefix (user_key b) (user_key a)
           \<Longrightarrow> user_key a = user_key b"
  shows "serialize a < serialize b \<longleftrightarrow> ik_pos a < ik_pos b"
proof (cases "user_key a = user_key b")
  case True
  with assms(1) have "sequence_number a \<noteq> sequence_number b" by simp
  then consider "sequence_number a < sequence_number b" | "sequence_number b < sequence_number a"
    by (metis linorder_neqE)
  then show ?thesis
    by cases (use True pos_less_encoded [of a b] pos_less_encoded [of b a] in
        \<open>auto simp: serialize_less_same_user ik_pos_def\<close>)
next
  case False
  with assms(2) have "\<not> prefix (user_key a) (user_key b)" "\<not> prefix (user_key b) (user_key a)"
    by auto
  then show ?thesis
    using False by (simp add: serialize_def less_append_no_prefix ik_pos_def)
qed

section \<open>Properties\<close>

text \<open>
  (C27) Between versions of one user key, and between user keys neither of which is
  a prefix of the other, the byte order of serialized keys is the order of
  \<open>InternalKey\<close>: user key ascending, then newest version first.  Keys that compare
  equal, with the same user key and sequence number, are left out: their byte order
  is that of their kind bytes.
\<close>

theorem serialize_order:
  assumes "ik_cmp a b \<noteq> Equal"
    and "user_key a = user_key b \<or>
         \<not> prefix (user_key a) (user_key b) \<and> \<not> prefix (user_key b) (user_key a)"
  shows "(serialize a < serialize b) = (ik_cmp a b = Less)"
  using assms serialize_less_iff_pos [of a b] by (auto simp: ik_cmp_pos ik_pos_def)

theorem serialize_order_witness:
  "(serialize (from_encoded [1] 0x500) < serialize (from_encoded [1] 0x300)) =
   (ik_cmp (from_encoded [1] 0x500) (from_encoded [1] 0x300) = Less)"
  by (rule serialize_order) (simp_all add: ik_cmp_pos ik_pos_def from_encoded_def sequence_number_def)

text \<open>
  (C28) When one user key is a proper prefix of another the byte order of the
  serialized keys can be the wrong way round.  If the byte of the longer key behind
  the common prefix is below \<open>0xFF\<close> and the sequence number of the shorter key is
  below \<open>2 ^ 48\<close>, so that its complemented trailer starts with \<open>0xFF\<close>, then the
  shorter key comes first in key order but last in byte order.
\<close>

theorem serialize_order_prefix_reversed:
  assumes "user_key b = user_key a @ c # w" "c < 0xFF" "sequence_number a < 2 ^ 48"
  shows "ik_cmp a b = Less \<and> serialize b < serialize a"
proof -
  let ?x = "encoded_sequence_number a"
  have "unat ?x < 2 ^ 56"
    using assms(3) by (simp add: sequence_number_def word_less_nat_alt unat_drop_bit
        div_less_iff_less_mult)
  then have "drop_bit 56 ?x = 0"
    by (simp add: word_unat_eq_iff unat_drop_bit)
  then have "\<not> bit (drop_bit 56 ?x) n" for n by simp
  then have "\<not> bit ?x (56 + n)" for n by (simp add: bit_drop_bit_eq)
  then have "(ucast (drop_bit 56 (NOT ?x)) :: u8) = - 1"
    by (intro bit_word_eqI) (simp add: bit_ucast_iff bit_drop_bit_eq bit_not_iff)
  then have ser: "serialize a = user_key a @ 0xFF # to_be 7 (NOT ?x)"
    using to_be_Suc [of 7 "NOT ?x"] by (simp add: serialize_def)
  have "user_key a @ [] < user_key a @ c # w" by (simp only: append_less_same) simp
  then have "ik_cmp a b = Less" using assms(1) by (simp add: ik_cmp_pos ik_pos_def)
  moreover have "serialize b < serialize a"
    using assms(2) by (simp add: ser) (simp add: serialize_def assms(1))
  ultimately show ?thesis by blast
qed

theorem serialize_order_prefix_reversed_witness:
  "ik_cmp (from_encoded [0x61] 0x500) (from_encoded [0x61, 0x62] 0x600) = Less \<and>
   serialize (from_encoded [0x61, 0x62] 0x600) < serialize (from_encoded [0x61] 0x500)"
  by (rule serialize_order_prefix_reversed [of _ _ "0x62" "[]"])
    (simp_all add: from_encoded_def sequence_number_def drop_bit_eq_div)

end
