(* ===== verification/Mvcc.thy ===== *)
theory Mvcc
  imports Internal_Key
begin

text \<open>
  The specification the storage components are measured against: a collection of
  versioned entries, and which version of a user key a reader at a sequence number
  sees.  \<open>visible\<close> picks the first suitable entry of a list; on lists in key order
  that is the newest one, and then the answer depends on the set of entries only.
\<close>

type_synonym entry = "InternalKey \<times> bytes"

abbreviation ukey :: "entry \<Rightarrow> bytes" where "ukey e \<equiv> user_key (fst e)"
abbreviation eseq :: "entry \<Rightarrow> u64" where "eseq e \<equiv> sequence_number (fst e)"
abbreviation epos :: "entry \<Rightarrow> key_pos" where "epos e \<equiv> ik_pos (fst e)"

definition entries_sorted :: "entry list \<Rightarrow> bool" where
  "entries_sorted es \<longleftrightarrow> sorted_wrt (\<lambda>a b. epos a < epos b) es"

definition visible :: "bytes \<Rightarrow> u64 \<Rightarrow> entry list \<Rightarrow> entry option" where
  "visible uk s es = find (\<lambda>e. ukey e = uk \<and> eseq e \<le> s) es"

text \<open>What it means for \<open>e\<close> to be the version of \<open>uk\<close> that a reader at \<open>s\<close> must see.\<close>

definition is_visible :: "bytes \<Rightarrow> u64 \<Rightarrow> entry set \<Rightarrow> entry \<Rightarrow> bool" where
  "is_visible uk s E e \<longleftrightarrow> e \<in> E \<and> ukey e = uk \<and> eseq e \<le> s \<and>
     (\<forall>e'\<in>E. ukey e' = uk \<longrightarrow> eseq e' \<le> s \<longrightarrow> eseq e' \<le> eseq e)"

text \<open>No two entries share user key and sequence number.\<close>

definition unique_versions :: "entry set \<Rightarrow> bool" where
  "unique_versions E \<longleftrightarrow> (\<forall>a\<in>E. \<forall>b\<in>E. epos a = epos b \<longrightarrow> a = b)"

definition put_entry :: "InternalKey \<Rightarrow> bytes \<Rightarrow> entry list \<Rightarrow> entry list" where
  "put_entry k v es =
     (if \<exists>e\<in>set es. epos e = ik_pos k then es
      else takeWhile (\<lambda>e. epos e < ik_pos k) es @ (k, v) # dropWhile (\<lambda>e. epos e < ik_pos k) es)"

lemma epos_eq: "epos a = epos b \<longleftrightarrow> ukey a = ukey b \<and> eseq a = eseq b"
  by (simp add: ik_pos_def)

lemma epos_less: "epos a < epos b \<longleftrightarrow> ukey a < ukey b \<or> ukey a = ukey b \<and> eseq b < eseq a"
  by (simp add: ik_pos_def)

lemma entries_sorted_unique: "entries_sorted es \<Longrightarrow> unique_versions (set es)"
proof (induction es)
  case (Cons e es)
  then show ?case by (fastforce simp: entries_sorted_def unique_versions_def)
qed (simp add: unique_versions_def)

lemma entries_sorted_append:
  "entries_sorted (xs @ ys) \<longleftrightarrow>
     entries_sorted xs \<and> entries_sorted ys \<and> (\<forall>x\<in>set xs. \<forall>y\<in>set ys. epos x < epos y)"
  by (simp add: entries_sorted_def sorted_wrt_append)

lemma visible_None: "visible uk s es = None \<longleftrightarrow> (\<forall>e\<in>set es. ukey e = uk \<longrightarrow> \<not> eseq e \<le> s)"
  by (auto simp: visible_def find_None_iff)

lemma visible_Some_in: "visible uk s es = Some e \<Longrightarrow> e \<in> set es \<and> ukey e = uk \<and> eseq e \<le> s"
  by (auto simp: visible_def find_Some_iff)

lemma visible_is_visible:
  assumes "entries_sorted es"
  shows "visible uk s es = Some e \<longleftrightarrow> is_visible uk s (set es) e"
  using assms
proof (induction es)
  case (Cons x es)
  have tail: "entries_sorted es" "\<forall>y\<in>set es. epos x < epos y"
    using Cons.prems by (simp_all add: entries_sorted_def)
  show ?case
  proof (cases "ukey x = uk \<and> eseq x \<le> s")
    case True
    have "eseq y < eseq x" if "y \<in> set es" "ukey y = uk" for y
      using tail(2) that True by (auto simp: epos_less)
    with True show ?thesis by (fastforce simp: visible_def is_visible_def)
  next
    case False
    then show ?thesis using Cons.IH [OF tail(1)] by (auto simp: visible_def is_visible_def)
  qed
qed (simp add: visible_def is_visible_def)

lemma is_visible_unique:
  "unique_versions E \<Longrightarrow> is_visible uk s E a \<Longrightarrow> is_visible uk s E b \<Longrightarrow> a = b"
  proof -
  assume E: "unique_versions E" and a: "is_visible uk s E a" and b: "is_visible uk s E b"
  have "eseq a \<le> eseq b" "eseq b \<le> eseq a" "ukey a = ukey b"
    using a b by (simp_all add: is_visible_def)
  then have "eseq a = eseq b" by (rule_tac order_antisym)
  with \<open>ukey a = ukey b\<close> E a b show "a = b" by (simp add: is_visible_def unique_versions_def epos_eq)
qed

lemma put_entry_sorted:
  assumes "entries_sorted es"
  shows "entries_sorted (put_entry k v es)"
    "set (put_entry k v es) = (if \<exists>e\<in>set es. epos e = ik_pos k then set es else insert (k, v) (set es))"
proof -
  let ?P = "\<lambda>e. epos e < ik_pos k"
  show "set (put_entry k v es) = (if \<exists>e\<in>set es. epos e = ik_pos k then set es else insert (k, v) (set es))"
    using set_append [of "takeWhile ?P es" "dropWhile ?P es"] by (auto simp: put_entry_def)
  show "entries_sorted (put_entry k v es)"
  proof (cases "\<exists>e\<in>set es. epos e = ik_pos k")
    case False
    have before: "\<forall>e\<in>set (takeWhile ?P es). ?P e" by (blast dest: set_takeWhileD)
    have after: "\<forall>e\<in>set (dropWhile ?P es). ik_pos k < epos e"
    proof
      fix e assume e: "e \<in> set (dropWhile ?P es)"
      then have "\<not> ?P e"
        using dropWhile_sorted [of "\<lambda>a b. epos a < epos b" es ?P e] assms
        by (auto simp: entries_sorted_def)
      moreover have "epos e \<noteq> ik_pos k" using e False by (auto dest: set_dropWhileD)
      ultimately show "ik_pos k < epos e" by simp
    qed
    have "entries_sorted (takeWhile ?P es @ dropWhile ?P es)" using assms by simp
    then have "entries_sorted (takeWhile ?P es @ (k, v) # dropWhile ?P es)"
      using before after
      unfolding entries_sorted_append by (simp add: entries_sorted_def)
    with False show ?thesis by (simp add: put_entry_def)
  qed (use assms in \<open>simp add: put_entry_def\<close>)
qed

section \<open>The contract of an ordered in-memory store\<close>

text \<open>
  What the memtable relies on.  \<open>'c\<close> is the source of random choices of an insert; an
  operation that does not return has the value \<open>None\<close>, so the laws include
  termination.
\<close>

locale ordered_store =
  fixes ok :: "'s \<Rightarrow> bool"
    and content :: "'s \<Rightarrow> entry list"
    and put :: "'c \<Rightarrow> InternalKey \<Rightarrow> bytes \<Rightarrow> 's \<Rightarrow> (bytes option \<times> 's) option"
    and seek :: "bytes \<Rightarrow> 's \<Rightarrow> entry option option"
    and seek_iter :: "bytes \<Rightarrow> 's \<Rightarrow> entry list option"
  assumes content_sorted: "ok s \<Longrightarrow> entries_sorted (content s)"
    and put_content: "ok s \<Longrightarrow>
      \<exists>r s'. put c k v s = Some (r, s') \<and> ok s' \<and> content s' = put_entry k v (content s)"
    and seek_content: "ok s \<Longrightarrow> seek uk s = Some (find (\<lambda>e. uk \<le> ukey e) (content s))"
    and seek_iter_content: "ok s \<Longrightarrow>
      seek_iter uk s = Some (dropWhile (\<lambda>e. ukey e < uk) (content s))"
begin

text \<open>Seeking the user key finds the newest version, if there is one.\<close>

lemma seek_newest:
  assumes "ok s"
  shows "(case seek uk s of
            Some (Some e) \<Rightarrow> if ukey e = uk then Some e else None
          | _ \<Rightarrow> None) = visible uk SEQUENCE_NUMBER_MAX (content s)"
proof -
  have "find (\<lambda>e. uk \<le> ukey e) es = None \<Longrightarrow> visible uk SEQUENCE_NUMBER_MAX es = None" for es
    by (auto simp: find_None_iff visible_None)
  moreover have "(if ukey e = uk then Some e else None) = visible uk SEQUENCE_NUMBER_MAX es"
    if "find (\<lambda>e. uk \<le> ukey e) es = Some e" "entries_sorted es" for es e
    using that
  proof (induction es)
    case (Cons x es)
    show ?case
    proof (cases "uk \<le> ukey x")
      case True
      then have "e = x" using Cons.prems by simp
      moreover have "visible uk SEQUENCE_NUMBER_MAX es = None" if "uk < ukey x"
        using Cons.prems(2) that
        by (auto simp: visible_None entries_sorted_def epos_less)
      ultimately show ?thesis
        using True sequence_number_le_max [of "fst x"] by (cases "ukey x = uk") (auto simp: visible_def)
    next
      case False
      then show ?thesis using Cons by (auto simp: visible_def entries_sorted_def)
    qed
  qed simp
  ultimately show ?thesis
    using seek_content [OF assms, of uk] content_sorted [OF assms]
    by (auto split: option.splits)
qed

lemma put_many:
  assumes "ok s"
  shows "\<exists>s'. ok s' \<and> set (content s) \<subseteq> set (content s') \<and> (\<exists>r. put c k v s = Some (r, s')) \<and>
    set (content s') = (if \<exists>e\<in>set (content s). epos e = ik_pos k then set (content s)
      else insert (k, v) (set (content s)))"
  using put_content [OF assms, of c k v] put_entry_sorted(2) [OF content_sorted [OF assms], of k v]
  by (metis order_refl subset_insertI)

end

end
