(* ===== verification/Snapshot_Manager.thy ===== *)
theory Snapshot_Manager
  imports Mvcc "HOL-Library.AList"
begin

text \<open>
  \<open>core/snapshot_manager.rs\<close>: the open snapshots, a hash map from snapshot id to
  sequence number and an ordered map from sequence number to reference count.  The maps
  are association lists without duplicate keys, the ordered one sorted by key.
\<close>

record SnapshotHandle =
  sh_id :: u64
  sh_sequence :: u64

record SnapshotManager =
  next_snapshot_id :: u64
  by_id :: "(u64 \<times> u64) list"
  seq_refcnt :: "(u64 \<times> nat) list"

definition new_SnapshotManager :: SnapshotManager where
  "new_SnapshotManager = \<lparr> next_snapshot_id = 1, by_id = [], seq_refcnt = [] \<rparr>"

text \<open>\<open>BTreeMap::entry(k).or_insert(0) += 1\<close>.\<close>

fun refcnt_incr :: "u64 \<Rightarrow> (u64 \<times> nat) list \<Rightarrow> (u64 \<times> nat) list" where
  "refcnt_incr s [] = [(s, 1)]"
| "refcnt_incr s ((t, n) # m) =
     (if s = t then (t, n + 1) # m else if s < t then (s, 1) # (t, n) # m else (t, n) # refcnt_incr s m)"

text \<open>\<open>get_mut\<close>, \<open>saturating_sub(1)\<close> and the removal of a zero count.\<close>

fun refcnt_decr :: "u64 \<Rightarrow> (u64 \<times> nat) list \<Rightarrow> (u64 \<times> nat) list" where
  "refcnt_decr s [] = []"
| "refcnt_decr s ((t, n) # m) =
     (if s = t then (if n - 1 = 0 then m else (t, n - 1) # m) else (t, n) # refcnt_decr s m)"

definition saturating_incr :: "u64 \<Rightarrow> u64" where
  "saturating_incr n = (if n = - 1 then n else n + 1)"

definition snap_create :: "u64 \<Rightarrow> SnapshotManager \<Rightarrow> SnapshotHandle \<times> SnapshotManager" where
  "snap_create sequence sm =
     (let sid = next_snapshot_id sm
      in (\<lparr> sh_id = sid, sh_sequence = sequence \<rparr>,
          sm \<lparr> next_snapshot_id := saturating_incr sid,
               by_id := AList.update sid sequence (by_id sm),
               seq_refcnt := refcnt_incr sequence (seq_refcnt sm) \<rparr>))"

definition snap_release :: "u64 \<Rightarrow> SnapshotManager \<Rightarrow> bool \<times> SnapshotManager" where
  "snap_release sid sm =
     (case map_of (by_id sm) sid of
        None \<Rightarrow> (False, sm)
      | Some sequence \<Rightarrow>
          (True, sm \<lparr> by_id := AList.delete sid (by_id sm),
                      seq_refcnt := refcnt_decr sequence (seq_refcnt sm) \<rparr>))"

definition lookup_sequence :: "u64 \<Rightarrow> SnapshotManager \<Rightarrow> u64 option" where
  "lookup_sequence sid sm = map_of (by_id sm) sid"

definition snapshot_sequences_sorted :: "SnapshotManager \<Rightarrow> u64 list" where
  "snapshot_sequences_sorted sm = map fst (seq_refcnt sm)"

definition oldest_snapshot_sequence :: "SnapshotManager \<Rightarrow> u64 option" where
  "oldest_snapshot_sequence sm = (case seq_refcnt sm of [] \<Rightarrow> None | (s, _) # _ \<Rightarrow> Some s)"

definition active_count :: "SnapshotManager \<Rightarrow> nat" where
  "active_count sm = length (by_id sm)"

datatype SnapOp = CreateSnapshot u64 | ReleaseSnapshot u64

fun snap_op :: "SnapOp \<Rightarrow> SnapshotManager \<Rightarrow> SnapshotManager" where
  "snap_op (CreateSnapshot s) sm = snd (snap_create s sm)"
| "snap_op (ReleaseSnapshot i) sm = snd (snap_release i sm)"

section \<open>The reference counts\<close>

text \<open>How many open snapshots sit at a sequence number.\<close>

definition snaps_at :: "u64 \<Rightarrow> (u64 \<times> u64) list \<Rightarrow> nat" where
  "snaps_at s ids = length (filter (\<lambda>(_, t). t = s) ids)"

definition snap_inv :: "SnapshotManager \<Rightarrow> bool" where
  "snap_inv sm \<longleftrightarrow>
     distinct (map fst (by_id sm)) \<and>
     (\<forall>sid\<in>set (map fst (by_id sm)). sid < next_snapshot_id sm) \<and>
     sorted_wrt (<) (map fst (seq_refcnt sm)) \<and>
     (\<forall>s. map_of (seq_refcnt sm) s = (let n = snaps_at s (by_id sm) in if n = 0 then None else Some n))"

lemma refcnt_incr_keys: "set (map fst (refcnt_incr s m)) = insert s (set (map fst m))"
  by (induction m rule: refcnt_incr.induct) auto

lemma refcnt_incr_sorted: "sorted_wrt (<) (map fst m) \<Longrightarrow> sorted_wrt (<) (map fst (refcnt_incr s m))"
proof (induction s m rule: refcnt_incr.induct)
  case (2 s t n m)
  then show ?case using refcnt_incr_keys [of s m] by (auto simp: image_iff)
qed simp

lemma map_of_below: "\<forall>x\<in>set (map fst m). s < x \<Longrightarrow> map_of m (s :: u64) = None"
  by (induction m) auto

lemma refcnt_incr_map:
  "sorted_wrt (<) (map fst m) \<Longrightarrow>
   map_of (refcnt_incr s m) = (map_of m)(s \<mapsto> (case map_of m s of None \<Rightarrow> 1 | Some n \<Rightarrow> n + 1))"
proof (induction s m rule: refcnt_incr.induct)
  case (2 s t n m)
  have "map_of m s = None" if "s < t"
    using 2(2) that by (intro map_of_below) auto
  then show ?case using 2 by (auto simp: fun_eq_iff)
qed (simp add: fun_eq_iff)

lemma refcnt_decr_keys: "set (map fst (refcnt_decr s m)) \<subseteq> set (map fst m)"
  by (induction s m rule: refcnt_decr.induct) auto

lemma refcnt_decr_sorted: "sorted_wrt (<) (map fst m) \<Longrightarrow> sorted_wrt (<) (map fst (refcnt_decr s m))"
proof (induction m)
  case (Cons x m)
  obtain t n where x: "x = (t, n)" by (cases x)
  have "sorted_wrt (<) (map fst (refcnt_decr s m))" using Cons by simp
  moreover have "t < y" if "y \<in> set (map fst (refcnt_decr s m))" for y
    using Cons.prems subsetD [OF refcnt_decr_keys that] by (simp add: x del: set_map)
  ultimately show ?case using Cons.prems by (simp add: x del: set_map)
qed simp

lemma refcnt_decr_map:
  "sorted_wrt (<) (map fst m) \<Longrightarrow>
   map_of (refcnt_decr s m) =
     (map_of m)(s := (case map_of m s of None \<Rightarrow> None | Some n \<Rightarrow> if n - 1 = 0 then None else Some (n - 1)))"
proof (induction s m rule: refcnt_decr.induct)
  case (2 s t n m)
  have "map_of m t = None" using 2(2) by (intro map_of_below) auto
  then show ?case using 2 by (auto simp: fun_eq_iff)
qed (simp add: fun_eq_iff)

lemma snaps_at_update_new:
  "sid \<notin> set (map fst ids) \<Longrightarrow> snaps_at s (AList.update sid q ids) = snaps_at s ids + (if s = q then 1 else 0)"
  by (induction ids) (auto simp: snaps_at_def)

lemma snaps_at_delete:
  "distinct (map fst ids) \<Longrightarrow> map_of ids sid = Some q \<Longrightarrow>
   snaps_at s ids = snaps_at s (AList.delete sid ids) + (if s = q then 1 else 0)"
proof (induction ids)
  case (Cons x ids)
  have "AList.delete sid ids = ids" if "sid \<notin> fst ` set ids"
    using that by (rule delete_id)
  with Cons show ?case by (cases x) (auto simp: snaps_at_def split: if_splits)
qed simp

lemma snap_create_inv:
  assumes "snap_inv sm" "next_snapshot_id sm \<noteq> - 1"
  shows "snap_inv (snd (snap_create s sm))"
proof -
  let ?i = "next_snapshot_id sm" and ?ids = "by_id sm"
  have new: "?i \<notin> set (map fst ?ids)" using assms(1) by (auto simp: snap_inv_def)
  have step: "x < ?i \<Longrightarrow> x < ?i + 1" "?i < ?i + 1" for x
    using unat_incr [OF assms(2)] by (simp_all add: word_less_nat_alt)
  have "map_of (refcnt_incr s (seq_refcnt sm)) t = (let n = snaps_at t (AList.update ?i s ?ids) in if n = 0 then None else Some n)" for t
    using assms(1) by (auto simp: snap_inv_def refcnt_incr_map snaps_at_update_new [OF new] Let_def split: option.splits)
  then show ?thesis
    using assms step new
    by (auto simp: snap_inv_def snap_create_def Let_def saturating_incr_def refcnt_incr_sorted
        distinct_update update_keys)
qed

lemma snap_release_inv:
  assumes "snap_inv sm"
  shows "snap_inv (snd (snap_release i sm))"
proof (cases "map_of (by_id sm) i")
  case (Some q)
  have *: "snaps_at t (by_id sm) = snaps_at t (AList.delete i (by_id sm)) + (if t = q then 1 else 0)" for t
    using snaps_at_delete [OF _ Some] assms by (simp add: snap_inv_def)
  have "map_of (refcnt_decr q (seq_refcnt sm)) t = (let n = snaps_at t (AList.delete i (by_id sm)) in if n = 0 then None else Some n)" for t
    using assms * [of t] by (auto simp: snap_inv_def refcnt_decr_map Let_def split: option.splits)
  then show ?thesis
    using assms Some
    by (auto simp: snap_inv_def snap_release_def refcnt_decr_sorted distinct_delete delete_keys distinct_removeAll Let_def)
qed (use assms in \<open>simp add: snap_release_def\<close>)

lemma snap_run_inv:
  "length ops < 2 ^ 64 - 1 \<Longrightarrow>
   snap_inv (fold snap_op ops new_SnapshotManager) \<and>
   unat (next_snapshot_id (fold snap_op ops new_SnapshotManager)) \<le> 1 + length ops"
proof (induction ops rule: rev_induct)
  case Nil
  show ?case by (simp add: snap_inv_def new_SnapshotManager_def snaps_at_def)
next
  case (snoc x ops)
  let ?sm = "fold snap_op ops new_SnapshotManager"
  have IH: "snap_inv ?sm" "unat (next_snapshot_id ?sm) \<le> 1 + length ops"
    using snoc by simp_all
  have ne: "next_snapshot_id ?sm \<noteq> - 1"
  proof
    assume "next_snapshot_id ?sm = - 1"
    then have "unat (- 1 :: u64) \<le> 1 + length ops" using IH(2) by simp
    then show False using snoc.prems unfolding unat_max by simp
  qed
  show ?case
    using snap_create_inv [OF IH(1) ne] snap_release_inv [OF IH(1)] IH(2) unat_incr [OF ne]
    by (cases x) (auto simp: snap_create_def snap_release_def Let_def saturating_incr_def ne
        split: option.splits)
qed

lemma snap_inv_sequences:
  assumes "snap_inv sm"
  shows "set (snapshot_sequences_sorted sm) = snd ` set (by_id sm)"
proof -
  have "s \<in> set (snapshot_sequences_sorted sm) \<longleftrightarrow> s \<in> snd ` set (by_id sm)" for s
  proof -
    have "s \<in> set (snapshot_sequences_sorted sm) \<longleftrightarrow> map_of (seq_refcnt sm) s \<noteq> None"
      by (simp add: snapshot_sequences_sorted_def map_of_eq_None_iff)
    also have "\<dots> \<longleftrightarrow> snaps_at s (by_id sm) \<noteq> 0"
      using assms by (simp add: snap_inv_def Let_def)
    also have "\<dots> \<longleftrightarrow> s \<in> snd ` set (by_id sm)"
      by (force simp: snaps_at_def filter_empty_conv image_iff)
    finally show ?thesis .
  qed
  then show ?thesis by blast
qed

text \<open>
  (C18) The snapshot list handed to compaction is exact.  After any history of creates and
  releases (fewer than \<open>2^64 - 1\<close> operations, so that ids do not saturate),
  \<open>snapshot_sequences_sorted\<close> is the strictly increasing list of the sequence numbers
  of the open snapshots, a number being listed as long as at least one handle at it is
  open; the oldest one is its first element, so no open snapshot lies below it.
\<close>

theorem snapshot_list_exact:
  assumes "length ops < 2 ^ 64 - 1"
  defines "sm \<equiv> fold snap_op ops new_SnapshotManager"
  shows "snapshot_sequences_sorted sm = sorted_list_of_set {s. \<exists>i. lookup_sequence i sm = Some s} \<and>
    oldest_snapshot_sequence sm =
      (if active_count sm = 0 then None else Some (Min {s. \<exists>i. lookup_sequence i sm = Some s}))"
proof -
  have inv: "snap_inv sm" using snap_run_inv [OF assms(1)] by (simp add: sm_def)
  have "{s. \<exists>i. lookup_sequence i sm = Some s} = snd ` set (by_id sm)"
    using inv by (force simp: lookup_sequence_def snap_inv_def)
  then have set: "{s. \<exists>i. lookup_sequence i sm = Some s} = set (snapshot_sequences_sorted sm)"
    using snap_inv_sequences [OF inv] by simp
  have sorted: "sorted_wrt (<) (snapshot_sequences_sorted sm)"
    using inv by (simp add: snap_inv_def snapshot_sequences_sorted_def)
  then have list: "snapshot_sequences_sorted sm = sorted_list_of_set (set (snapshot_sequences_sorted sm))"
    by (simp add: sorted_list_of_set.idem_if_sorted_distinct strict_sorted_iff)
  have empty: "active_count sm = 0 \<longleftrightarrow> snapshot_sequences_sorted sm = []"
    using snap_inv_sequences [OF inv] by (auto simp: active_count_def)
  have "oldest_snapshot_sequence sm = (case snapshot_sequences_sorted sm of [] \<Rightarrow> None | s # _ \<Rightarrow> Some s)"
    by (auto simp: oldest_snapshot_sequence_def snapshot_sequences_sorted_def split: list.splits)
  moreover have "Min (set (s # ss)) = s" if "snapshot_sequences_sorted sm = s # ss" for s ss
    using sorted that by (intro Min_eqI) auto
  ultimately show ?thesis
    using list empty by (auto simp: set split: list.splits)
qed

theorem snapshot_list_exact_witness:
  "let ops = [CreateSnapshot 9, CreateSnapshot 4, CreateSnapshot 4, ReleaseSnapshot 2];
       sm = fold snap_op ops new_SnapshotManager
   in length ops < 2 ^ 64 - 1 \<and> snapshot_sequences_sorted sm = [4, 9] \<and>
      sorted_list_of_set {s. \<exists>i. lookup_sequence i sm = Some s} = [4, 9]"
proof -
  let ?ops = "[CreateSnapshot 9, CreateSnapshot 4, CreateSnapshot 4, ReleaseSnapshot 2]"
  have len: "length ?ops < 2 ^ 64 - 1" by simp
  have run: "snapshot_sequences_sorted (fold snap_op ?ops new_SnapshotManager) = [4, 9]" by code_simp
  show ?thesis
    unfolding Let_def using snapshot_list_exact [OF len, THEN conjunct1, symmetric] len
    unfolding run by blast
qed

end
