(* ===== verification/Wal_Format.thy ===== *)
theory Wal_Format
  imports Internal_Key
begin

text \<open>
  \<open>storage/wal/format.rs\<close>, \<open>codec.rs\<close>, \<open>reader.rs\<close> and \<open>utils/io_helpers.rs\<close>:
  the record layout of the write-ahead log, the record reader, the encoder of
  single records and of atomic batches, and the validating iterator.  A reader is
  the list of bytes it has not returned yet.  The CRC-32 of the external crate is
  the parameter \<open>crc\<close> of the definitions that hash; \<open>Hasher::update\<close> called in
  sequence hashes the concatenation of its arguments.
\<close>

section \<open>Reading with end-of-file detection\<close>

datatype ReadOutcome = ReadEof | ReadPartial | ReadComplete

definition read_exact_or_eof :: "nat \<Rightarrow> bytes \<Rightarrow> ReadOutcome \<times> bytes \<times> bytes" where
  "read_exact_or_eof n bs =
     (if n = 0 then (ReadComplete, [], bs)
      else if bs = [] then (ReadEof, [], [])
      else if length bs < n then (ReadPartial, bs, [])
      else (ReadComplete, take n bs, drop n bs))"

section \<open>Records\<close>

datatype PartialStage = ChecksumStage | BodyStage

record WalRecord =
  checksum :: u32
  key_len :: u32
  rec_key :: InternalKey
  value_len :: u32
  rec_value :: bytes

datatype RecordRead = REof | RPartial PartialStage | RInvalidKeyLen | RRecord WalRecord

definition checksum_for :: "(bytes \<Rightarrow> u32) \<Rightarrow> InternalKey \<Rightarrow> u32 \<Rightarrow> bytes \<Rightarrow> u32 \<Rightarrow> u32" where
  "checksum_for crc k klen v vlen =
     crc (u32_le klen @ user_key k @ u64_le (encoded_sequence_number k) @ u32_le vlen @ v)"

definition checksum_matches :: "(bytes \<Rightarrow> u32) \<Rightarrow> WalRecord \<Rightarrow> bool" where
  "checksum_matches crc r \<longleftrightarrow>
     checksum_for crc (rec_key r) (key_len r) (rec_value r) (value_len r) = checksum r"

text \<open>A sum of five numbers below \<open>2 ^ 32\<close> never wraps in \<open>u64\<close>.\<close>

definition total_len :: "WalRecord \<Rightarrow> nat" where
  "total_len r = 4 + 4 + unat (key_len r) + 4 + unat (value_len r)"

definition into_parts :: "WalRecord \<Rightarrow> InternalKey \<times> bytes" where
  "into_parts r = (rec_key r, rec_value r)"

definition read_record :: "bytes \<Rightarrow> RecordRead result \<times> bytes" where
  "read_record bs =
    (case read_exact_or_eof 4 bs of (out, cb, bs1) \<Rightarrow>
     if out = ReadEof then (Ok REof, bs1)
     else if out = ReadPartial then (Ok (RPartial ChecksumStage), bs1)
     else case read_exact_or_eof 4 bs1 of (out, kb, bs2) \<Rightarrow>
     if out \<noteq> ReadComplete then (Ok (RPartial BodyStage), bs2)
     else let klen = from_le kb :: u32 in
     if klen < 8 then (Ok RInvalidKeyLen, bs2)
     else case read_exact_or_eof (unat klen - 8) bs2 of (out, uk, bs3) \<Rightarrow>
     if out \<noteq> ReadComplete then (Ok (RPartial BodyStage), bs3)
     else case read_exact_or_eof 8 bs3 of (out, sb, bs4) \<Rightarrow>
     if out \<noteq> ReadComplete then (Ok (RPartial BodyStage), bs4)
     else let k = from_encoded uk (from_le sb) in
     case kind k of
       Inl _ \<Rightarrow> (Err (Corruption ''wal_record_kind''
                  ''invalid internal key kind in WAL record''), bs4)
     | Inr _ \<Rightarrow>
     case read_exact_or_eof 4 bs4 of (out, vb, bs5) \<Rightarrow>
     if out \<noteq> ReadComplete then (Ok (RPartial BodyStage), bs5)
     else let vlen = from_le vb :: u32 in
     case read_exact_or_eof (unat vlen) bs5 of (out, v, bs6) \<Rightarrow>
     if out \<noteq> ReadComplete then (Ok (RPartial BodyStage), bs6)
     else (Ok (RRecord \<lparr> checksum = from_le cb, key_len = klen, rec_key = k,
                          value_len = vlen, rec_value = v \<rparr>), bs6))"

section \<open>Encoding\<close>

definition record_size :: "InternalKey \<Rightarrow> bytes \<Rightarrow> nat" where
  "record_size k v = 12 + serialized_size k + length v"

definition encode_record_into :: "(bytes \<Rightarrow> u32) \<Rightarrow> bytes \<Rightarrow> InternalKey \<Rightarrow> bytes \<Rightarrow> bytes" where
  "encode_record_into crc buf k v =
     (let klen = of_nat (serialized_size k) :: u32;
          vlen = of_nat (length v) :: u32;
          cs = checksum_for crc k klen v vlen
      in buf @ u32_le cs @ u32_le klen @ user_key k @ u64_le (encoded_sequence_number k)
           @ u32_le vlen @ v)"

definition encode_record :: "(bytes \<Rightarrow> u32) \<Rightarrow> InternalKey \<Rightarrow> bytes \<Rightarrow> bytes" where
  "encode_record crc k v = encode_record_into crc [] k v"

definition BATCH_BEGIN_MAGIC :: bytes where
  "BATCH_BEGIN_MAGIC = [0x47, 0x4B, 0x54, 0x42]"

definition encode_batch_begin_value :: "nat \<Rightarrow> bytes result" where
  "encode_batch_begin_value op_count =
     (if 2 ^ 32 \<le> op_count then Err (InvalidArgument ''wal_batch_begin_op_count'' ''op count exceeds u32'')
      else Ok (BATCH_BEGIN_MAGIC @ u32_le (of_nat op_count)))"

definition decode_batch_begin_value :: "bytes \<Rightarrow> nat result" where
  "decode_batch_begin_value v =
     (if length v \<noteq> 8
      then Err (Corruption ''wal_batch_begin_value_len'' ''invalid batch begin marker length'')
      else if take 4 v \<noteq> BATCH_BEGIN_MAGIC
      then Err (Corruption ''wal_batch_begin_magic'' ''invalid batch begin marker magic'')
      else Ok (unat (from_le (subslice v 4 8) :: u32)))"

text \<open>
  The loop of \<open>encode_atomic_batch_into\<close> over the records of a batch.  An early
  return leaves the records already encoded in \<open>buf\<close>; both callers discard the
  buffer then, so the error is returned alone.
\<close>

definition saturating_add :: "'a::len word \<Rightarrow> 'a word \<Rightarrow> 'a word" where
  "saturating_add a b = (if a \<le> a + b then a + b else - 1)"

fun encode_batch_records ::
  "(bytes \<Rightarrow> u32) \<Rightarrow> bytes \<Rightarrow> u64 \<Rightarrow> (InternalKey \<times> bytes) list \<Rightarrow> bytes result" where
  "encode_batch_records crc buf expected_seq [] = Ok buf"
| "encode_batch_records crc buf expected_seq ((k, v) # rs) =
     (if sequence_number k \<noteq> expected_seq
      then Err (Corruption ''wal_batch_sequence'' ''non-contiguous batch sequence'')
      else and_then (kind k) (\<lambda>kd.
        if kd = TxnBatchBegin
        then Err (Corruption ''wal_batch_data_kind''
               ''batch payload cannot contain TxnBatchBegin record'')
        else encode_batch_records crc (encode_record_into crc buf k v)
               (saturating_add expected_seq 1) rs))"

definition encode_atomic_batch_into ::
  "(bytes \<Rightarrow> u32) \<Rightarrow> bytes \<Rightarrow> (InternalKey \<times> bytes) list \<Rightarrow> bytes result" where
  "encode_atomic_batch_into crc buf records =
     (case records of
        [] \<Rightarrow> Ok buf
      | (k0, _) # _ \<Rightarrow>
          let start_seq = sequence_number k0 in
          and_then (new_InternalKey [] start_seq TxnBatchBegin) (\<lambda>marker.
          and_then (encode_batch_begin_value (length records)) (\<lambda>marker_value.
          encode_batch_records crc (encode_record_into crc buf marker marker_value)
            start_seq records)))"

section \<open>The validating iterator\<close>

datatype WalError = WalIo | ChecksumMismatch bytes | WalInvalidKeyLen | WalUnexpectedEof

fun error_from_wal :: "WalError \<Rightarrow> Error" where
  "error_from_wal WalIo = Io ''wal''"
| "error_from_wal (ChecksumMismatch _) = Corruption ''wal_record'' ''checksum mismatch''"
| "error_from_wal WalInvalidKeyLen = Corruption ''wal_record'' ''invalid internal key length''"
| "error_from_wal WalUnexpectedEof =
     Corruption ''wal_record'' ''unexpected eof while reading wal record''"

lemma read_exact_length:
  "read_exact_or_eof n bs = (out, b, rest) \<Longrightarrow> length rest \<le> length bs"
  "read_exact_or_eof n bs = (ReadComplete, b, rest) \<Longrightarrow> bs = b @ rest \<and> length b = n"
  by (auto simp: read_exact_or_eof_def split: if_splits)

text \<open>The byte layout of a record, and the records a reader can return.\<close>

definition raw_record :: "WalRecord \<Rightarrow> bytes" where
  "raw_record r = u32_le (checksum r) @ u32_le (key_len r) @ user_key (rec_key r)
     @ u64_le (encoded_sequence_number (rec_key r)) @ u32_le (value_len r) @ rec_value r"

definition wf_record :: "WalRecord \<Rightarrow> bool" where
  "wf_record r \<longleftrightarrow> unat (key_len r) = serialized_size (rec_key r) \<and>
     unat (value_len r) = length (rec_value r) \<and> is_ok (kind (rec_key r))"

lemma to_le_from_le_4: "length bs = 4 \<Longrightarrow> u32_le (from_le bs) = bs"
  using to_le_from_le [of bs, where 'a = 32] by simp

lemma to_le_from_le_8: "length bs = 8 \<Longrightarrow> u64_le (from_le bs) = bs"
  using to_le_from_le [of bs, where 'a = 64] by simp

lemma read_record_sound:
  assumes "read_record bs = (Ok (RRecord r), rest)"
  shows "bs = raw_record r @ rest" "wf_record r"
proof -
  from assms obtain cb bs1 kb bs2 uk bs3 sb bs4 vb bs5 v kd where
    reads: "read_exact_or_eof 4 bs = (ReadComplete, cb, bs1)"
      "read_exact_or_eof 4 bs1 = (ReadComplete, kb, bs2)"
      "read_exact_or_eof (unat (from_le kb :: u32) - 8) bs2 = (ReadComplete, uk, bs3)"
      "read_exact_or_eof 8 bs3 = (ReadComplete, sb, bs4)"
      "read_exact_or_eof 4 bs4 = (ReadComplete, vb, bs5)"
      "read_exact_or_eof (unat (from_le vb :: u32)) bs5 = (ReadComplete, v, rest)"
    and klen: "\<not> (from_le kb :: u32) < 8"
    and kd: "kind (from_encoded uk (from_le sb)) = Ok kd"
    and r: "r = \<lparr> checksum = from_le cb, key_len = from_le kb,
               rec_key = from_encoded uk (from_le sb), value_len = from_le vb, rec_value = v \<rparr>"
    unfolding read_record_def
    by (auto split: prod.splits if_splits sum.splits simp: Let_def) (metis ReadOutcome.exhaust)+
  note lens = reads [THEN read_exact_length(2)]
  have "8 \<le> unat (from_le kb :: u32)" using klen by (simp add: word_less_nat_alt)
  then show "wf_record r"
    using lens kd by (auto simp: wf_record_def r serialized_size_def from_encoded_def)
  show "bs = raw_record r @ rest"
    using lens by (simp add: raw_record_def r from_encoded_def to_le_from_le_4 to_le_from_le_8)
qed

lemma read_exact_append [simp]:
  "length xs = n \<Longrightarrow> read_exact_or_eof n (xs @ ys) = (ReadComplete, xs, ys)"
  by (auto simp: read_exact_or_eof_def)

lemma read_exact_short:
  "length bs < n \<Longrightarrow>
   read_exact_or_eof n bs = (if bs = [] then ReadEof else ReadPartial, bs, [])"
  by (auto simp: read_exact_or_eof_def)

lemma wf_record_key_len: "wf_record r \<Longrightarrow> \<not> key_len r < 8"
  by (simp add: wf_record_def serialized_size_def word_less_nat_alt)

lemma from_encoded_self [simp]:
  "from_encoded (user_key k) (encoded_sequence_number k) = (k :: InternalKey)"
  by (simp add: from_encoded_def)

lemma read_record_complete:
  assumes "wf_record r"
  shows "read_record (raw_record r @ rest) = (Ok (RRecord r), rest)"
proof -
  obtain kd where kd: "kind (rec_key r) = Ok kd"
    using assms by (auto simp: wf_record_def is_ok_iff)
  have uk: "length (user_key (rec_key r)) = unat (key_len r) - 8"
    and v: "length (rec_value r) = unat (value_len r)"
    using assms by (simp_all add: wf_record_def serialized_size_def)
  show ?thesis
    using wf_record_key_len [OF assms] kd uk v
    by (simp add: read_record_def raw_record_def Let_def)
qed

lemma length_raw_record: "wf_record r \<Longrightarrow> length (raw_record r) = total_len r"
  by (simp add: raw_record_def total_len_def wf_record_def serialized_size_def)

text \<open>A record cut short anywhere is reported as end of file or as a partial record.\<close>

lemma read_record_torn:
  assumes "wf_record r" "n < length (raw_record r)"
  shows "\<exists>out. read_record (take n (raw_record r)) = (Ok out, []) \<and>
           (out = REof \<and> n = 0 \<or> (\<exists>st. out = RPartial st \<and> 0 < n))"
proof -
  obtain kd where kd: "kind (rec_key r) = Ok kd"
    using assms by (auto simp: wf_record_def is_ok_iff)
  define uk where "uk = length (user_key (rec_key r))"
  have len: "unat (key_len r) = uk + 8" "unat (value_len r) = length (rec_value r)"
    using assms(1) by (simp_all add: wf_record_def serialized_size_def uk_def)
  note rd = read_record_def raw_record_def Let_def wf_record_key_len [OF assms(1)]
  consider "n < 4" | "4 \<le> n" "n < 8" | "8 \<le> n" "n < 8 + uk" | "8 + uk \<le> n" "n < 16 + uk"
    | "16 + uk \<le> n" "n < 20 + uk" | "20 + uk \<le> n" "n < 20 + uk + length (rec_value r)"
    using assms(2) by (fastforce simp: raw_record_def uk_def)
  then show ?thesis
    by cases (use len kd in \<open>auto simp: rd uk_def [symmetric] read_exact_short\<close>)
qed

text \<open>What the encoder writes is the layout of a well-formed record with a matching checksum.\<close>

definition encodable :: "InternalKey \<times> bytes \<Rightarrow> bool" where
  "encodable e \<longleftrightarrow> serialized_size (fst e) < 2 ^ 32 \<and> length (snd e) < 2 ^ 32 \<and> is_ok (kind (fst e))"

definition record_of :: "(bytes \<Rightarrow> u32) \<Rightarrow> InternalKey \<times> bytes \<Rightarrow> WalRecord" where
  "record_of crc e = (case e of (k, v) \<Rightarrow>
     \<lparr> checksum = checksum_for crc k (of_nat (serialized_size k)) v (of_nat (length v)),
       key_len = of_nat (serialized_size k), rec_key = k,
       value_len = of_nat (length v), rec_value = v \<rparr>)"

lemma encode_record_into_raw:
  "encode_record_into crc buf k v = buf @ raw_record (record_of crc (k, v))"
  by (simp add: encode_record_into_def raw_record_def record_of_def Let_def)

lemma record_of_wf: "encodable e \<Longrightarrow> wf_record (record_of crc e)"
  by (cases e) (simp add: encodable_def wf_record_def record_of_def unat_of_nat_small)

lemma record_of_checksum [simp]: "checksum_matches crc (record_of crc e)"
  by (cases e) (simp add: checksum_matches_def record_of_def)

lemma record_of_sel [simp]:
  "rec_key (record_of crc e) = fst e" "rec_value (record_of crc e) = snd e"
  by (cases e; simp add: record_of_def)+

lemma encode_record_size:
  "length (encode_record crc k v) = record_size k v"
  by (simp add: encode_record_def encode_record_into_def record_size_def serialized_size_def Let_def)

text \<open>\<open>WalReader::next\<close>: skip batch markers, stop at the end of the file.\<close>

lemma read_record_shorter:
  "read_record bs = (Ok (RRecord r), rest) \<Longrightarrow> length rest < length bs"
  using read_record_sound(1) [of bs r rest] by (simp add: raw_record_def)

function wal_reader_next ::
  "(bytes \<Rightarrow> u32) \<Rightarrow> bytes \<Rightarrow> (InternalKey \<times> bytes) result option \<times> bytes" where
  "wal_reader_next crc bs =
     (case read_record bs of
        (Inl e, rest) \<Rightarrow> (Some (Err e), rest)
      | (Inr REof, rest) \<Rightarrow> (None, rest)
      | (Inr (RPartial ChecksumStage), rest) \<Rightarrow> (None, rest)
      | (Inr (RPartial BodyStage), rest) \<Rightarrow> (Some (Err (error_from_wal WalUnexpectedEof)), rest)
      | (Inr RInvalidKeyLen, rest) \<Rightarrow> (Some (Err (error_from_wal WalInvalidKeyLen)), rest)
      | (Inr (RRecord r), rest) \<Rightarrow>
          if \<not> checksum_matches crc r
          then (Some (Err (error_from_wal (ChecksumMismatch (user_key (rec_key r))))), rest)
          else if kind (rec_key r) = Ok TxnBatchBegin then wal_reader_next crc rest
          else (Some (Ok (into_parts r)), rest))"
  by pat_completeness auto
termination
  by (relation "measure (\<lambda>(_, bs). length bs)") (auto dest!: read_record_shorter [OF sym])

declare wal_reader_next.simps [simp del]

end
