(* ===== verification/Block_Builder.thy ===== *)
theory Block_Builder
  imports Coding
begin

text \<open>
  \<open>storage/sstable/block_builder.rs\<close>: entries with prefix-compressed keys, and every
  sixteen entries the buffer length as a restart point.  Lengths are narrowed to
  \<open>u32\<close> as in the code; the theorems bound the block size.
\<close>

record BlockBuilder =
  buffer :: bytes
  restarts_buf :: bytes
  counter :: nat
  last_key :: bytes

definition MAX_BLOCK_SIZE :: nat where "MAX_BLOCK_SIZE = 4 * 1024"

definition new_BlockBuilder :: BlockBuilder where
  "new_BlockBuilder = \<lparr> buffer = [], restarts_buf = [], counter = 0, last_key = [] \<rparr>"

fun compute_shared :: "bytes \<Rightarrow> bytes \<Rightarrow> nat" where
  "compute_shared (x # xs) (y # ys) = (if x = y then Suc (compute_shared xs ys) else 0)"
| "compute_shared _ _ = 0"

function varint_len :: "u64 \<Rightarrow> nat" where
  "varint_len v = (if 0x80 \<le> v then Suc (varint_len (drop_bit 7 v)) else 1)"
  by auto
termination
  by (relation "measure unat") (auto simp: unat_drop_bit word_le_nat_alt)

declare varint_len.simps [simp del]

definition bb_add :: "bytes \<Rightarrow> bytes \<Rightarrow> BlockBuilder \<Rightarrow> BlockBuilder" where
  "bb_add key v b =
     (let shared = (if counter b = 0 then 0 else of_nat (compute_shared (last_key b) key)) :: u32;
          unshared = of_nat (length key) - shared;
          buf = put_varint64 (buffer b) (ucast shared);
          buf = put_varint64 buf (ucast unshared);
          buf = put_varint64 buf (of_nat (length v));
          buf = buf @ drop (unat shared) key @ v;
          counter' = counter b + 1
      in (if counter' = 16
          then b \<lparr> buffer := buf, counter := 0, last_key := key,
                   restarts_buf := restarts_buf b @ u32_le (of_nat (length buf)) \<rparr>
          else b \<lparr> buffer := buf, counter := counter', last_key := key \<rparr>))"

text \<open>The number of bytes \<open>add\<close> reserves before it writes the entry.\<close>

definition entry_reserve :: "u32 \<Rightarrow> u32 \<Rightarrow> bytes \<Rightarrow> nat" where
  "entry_reserve shared unshared v =
     varint_len (ucast shared) + varint_len (ucast unshared) + varint_len (of_nat (length v)) +
     unat unshared + length v"

definition bb_finish :: "BlockBuilder \<Rightarrow> (bytes \<times> bytes) \<times> BlockBuilder" where
  "bb_finish b =
     (let buf = buffer b @ restarts_buf b @ u32_le (of_nat (length (restarts_buf b) div 4))
      in ((buf, last_key b), b \<lparr> buffer := buf \<rparr>))"

definition bb_len :: "BlockBuilder \<Rightarrow> nat" where "bb_len b = length (buffer b)"

definition bb_is_empty :: "BlockBuilder \<Rightarrow> bool" where "bb_is_empty b \<longleftrightarrow> buffer b = []"

definition bb_should_finish :: "BlockBuilder \<Rightarrow> bool" where
  "bb_should_finish b \<longleftrightarrow> MAX_BLOCK_SIZE \<le> bb_len b"

definition bb_reset :: "BlockBuilder \<Rightarrow> BlockBuilder" where
  "bb_reset b = b \<lparr> buffer := [], restarts_buf := [], counter := 0, last_key := [] \<rparr>"

definition bb_empty :: "BlockBuilder \<Rightarrow> bool" where "bb_empty b \<longleftrightarrow> counter b = 0"

definition bb_of :: "(bytes \<times> bytes) list \<Rightarrow> BlockBuilder" where
  "bb_of kvs = fold (\<lambda>(k, v). bb_add k v) kvs new_BlockBuilder"

section \<open>Layout of a block\<close>

text \<open>What the entry at index \<open>i\<close> shares with its predecessor, its bytes and its offset.\<close>

definition blk_shared :: "(bytes \<times> bytes) list \<Rightarrow> nat \<Rightarrow> nat" where
  "blk_shared kvs i = (if i mod 16 = 0 then 0 else compute_shared (fst (kvs ! (i - 1))) (fst (kvs ! i)))"

definition entry_bytes :: "nat \<Rightarrow> bytes \<Rightarrow> bytes \<Rightarrow> bytes" where
  "entry_bytes shared key v =
     encode_varint64 (of_nat shared) @ encode_varint64 (of_nat (length key - shared)) @
     encode_varint64 (of_nat (length v)) @ drop shared key @ v"

definition blk_entry :: "(bytes \<times> bytes) list \<Rightarrow> nat \<Rightarrow> bytes" where
  "blk_entry kvs i = entry_bytes (blk_shared kvs i) (fst (kvs ! i)) (snd (kvs ! i))"

definition blk_range :: "(bytes \<times> bytes) list \<Rightarrow> nat \<Rightarrow> nat \<Rightarrow> bytes" where
  "blk_range kvs i j = concat (map (blk_entry kvs) [i..<j])"

definition blk_off :: "(bytes \<times> bytes) list \<Rightarrow> nat \<Rightarrow> nat" where
  "blk_off kvs i = length (blk_range kvs 0 i)"

text \<open>Entries whose lengths survive the narrowing.\<close>

definition kv_small :: "bytes \<times> bytes \<Rightarrow> bool" where
  "kv_small kv \<longleftrightarrow> length (fst kv) < 2 ^ 32 \<and> length (snd kv) < 2 ^ 32"

lemma compute_shared_le: "compute_shared xs ys \<le> length xs" "compute_shared xs ys \<le> length ys"
  by (induction xs ys rule: compute_shared.induct) auto

lemma take_compute_shared: "take (compute_shared xs ys) xs = take (compute_shared xs ys) ys"
  by (induction xs ys rule: compute_shared.induct) auto

lemma shared_rebuild: "take (compute_shared xs ys) xs @ drop (compute_shared xs ys) ys = ys"
  by (metis append_take_drop_id take_compute_shared)

lemma blk_shared_le: "blk_shared kvs i \<le> length (fst (kvs ! i))"
  by (simp add: blk_shared_def compute_shared_le)

lemma varint_len_encode: "varint_len v = length (encode_varint64 v)"
proof (induction v rule: encode_varint64_induct)
  case (small v)
  then have "\<not> 0x80 \<le> v" by simp
  then show ?case using small by (simp add: varint_len.simps [of v] encode_varint64_small)
next
  case (big v)
  then show ?case by (simp add: varint_len.simps [of v] encode_varint64_big linorder_not_less)
qed

text \<open>Narrowing to \<open>u32\<close> and widening again keeps small numbers.\<close>

lemma widen_narrow: "n < 2 ^ 32 \<Longrightarrow> (ucast (of_nat n :: u32) :: u64) = of_nat n"
  by (simp add: unsigned_of_nat take_bit_nat_eq_self)

lemma narrow_diff:
  "m \<le> n \<Longrightarrow> (of_nat n - of_nat m :: u32) = of_nat (n - m)"
  by (simp add: of_nat_diff)

lemma entry_reserve_exact:
  assumes "shared \<le> length key" "kv_small (key, v)"
  shows "entry_reserve (of_nat shared) (of_nat (length key) - of_nat shared) v = length (entry_bytes shared key v)"
  using assms le_less_trans [of "length key - shared" "length key" "2 ^ 32"]
  by (simp add: entry_reserve_def entry_bytes_def kv_small_def narrow_diff widen_narrow varint_len_encode
      unat_of_nat_small del: of_nat_diff)

lemma bb_add_layout:
  assumes "kv_small (key, v)" "shared = (if counter b = 0 then 0 else compute_shared (last_key b) key)"
  shows "buffer (bb_add key v b) = buffer b @ entry_bytes shared key v"
    "counter (bb_add key v b) = (if counter b = 15 then 0 else counter b + 1)"
    "last_key (bb_add key v b) = key"
    "restarts_buf (bb_add key v b) = restarts_buf b @
       (if counter b = 15 then u32_le (of_nat (length (buffer b @ entry_bytes shared key v))) else [])"
proof -
  have le: "shared \<le> length key" using assms(2) by (simp add: compute_shared_le)
  have small: "shared < 2 ^ 32" "length key - shared < 2 ^ 32"
    using le assms(1) by (auto simp: kv_small_def)
  have s: "(if counter b = 0 then 0 else of_nat (compute_shared (last_key b) key)) = (of_nat shared :: u32)"
    using assms(2) by simp
  have buf: "put_varint64 (put_varint64 (put_varint64 (buffer b) (ucast (of_nat shared :: u32)))
      (ucast (of_nat (length key) - of_nat shared :: u32))) (of_nat (length v)) @
      drop (unat (of_nat shared :: u32)) key @ v = buffer b @ entry_bytes shared key v"
    using small le
    by (simp add: put_varint64_append entry_bytes_def widen_narrow narrow_diff unat_of_nat_small
        del: of_nat_diff)
  show "buffer (bb_add key v b) = buffer b @ entry_bytes shared key v"
    "counter (bb_add key v b) = (if counter b = 15 then 0 else counter b + 1)"
    "last_key (bb_add key v b) = key"
    "restarts_buf (bb_add key v b) = restarts_buf b @
       (if counter b = 15 then u32_le (of_nat (length (buffer b @ entry_bytes shared key v))) else [])"
    unfolding bb_add_def s Let_def buf by auto
qed

lemma blk_entry_snoc: "i < length kvs \<Longrightarrow> blk_entry (kvs @ [x]) i = blk_entry kvs i"
  by (auto simp: blk_entry_def blk_shared_def nth_append)

lemma blk_range_snoc: "j \<le> length kvs \<Longrightarrow> blk_range (kvs @ [x]) i j = blk_range kvs i j"
  unfolding blk_range_def by (rule arg_cong [of _ _ concat]) (auto simp: blk_entry_snoc)

lemma blk_off_snoc: "j \<le> length kvs \<Longrightarrow> blk_off (kvs @ [x]) j = blk_off kvs j"
  by (simp add: blk_off_def blk_range_snoc)

lemma blk_range_Suc: "i \<le> j \<Longrightarrow> blk_range kvs i (Suc j) = blk_range kvs i j @ blk_entry kvs j"
  by (simp add: blk_range_def)

lemma blk_range_append: "i \<le> j \<Longrightarrow> j \<le> k \<Longrightarrow> blk_range kvs i k = blk_range kvs i j @ blk_range kvs j k"
  unfolding blk_range_def using upt_add_eq_append [of i j "k - j"] by simp

text \<open>The restart points the builder has written after \<open>n\<close> entries.\<close>

definition blk_restarts :: "(bytes \<times> bytes) list \<Rightarrow> nat \<Rightarrow> nat list" where
  "blk_restarts kvs n = map (\<lambda>j. blk_off kvs (16 * Suc j)) [0..<n div 16]"

definition restart_bytes :: "nat list \<Rightarrow> bytes" where
  "restart_bytes rs = concat (map (\<lambda>r. u32_le (of_nat r)) rs)"

lemma length_restart_bytes [simp]: "length (restart_bytes rs) = 4 * length rs"
  by (induction rs) (auto simp: restart_bytes_def)

lemma blk_restarts_snoc: "blk_restarts (kvs @ [x]) (length kvs) = blk_restarts kvs (length kvs)"
  unfolding blk_restarts_def
proof (rule map_cong [OF refl])
  fix j assume "j \<in> set [0..<length kvs div 16]"
  then have "16 * Suc j \<le> length kvs" by (simp add: less_eq_div_iff_mult_less_eq)
  then show "blk_off (kvs @ [x]) (16 * Suc j) = blk_off kvs (16 * Suc j)" by (rule blk_off_snoc)
qed

lemma bb_of_layout:
  assumes "list_all kv_small kvs"
  shows "buffer (bb_of kvs) = blk_range kvs 0 (length kvs) \<and> counter (bb_of kvs) = length kvs mod 16 \<and>
    last_key (bb_of kvs) = (if kvs = [] then [] else fst (last kvs)) \<and>
    restarts_buf (bb_of kvs) = restart_bytes (blk_restarts kvs (length kvs))"
  using assms
proof (induction kvs rule: rev_induct)
  case Nil
  show ?case
    by (simp add: bb_of_def new_BlockBuilder_def blk_range_def blk_restarts_def restart_bytes_def)
next
  case (snoc x kvs)
  obtain key v where x: "x = (key, v)" by (cases x)
  let ?b = "bb_of kvs" and ?kvs = "kvs @ [x]" and ?n = "length kvs"
  have IH: "buffer ?b = blk_range kvs 0 ?n" "counter ?b = ?n mod 16"
    "last_key ?b = (if kvs = [] then [] else fst (last kvs))"
    "restarts_buf ?b = restart_bytes (blk_restarts kvs ?n)"
    using snoc by simp_all
  have step: "bb_of ?kvs = bb_add key v ?b" by (simp add: bb_of_def x)
  have sh: "blk_shared ?kvs ?n = (if counter ?b = 0 then 0 else compute_shared (last_key ?b) key)"
    using IH(2,3) by (cases kvs rule: rev_cases) (auto simp: blk_shared_def x nth_append)
  have small: "kv_small (key, v)" using snoc.prems by (simp add: x)
  have buf: "buffer ?b @ entry_bytes (blk_shared ?kvs ?n) key v = blk_range ?kvs 0 (Suc ?n)"
    by (simp add: IH(1) blk_range_Suc blk_range_snoc blk_entry_def x)
  have "restart_bytes (blk_restarts kvs ?n) @
      (if ?n mod 16 = 15 then u32_le (of_nat (length (blk_range ?kvs 0 (Suc ?n)))) else []) =
      restart_bytes (blk_restarts ?kvs (Suc ?n))"
  proof (cases "?n mod 16 = 15")
    case True
    then have "Suc ?n div 16 = Suc (?n div 16)" "16 * Suc (?n div 16) = Suc ?n" by (simp_all add: div_Suc mod_Suc) presburger
    then have "blk_restarts ?kvs (Suc ?n) = blk_restarts ?kvs ?n @ [blk_off ?kvs (Suc ?n)]"
      unfolding blk_restarts_def by (simp del: mult_Suc_right)
    then show ?thesis using True by (simp add: blk_restarts_snoc restart_bytes_def blk_off_def)
  next
    case False
    then have "Suc ?n div 16 = ?n div 16" by (simp add: div_Suc mod_Suc)
    then have "blk_restarts ?kvs (Suc ?n) = blk_restarts ?kvs ?n" by (simp add: blk_restarts_def)
    then show ?thesis using False by (simp add: blk_restarts_snoc)
  qed
  then show ?case
    unfolding step bb_add_layout [OF small sh] buf
    by (simp add: IH(2,4) x mod_Suc)
qed

definition block_bytes :: "(bytes \<times> bytes) list \<Rightarrow> bytes" where
  "block_bytes kvs = fst (fst (bb_finish (bb_of kvs)))"

lemma block_bytes_layout:
  "list_all kv_small kvs \<Longrightarrow> block_bytes kvs = blk_range kvs 0 (length kvs) @
     restart_bytes (blk_restarts kvs (length kvs)) @ u32_le (of_nat (length kvs div 16))"
  using bb_of_layout [of kvs] by (simp add: block_bytes_def bb_finish_def Let_def blk_restarts_def)

end
