(* ===== verification/Block_Reader.thy ===== *)
theory Block_Reader
  imports Block_Builder Mvcc
begin

text \<open>
  \<open>storage/sstable/block_reader.rs\<close>: decoding of a block, its search index (restart
  points, their keys, a hash index of the newest version of every user key), the
  point lookups and the iterator.  Positions are natural numbers; the one addition that can
  leave \<open>usize\<close> on corrupt lengths panics.  Where the code drops an error with
  \<open>.ok()?\<close> or a \<open>break\<close>, a panic still unwinds: the loops return \<open>Err (Panic _)\<close>.
\<close>

section \<open>Data\<close>

record DecodedEntryView =
  dv_shared :: nat
  dv_unshared_key :: bytes
  dv_value :: bytes
  dv_value_offset :: nat
  dv_total_len :: nat

type_synonym value_range = "InternalKey \<times> nat \<times> nat"

record BlockSearchIndex =
  restarts :: "nat list"
  restart_keys :: "bytes list"
  user_key_hash_index :: "(bytes \<times> value_range) list"
  data_end :: nat

record BlockReader = BlockSearchIndex +
  br_data :: bytes

section \<open>Decoding one entry\<close>

definition decode_varint_at :: "BlockReader \<Rightarrow> nat \<Rightarrow> (u64 \<times> nat) result" where
  "decode_varint_at r pos =
     (if data_end r \<le> pos then Err (Corruption ''block_reader'' ''position out of bounds'')
      else decode_varint64_with_length (subslice (br_data r) pos (data_end r)))"

definition decode_entry_view_at :: "BlockReader \<Rightarrow> nat \<Rightarrow> DecodedEntryView result" where
  "decode_entry_view_at r pos =
     (if data_end r \<le> pos then Err (Corruption ''block_reader'' ''position out of bounds'')
      else
        and_then (decode_varint_at r pos) (\<lambda>(shared, n1).
        and_then (decode_varint_at r (pos + n1)) (\<lambda>(unshared, n2).
        and_then (decode_varint_at r (pos + n1 + n2)) (\<lambda>(value_len, n3).
          let offset = pos + n1 + n2 + n3;
              value_offset = offset + unat unshared;
              stop = value_offset + unat value_len
          in if 2 ^ 64 \<le> stop then Err (Panic ''attempt to add with overflow'')
             else if data_end r < stop
             then Err (Corruption ''block_reader'' ''entry exceeds block boundary'')
             else Ok \<lparr> dv_shared = unat (ucast shared :: u32),
                       dv_unshared_key = subslice (br_data r) offset value_offset,
                       dv_value = subslice (br_data r) value_offset stop,
                       dv_value_offset = value_offset,
                       dv_total_len = stop - pos \<rparr>))))"

text \<open>\<open>.ok()\<close>: an error becomes \<open>None\<close>, a panic stays one.\<close>

definition res_ok :: "'a result \<Rightarrow> 'a option result" where
  "res_ok x = (case x of Inr y \<Rightarrow> Ok (Some y) | Inl (Panic m) \<Rightarrow> Err (Panic m) | Inl _ \<Rightarrow> Ok None)"

definition entry_at :: "BlockReader \<Rightarrow> nat \<Rightarrow> DecodedEntryView option result" where
  "entry_at r pos = res_ok (decode_entry_view_at r pos)"

text \<open>\<open>entry_size_at\<close> of an entry that decoded is its \<open>total_len\<close>.\<close>

definition user_key_of_internal_key :: "bytes \<Rightarrow> bytes option" where
  "user_key_of_internal_key raw = (if length raw < 8 then None else Some (take (length raw - 8) raw))"

definition decode_internal_key_slice :: "bytes \<Rightarrow> InternalKey option" where
  "decode_internal_key_slice raw =
     (if length raw < 8 then None
      else let n = length raw; encoded = NOT (from_be (drop (n - 8) raw) :: u64)
           in Some (from_encoded (take (n - 8) raw) encoded))"

definition sequence_of_internal_key :: "bytes \<Rightarrow> u64 option" where
  "sequence_of_internal_key raw =
     (if length raw < 8 then None
      else Some (drop_bit 8 (NOT (from_be (drop (length raw - 8) raw) :: u64))))"

text \<open>
  The key of an entry, rebuilt from the key before it; \<open>None\<close> when the shared length
  cannot be right.
\<close>

definition rebuild_key :: "bytes \<Rightarrow> DecodedEntryView \<Rightarrow> bytes option" where
  "rebuild_key prev_key e =
     (if prev_key = [] then if dv_shared e \<noteq> 0 then None else Some (dv_unshared_key e)
      else if length prev_key < dv_shared e then None
      else Some (take (dv_shared e) prev_key @ dv_unshared_key e))"

definition is_padding :: "DecodedEntryView \<Rightarrow> bool" where
  "is_padding e \<longleftrightarrow> dv_unshared_key e = [] \<and> dv_value e = []"

lemma decode_entry_view_at_progress:
  "decode_entry_view_at r pos = Ok e \<Longrightarrow> 0 < dv_total_len e"
proof -
  assume *: "decode_entry_view_at r pos = Ok e"
  obtain s n1 where v: "decode_varint_at r pos = Ok (s, n1)"
    using * by (auto simp: decode_entry_view_at_def and_then_eq_Ok split: if_splits)
  have "0 < n1"
    using v decode_loop_consumed by (auto simp: decode_varint_at_def decode_varint64_with_length_def split: if_splits)
  then show ?thesis
    using * v by (auto simp: decode_entry_view_at_def and_then_eq_Ok Let_def split: if_splits prod.splits)
qed

lemma entry_at_progress [termination_simp]: "entry_at r pos = Ok (Some e) \<Longrightarrow> 0 < dv_total_len e"
  by (auto simp: entry_at_def res_ok_def split: sum.splits Error.splits intro: decode_entry_view_at_progress)

section \<open>Scans by user key\<close>

function linear_search_range_by_user_key_entry ::
  "BlockReader \<Rightarrow> nat \<Rightarrow> bytes \<Rightarrow> nat \<Rightarrow> bytes \<Rightarrow> value_range option result" where
  "linear_search_range_by_user_key_entry r end_pos uk current_pos prev_key =
     (if \<not> current_pos < end_pos then Ok None
      else case entry_at r current_pos of
        Inl e \<Rightarrow> Inl e
      | Inr None \<Rightarrow> Ok None
      | Inr (Some e) \<Rightarrow>
          if is_padding e then Ok None
          else (case rebuild_key prev_key e of
              None \<Rightarrow> Ok None
            | Some key \<Rightarrow>
                (case user_key_of_internal_key key of
                   None \<Rightarrow> linear_search_range_by_user_key_entry r end_pos uk
                            (current_pos + dv_total_len e) key
                 | Some full_user_key \<Rightarrow>
                     (case cmp full_user_key uk of
                        Less \<Rightarrow> linear_search_range_by_user_key_entry r end_pos uk
                                  (current_pos + dv_total_len e) key
                      | Equal \<Rightarrow> Ok (map_option (\<lambda>ik. (ik, dv_value_offset e, length (dv_value e)))
                                  (decode_internal_key_slice key))
                      | Greater \<Rightarrow> Ok None))))"
  by pat_completeness auto
termination
  by (relation "measure (\<lambda>(_, end_pos, _, pos, _). end_pos - pos)")
    (auto dest!: entry_at_progress)

declare linear_search_range_by_user_key_entry.simps [simp del]

function linear_search_range_by_user_key_entry_at_seq ::
  "BlockReader \<Rightarrow> nat \<Rightarrow> bytes \<Rightarrow> u64 \<Rightarrow> nat \<Rightarrow> bytes \<Rightarrow> value_range option result" where
  "linear_search_range_by_user_key_entry_at_seq r end_pos uk read_seq current_pos prev_key =
     (if \<not> current_pos < end_pos then Ok None
      else case entry_at r current_pos of
        Inl e \<Rightarrow> Inl e
      | Inr None \<Rightarrow> Ok None
      | Inr (Some e) \<Rightarrow>
          if is_padding e then Ok None
          else (case rebuild_key prev_key e of
              None \<Rightarrow> Ok None
            | Some key \<Rightarrow>
                (case user_key_of_internal_key key of
                   None \<Rightarrow> linear_search_range_by_user_key_entry_at_seq r end_pos uk read_seq
                            (current_pos + dv_total_len e) key
                 | Some full_user_key \<Rightarrow>
                     (case cmp full_user_key uk of
                        Less \<Rightarrow> linear_search_range_by_user_key_entry_at_seq r end_pos uk read_seq
                                  (current_pos + dv_total_len e) key
                      | Equal \<Rightarrow>
                          (case sequence_of_internal_key key of
                             None \<Rightarrow> linear_search_range_by_user_key_entry_at_seq r end_pos uk read_seq
                                      (current_pos + dv_total_len e) key
                           | Some s \<Rightarrow>
                               if s \<le> read_seq
                               then Ok (map_option (\<lambda>ik. (ik, dv_value_offset e, length (dv_value e)))
                                      (decode_internal_key_slice key))
                               else linear_search_range_by_user_key_entry_at_seq r end_pos uk read_seq
                                      (current_pos + dv_total_len e) key)
                      | Greater \<Rightarrow> Ok None))))"
  by pat_completeness auto
termination
  by (relation "measure (\<lambda>(_, end_pos, _, _, pos, _). end_pos - pos)")
    (auto dest!: entry_at_progress)

declare linear_search_range_by_user_key_entry_at_seq.simps [simp del]

section \<open>The search index\<close>

definition collect_restart_key :: "BlockReader \<Rightarrow> nat \<Rightarrow> bytes result" where
  "collect_restart_key r pos =
     (if data_end r \<le> pos then Ok []
      else and_then (entry_at r pos) (\<lambda>e.
        Ok (case e of Some e \<Rightarrow> if dv_shared e = 0 then dv_unshared_key e else [] | None \<Rightarrow> [])))"

fun collect_restart_keys :: "BlockReader \<Rightarrow> nat list \<Rightarrow> bytes list result" where
  "collect_restart_keys r [] = Ok []"
| "collect_restart_keys r (pos # ps) =
     and_then (collect_restart_key r pos) (\<lambda>k.
     and_then (collect_restart_keys r ps) (\<lambda>ks. Ok (k # ks)))"

text \<open>\<open>as u32\<close> on an offset.\<close>

definition narrow32 :: "nat \<Rightarrow> nat" where "narrow32 n = unat (of_nat n :: u32)"

definition hash_insert :: "bytes \<Rightarrow> DecodedEntryView \<Rightarrow> (bytes \<times> value_range) list \<Rightarrow> (bytes \<times> value_range) list" where
  "hash_insert key e index =
     (case user_key_of_internal_key key of
        None \<Rightarrow> index
      | Some uk \<Rightarrow>
          if map_of index uk \<noteq> None then index
          else (case decode_internal_key_slice key of
              None \<Rightarrow> index
            | Some ik \<Rightarrow> (uk, ik, narrow32 (dv_value_offset e), narrow32 (length (dv_value e))) # index))"

function collect_user_key_hash_index ::
  "BlockReader \<Rightarrow> nat \<Rightarrow> bytes \<Rightarrow> (bytes \<times> value_range) list \<Rightarrow> (bytes \<times> value_range) list result" where
  "collect_user_key_hash_index r current_pos prev_key index =
     (if \<not> current_pos < data_end r then Ok index
      else case entry_at r current_pos of
        Inl e \<Rightarrow> Inl e
      | Inr None \<Rightarrow> Ok index
      | Inr (Some e) \<Rightarrow>
          if is_padding e then Ok index
          else (case rebuild_key prev_key e of
              None \<Rightarrow> Ok index
            | Some key \<Rightarrow> collect_user_key_hash_index r (current_pos + dv_total_len e) key
                (hash_insert key e index)))"
  by pat_completeness auto
termination
  by (relation "measure (\<lambda>(r, pos, _, _). data_end r - pos)") (auto dest!: entry_at_progress)

declare collect_user_key_hash_index.simps [simp del]

text \<open>The restart array of a block, without the virtual restart at 0.\<close>

definition parse_restarts :: "bytes \<Rightarrow> nat \<Rightarrow> nat list" where
  "parse_restarts arr n = map (\<lambda>i. unat (from_le (subslice arr (i * 4) (i * 4 + 4)) :: u32)) [0..<n]"

definition parse_search_index :: "bytes \<Rightarrow> BlockSearchIndex result" where
  "parse_search_index data =
     (if length data < 4
      then Err (Corruption ''block_reader'' ''block too small to contain restart count'')
      else
        let restart_count = unat (from_le (drop (length data - 4) data) :: u32);
            restart_array_size = restart_count * 4
        in if restart_count = 0 then
             let stop = length data - 4;
                 reader = \<lparr> restarts = [], restart_keys = [], user_key_hash_index = [], data_end = stop,
                   br_data = data \<rparr>
             in and_then (collect_user_key_hash_index reader 0 [] []) (\<lambda>index.
                Ok \<lparr> restarts = [], restart_keys = [], user_key_hash_index = index, data_end = stop \<rparr>)
           else if length data < 4 + restart_array_size
           then Err (Corruption ''block_reader'' ''block too small for restart array'')
           else
             let restart_start = length data - 4 - restart_array_size;
                 rs = parse_restarts (subslice data restart_start (length data - 4)) restart_count;
                 rs = (if rs \<noteq> [] \<and> hd rs = 0 then rs else 0 # rs);
                 reader = \<lparr> restarts = rs, restart_keys = [], user_key_hash_index = [],
                   data_end = restart_start, br_data = data \<rparr>
             in and_then (collect_restart_keys reader rs) (\<lambda>keys.
                and_then (collect_user_key_hash_index reader 0 [] []) (\<lambda>index.
                Ok \<lparr> restarts = rs, restart_keys = keys, user_key_hash_index = index,
                     data_end = restart_start \<rparr>)))"

definition with_search_index :: "bytes \<Rightarrow> BlockSearchIndex \<Rightarrow> BlockReader result" where
  "with_search_index data si =
     (if length data < 4
      then Err (Corruption ''block_reader'' ''block too small to contain restart count'')
      else if length data < data_end si
      then Err (Corruption ''block_reader'' ''search index data_end out of range'')
      else if length (restart_keys si) \<noteq> length (restarts si)
      then Err (Corruption ''block_reader'' ''search index restart key count mismatch'')
      else Ok \<lparr> restarts = restarts si, restart_keys = restart_keys si,
                user_key_hash_index = user_key_hash_index si, data_end = data_end si, br_data = data \<rparr>)"

definition new_BlockReader :: "bytes \<Rightarrow> BlockReader result" where
  "new_BlockReader data = and_then (parse_search_index data) (with_search_index data)"

definition entry_count :: "BlockReader \<Rightarrow> nat" where
  "entry_count r = length (restarts r) * 16"

section \<open>Point lookups by user key\<close>

definition restart_user_key_cmp :: "BlockReader \<Rightarrow> nat \<Rightarrow> bytes \<Rightarrow> Ordering option" where
  "restart_user_key_cmp r i uk =
     (if i < length (restart_keys r)
      then map_option (\<lambda>k. cmp k uk) (user_key_of_internal_key (restart_keys r ! i))
      else None)"

text \<open>The lower-bound loop; \<open>None\<close> when a restart key cannot be compared.\<close>

function restart_lower_bound :: "BlockReader \<Rightarrow> bytes \<Rightarrow> nat \<Rightarrow> nat \<Rightarrow> nat option" where
  "restart_lower_bound r uk left right =
     (if left < right then
        let mid = left + (right - left) div 2
        in (case restart_user_key_cmp r mid uk of
              None \<Rightarrow> None
            | Some Less \<Rightarrow> restart_lower_bound r uk (mid + 1) right
            | Some _ \<Rightarrow> restart_lower_bound r uk left mid)
      else Some left)"
  by pat_completeness auto
termination
  by (relation "measure (\<lambda>(_, _, left, right). right - left)") (auto simp: Let_def)

declare restart_lower_bound.simps [simp del]

definition restart_end :: "BlockReader \<Rightarrow> nat \<Rightarrow> nat" where
  "restart_end r i = (if i + 1 < length (restarts r) then restarts r ! (i + 1) else data_end r)"

definition linear_search_from_restart_by_user_key_entry :: "BlockReader \<Rightarrow> nat \<Rightarrow> bytes \<Rightarrow> value_range option result" where
  "linear_search_from_restart_by_user_key_entry r i uk =
     linear_search_range_by_user_key_entry r (restart_end r i) uk (restarts r ! i) []"

definition linear_search_full_by_user_key_entry :: "BlockReader \<Rightarrow> bytes \<Rightarrow> value_range option result" where
  "linear_search_full_by_user_key_entry r uk = linear_search_range_by_user_key_entry r (data_end r) uk 0 []"

definition linear_search_from_restart_by_user_key_entry_at_seq ::
  "BlockReader \<Rightarrow> nat \<Rightarrow> bytes \<Rightarrow> u64 \<Rightarrow> value_range option result" where
  "linear_search_from_restart_by_user_key_entry_at_seq r i uk s =
     linear_search_range_by_user_key_entry_at_seq r (restart_end r i) uk s (restarts r ! i) []"

definition linear_search_full_by_user_key_entry_at_seq :: "BlockReader \<Rightarrow> bytes \<Rightarrow> u64 \<Rightarrow> value_range option result" where
  "linear_search_full_by_user_key_entry_at_seq r uk s =
     linear_search_range_by_user_key_entry_at_seq r (data_end r) uk s 0 []"

text \<open>
  The restart search that \<open>get_by_user_key_entry\<close> and its \<open>at_seq\<close> variant both
  contain, over the scans of the variant: \<open>full\<close> scans the block, \<open>scan_upto i\<close> from the
  start to restart \<open>i\<close>, \<open>scan_from i\<close> the interval of restart \<open>i\<close>.
\<close>

definition restart_search ::
  "BlockReader \<Rightarrow> bytes \<Rightarrow> 'a option result \<Rightarrow> (nat \<Rightarrow> 'a option result) \<Rightarrow> (nat \<Rightarrow> 'a option result) \<Rightarrow>
   'a option result" where
  "restart_search r uk full scan_upto scan_from =
     (let prefix_probe = min (length (restarts r) - 1) 8;
          probe = (if 0 < prefix_probe then restart_user_key_cmp r prefix_probe uk else Some Less)
      in case probe of
           None \<Rightarrow> full
         | Some Greater \<Rightarrow> scan_upto prefix_probe
         | Some _ \<Rightarrow>
             (case restart_lower_bound r uk 0 (length (restarts r)) of
                None \<Rightarrow> full
              | Some left \<Rightarrow>
                  if length (restarts r) \<le> left then scan_from (length (restarts r) - 1)
                  else (case restart_user_key_cmp r left uk of
                      None \<Rightarrow> full
                    | Some Greater \<Rightarrow> scan_from (left - 1)
                    | Some Equal \<Rightarrow>
                        if 0 < left then
                          and_then (scan_from (left - 1)) (\<lambda>found.
                            case found of Some x \<Rightarrow> Ok (Some x) | None \<Rightarrow> scan_from left)
                        else scan_from left
                    | Some Less \<Rightarrow> scan_from left)))"

definition get_by_user_key_entry :: "BlockReader \<Rightarrow> bytes \<Rightarrow> value_range option result" where
  "get_by_user_key_entry r uk =
     (case map_of (user_key_hash_index r) uk of
        Some e \<Rightarrow> Ok (Some e)
      | None \<Rightarrow>
          if restarts r = [] then linear_search_full_by_user_key_entry r uk
          else if length (restart_keys r) \<noteq> length (restarts r) then linear_search_full_by_user_key_entry r uk
          else restart_search r uk (linear_search_full_by_user_key_entry r uk)
            (\<lambda>i. linear_search_range_by_user_key_entry r (restarts r ! i) uk 0 [])
            (\<lambda>i. linear_search_from_restart_by_user_key_entry r i uk))"

definition get_by_user_key_with_value_range_at_seq :: "BlockReader \<Rightarrow> bytes \<Rightarrow> u64 \<Rightarrow> value_range option result" where
  "get_by_user_key_with_value_range_at_seq r uk read_seq =
     and_then (get_by_user_key_entry r uk) (\<lambda>newest.
       if (case newest of Some (ik, _, _) \<Rightarrow> sequence_number ik \<le> read_seq | None \<Rightarrow> False) then Ok newest
       else if restarts r = [] then linear_search_full_by_user_key_entry_at_seq r uk read_seq
       else if length (restart_keys r) \<noteq> length (restarts r)
       then linear_search_full_by_user_key_entry_at_seq r uk read_seq
       else restart_search r uk (linear_search_full_by_user_key_entry_at_seq r uk read_seq)
         (\<lambda>i. linear_search_range_by_user_key_entry_at_seq r (restarts r ! i) uk read_seq 0 [])
         (\<lambda>i. linear_search_from_restart_by_user_key_entry_at_seq r i uk read_seq))"

definition value_slice_to_vec :: "BlockReader \<Rightarrow> nat \<Rightarrow> nat \<Rightarrow> bytes option" where
  "value_slice_to_vec r off len =
     (if off + len \<le> length (br_data r) then Some (subslice (br_data r) off (off + len)) else None)"

definition get_by_user_key :: "BlockReader \<Rightarrow> bytes \<Rightarrow> entry option result" where
  "get_by_user_key r uk =
     and_then (get_by_user_key_entry r uk) (\<lambda>found. Ok (Option.bind found (\<lambda>(ik, off, len).
       map_option (\<lambda>v. (ik, v)) (value_slice_to_vec r off len))))"

section \<open>Iteration\<close>

text \<open>Everything a \<open>BlockIterator\<close> yields.  It accepts a wrong shared length by ignoring it.\<close>

definition iter_key :: "bytes \<Rightarrow> DecodedEntryView \<Rightarrow> bytes" where
  "iter_key prev_key e =
     (if prev_key = [] then dv_unshared_key e
      else (if dv_shared e \<le> length prev_key then take (dv_shared e) prev_key else []) @ dv_unshared_key e)"

function block_iter_from :: "BlockReader \<Rightarrow> nat \<Rightarrow> bytes \<Rightarrow> (bytes \<times> bytes) list result" where
  "block_iter_from r current_pos prev_key =
     (if data_end r \<le> current_pos then Ok []
      else case entry_at r current_pos of
        Inl e \<Rightarrow> Inl e
      | Inr None \<Rightarrow> Ok []
      | Inr (Some e) \<Rightarrow>
          if is_padding e then Ok []
          else and_then (block_iter_from r (current_pos + dv_total_len e) (iter_key prev_key e)) (\<lambda>rest.
            Ok ((iter_key prev_key e, dv_value e) # rest)))"
  by pat_completeness auto
termination
  by (relation "measure (\<lambda>(r, pos, _). data_end r - pos)") (auto dest!: entry_at_progress)

declare block_iter_from.simps [simp del]

definition block_iter :: "BlockReader \<Rightarrow> (bytes \<times> bytes) list result" where
  "block_iter r = block_iter_from r 0 []"

section \<open>Lookup of an encoded key\<close>

text \<open>The loop of \<open>linear_search_from_restart\<close>; \<open>stop_at_padding\<close> for \<open>linear_search_from_start\<close>.\<close>

function linear_search_key ::
  "bool \<Rightarrow> BlockReader \<Rightarrow> nat \<Rightarrow> bytes \<Rightarrow> nat \<Rightarrow> bytes \<Rightarrow> bytes option result" where
  "linear_search_key stop_at_padding r end_pos key current_pos prev_key =
     (if \<not> current_pos < end_pos then Ok None
      else case entry_at r current_pos of
        Inl e \<Rightarrow> Inl e
      | Inr None \<Rightarrow> Ok None
      | Inr (Some e) \<Rightarrow>
          if stop_at_padding \<and> is_padding e then Ok None
          else (case rebuild_key prev_key e of
              None \<Rightarrow> Ok None
            | Some full_key \<Rightarrow>
                (case cmp full_key key of
                   Less \<Rightarrow> linear_search_key stop_at_padding r end_pos key
                            (current_pos + dv_total_len e) full_key
                 | Equal \<Rightarrow> Ok (Some (dv_value e))
                 | Greater \<Rightarrow> Ok None)))"
  by pat_completeness auto
termination
  by (relation "measure (\<lambda>(_, _, end_pos, _, pos, _). end_pos - pos)") (auto dest!: entry_at_progress)

declare linear_search_key.simps [simp del]

definition linear_search_from_restart :: "BlockReader \<Rightarrow> nat \<Rightarrow> bytes \<Rightarrow> bytes option result" where
  "linear_search_from_restart r i key =
     linear_search_key False r (restart_end r i) key (restarts r ! i) []"

definition linear_search_from_start :: "BlockReader \<Rightarrow> bytes \<Rightarrow> bytes option result" where
  "linear_search_from_start r key = linear_search_key True r (data_end r) key 0 []"

text \<open>\<open>linear_search_full\<close> prefixes the keys the iterator has already completed once more.\<close>

fun linear_search_full_loop :: "bytes \<Rightarrow> (bytes \<times> bytes) list \<Rightarrow> bytes \<Rightarrow> bytes option" where
  "linear_search_full_loop key [] prev_key = None"
| "linear_search_full_loop key ((entry_key, entry_value) # rest) prev_key =
     (let full_key = (if prev_key = [] then entry_key
            else take (compute_shared prev_key entry_key) prev_key @ entry_key)
      in case cmp full_key key of
           Less \<Rightarrow> linear_search_full_loop key rest full_key
         | Equal \<Rightarrow> Some entry_value
         | Greater \<Rightarrow> None)"

definition linear_search_full :: "BlockReader \<Rightarrow> bytes \<Rightarrow> bytes option result" where
  "linear_search_full r key = and_then (block_iter r) (\<lambda>es. Ok (linear_search_full_loop key es []))"

text \<open>
  The binary search of \<open>get\<close> over \<open>left..=right\<close>.  \<open>Inl\<close> carries an answer, \<open>Inr\<close> the
  final \<open>left\<close>.
\<close>

function get_search :: "BlockReader \<Rightarrow> bytes \<Rightarrow> nat \<Rightarrow> nat \<Rightarrow> bytes option result + nat" where
  "get_search r key left right =
     (if left \<le> right then
        let mid = (left + right) div 2
        in (case entry_at r (restarts r ! mid) of
              Inl e \<Rightarrow> Inl (Inl e)
            | Inr None \<Rightarrow> Inl (linear_search_full r key)
            | Inr (Some e) \<Rightarrow>
                (case cmp (dv_unshared_key e) key of
                   Less \<Rightarrow> get_search r key (mid + 1) right
                 | Greater \<Rightarrow> if mid = 0 then Inr left else get_search r key left (mid - 1)
                 | Equal \<Rightarrow> Inl (linear_search_from_restart r mid key)))
      else Inr left)"
  by pat_completeness auto
termination
  by (relation "measure (\<lambda>(_, _, left, right). Suc right - left)") (auto simp: Let_def)

declare get_search.simps [simp del]

definition br_get :: "BlockReader \<Rightarrow> bytes \<Rightarrow> bytes option result" where
  "br_get r key =
     (if restarts r = [] then linear_search_from_start r key
      else (case get_search r key 0 (length (restarts r) - 1) of
          Inl found \<Rightarrow> found
        | Inr left \<Rightarrow> linear_search_from_restart r (left - 1) key))"

end
