(* ===== verification/Block_Lookup.thy ===== *)
theory Block_Lookup
  imports Block_Reader
begin

text \<open>
  What the block reader makes of a block the builder wrote: every entry decodes to itself,
  the search index is what the layout says, the iterator returns the entries, and the
  point lookups return the version of a user key they are asked for.
\<close>

section \<open>Decoding the layout\<close>

text \<open>\<open>r\<close> reads the data part of the block with the entries \<open>kvs\<close>.\<close>

definition reads :: "(bytes \<times> bytes) list \<Rightarrow> BlockReader \<Rightarrow> bool" where
  "reads kvs r \<longleftrightarrow> list_all kv_small kvs \<and>
     (\<exists>tl. br_data r = blk_range kvs 0 (length kvs) @ tl) \<and>
     data_end r = blk_off kvs (length kvs) \<and> blk_off kvs (length kvs) < 2 ^ 32"

definition blk_view :: "(bytes \<times> bytes) list \<Rightarrow> nat \<Rightarrow> DecodedEntryView" where
  "blk_view kvs i = \<lparr> dv_shared = blk_shared kvs i,
     dv_unshared_key = drop (blk_shared kvs i) (fst (kvs ! i)), dv_value = snd (kvs ! i),
     dv_value_offset = blk_off kvs (Suc i) - length (snd (kvs ! i)),
     dv_total_len = blk_off kvs (Suc i) - blk_off kvs i \<rparr>"

lemma blk_off_Suc: "blk_off kvs (Suc i) = blk_off kvs i + length (blk_entry kvs i)"
  by (simp add: blk_off_def blk_range_Suc)

lemma blk_off_mono: "i \<le> j \<Longrightarrow> blk_off kvs i \<le> blk_off kvs j"
  by (simp add: blk_off_def blk_range_append [of 0 i j])

lemma varint_pos: "0 < length (encode_varint64 v)"
  using encode_varint64_length_bounds [of v] by linarith

lemma blk_entry_pos: "0 < length (blk_entry kvs i)"
  using varint_pos by (simp add: blk_entry_def entry_bytes_def)

lemma blk_off_less: "i < j \<Longrightarrow> blk_off kvs i < blk_off kvs j"
  using blk_off_mono [of "Suc i" j kvs] blk_entry_pos [of kvs i] by (simp add: blk_off_Suc del: length_greater_0_conv)

lemma blk_off_0 [simp]: "blk_off kvs 0 = 0"
  by (simp add: blk_off_def blk_range_def)

lemma subslice_middle:
  "a \<le> length ys \<Longrightarrow> subslice (xs @ ys @ zs) (length xs + a) (length xs + length ys) = drop a ys"
  by (simp add: subslice_def)

lemma subslice_inside:
  "a \<le> b \<Longrightarrow> b \<le> length ys \<Longrightarrow>
   subslice (xs @ ys @ zs) (length xs + a) (length xs + b) = subslice ys a b"
  by (simp add: subslice_def)

lemma unat_ucast_small: "n < 2 ^ 32 \<Longrightarrow> unat (ucast (of_nat n :: u64) :: u32) = n"
  by (simp add: unsigned_of_nat unsigned_ucast_eq take_bit_nat_eq_self unat_of_nat_small)

lemma entry_at_layout:
  assumes "reads kvs r" "i < length kvs"
  shows "entry_at r (blk_off kvs i) = Ok (Some (blk_view kvs i))"
proof -
  let ?n = "length kvs" and ?s = "blk_shared kvs i" and ?k = "fst (kvs ! i)" and ?v = "snd (kvs ! i)"
  let ?A = "encode_varint64 (of_nat ?s)" and ?B = "encode_varint64 (of_nat (length ?k - ?s))"
    and ?C = "encode_varint64 (of_nat (length ?v))"
  let ?X = "blk_range kvs 0 i" and ?R = "blk_range kvs (Suc i) ?n"
  obtain tl where data: "br_data r = blk_range kvs 0 ?n @ tl" and stop: "data_end r = blk_off kvs ?n"
    and lim: "blk_off kvs ?n < 2 ^ 32" and "list_all kv_small kvs"
    using assms(1) by (auto simp: reads_def)
  then have small: "length ?k < 2 ^ 32" "length ?v < 2 ^ 32"
    using assms(2) by (auto simp: list_all_length kv_small_def)
  have s: "?s \<le> length ?k" "?s < 2 ^ 32" using blk_shared_le [of kvs i] small by auto
  let ?Y = "(?A @ ?B @ ?C @ drop ?s ?k @ ?v) @ ?R"
  have split: "blk_range kvs 0 ?n = ?X @ ?Y"
    using assms(2) blk_range_append [of 0 i ?n kvs] blk_range_append [of i "Suc i" ?n kvs] blk_range_Suc [of i i kvs]
    by (simp add: blk_entry_def entry_bytes_def blk_range_def)
  have offi: "blk_off kvs i = length ?X" and offn: "blk_off kvs ?n = length ?X + length ?Y"
    using split by (simp_all add: blk_off_def)
  have at: "decode_varint_at r (length ?X + a) = decode_varint64_with_length (drop a ?Y)" if "a < length ?Y" for a
    using that subslice_middle [of a ?Y ?X tl]
    unfolding decode_varint_at_def data split stop offn by simp
  have v1: "decode_varint_at r (length ?X) = Ok (of_nat ?s, length ?A)"
    using at [of 0] varint_pos [of "of_nat ?s"] by (simp add: decode_encode_varint64)
  have v2: "decode_varint_at r (length ?X + length ?A) = Ok (of_nat (length ?k - ?s), length ?B)"
    using at [of "length ?A"] varint_pos by (simp add: decode_encode_varint64)
  have v3: "decode_varint_at r (length ?X + length ?A + length ?B) = Ok (of_nat (length ?v), length ?C)"
    using at [of "length ?A + length ?B"] varint_pos by (simp add: decode_encode_varint64 add.assoc)
  let ?o = "length ?X + length ?A + length ?B + length ?C"
  have u: "unat (of_nat (length ?k - ?s) :: u64) = length ?k - ?s" "unat (of_nat (length ?v) :: u64) = length ?v"
    using small by (intro unat_of_nat_small; simp)+
  have e: "?o + (length ?k - ?s) + length ?v = blk_off kvs (Suc i)"
    using s by (simp add: blk_off_Suc offi blk_entry_def entry_bytes_def)
  have le: "blk_off kvs (Suc i) \<le> blk_off kvs ?n" using assms(2) by (intro blk_off_mono) simp
  have pos: "blk_off kvs i < blk_off kvs ?n" using assms(2) by (rule blk_off_less)
  have sub1: "subslice (br_data r) ?o (?o + (length ?k - ?s)) = drop ?s ?k"
    and sub2: "subslice (br_data r) (?o + (length ?k - ?s)) (blk_off kvs (Suc i)) = ?v"
    unfolding data split e [symmetric] using s by (simp_all add: subslice_def)
  show ?thesis
    unfolding entry_at_def decode_entry_view_at_def
    using v1 v2 v3 u e le lim pos sub1 sub2 s
    by (simp add: offi stop Let_def res_ok_def blk_view_def unat_ucast_small add.assoc)
qed

section \<open>Scans over the layout\<close>

text \<open>
  A scan may start at a restart point with an empty previous key, and is later at an entry
  with the key before it.
\<close>

definition at_key :: "(bytes \<times> bytes) list \<Rightarrow> nat \<Rightarrow> bytes \<Rightarrow> bool" where
  "at_key kvs i prev \<longleftrightarrow> prev = [] \<and> i mod 16 = 0 \<or> 0 < i \<and> prev = fst (kvs ! (i - 1))"

lemma at_key_Suc [simp]: "at_key kvs (Suc i) (fst (kvs ! i))"
  by (simp add: at_key_def)

lemma at_key_restart [simp]: "at_key kvs (16 * i) []" "at_key kvs 0 []"
  by (simp_all add: at_key_def)

lemma rebuild_key_layout:
  "at_key kvs i prev \<Longrightarrow> rebuild_key prev (blk_view kvs i) = Some (fst (kvs ! i))"
  by (auto simp: at_key_def rebuild_key_def blk_view_def blk_shared_def shared_rebuild
      compute_shared_le(1) [THEN leD])

lemma iter_key_layout: "at_key kvs i prev \<Longrightarrow> iter_key prev (blk_view kvs i) = fst (kvs ! i)"
  by (auto simp: at_key_def iter_key_def blk_view_def blk_shared_def shared_rebuild compute_shared_le)

definition no_padding :: "(bytes \<times> bytes) list \<Rightarrow> bool" where
  "no_padding kvs \<longleftrightarrow> (\<forall>i<length kvs. \<not> is_padding (blk_view kvs i))"

lemma step_pos: "blk_off kvs i + dv_total_len (blk_view kvs i) = blk_off kvs (Suc i)"
  by (simp add: blk_view_def blk_off_Suc)

lemma block_iter_from_layout:
  assumes "reads kvs r" "no_padding kvs"
  shows "i \<le> length kvs \<Longrightarrow> at_key kvs i prev \<Longrightarrow>
    block_iter_from r (blk_off kvs i) prev = Ok (drop i kvs)"
proof (induction "length kvs - i" arbitrary: i prev)
  case 0
  then have "i = length kvs" by simp
  then show ?case using assms(1) by (simp add: block_iter_from.simps reads_def)
next
  case (Suc m)
  then have i: "i < length kvs" by simp
  have IH: "block_iter_from r (blk_off kvs (Suc i)) (fst (kvs ! i)) = Ok (drop (Suc i) kvs)"
    using Suc i by (intro Suc.hyps(1)) simp_all
  have "\<not> data_end r \<le> blk_off kvs i"
    using assms(1) blk_off_less [OF i, of kvs] by (auto simp: reads_def)
  moreover have "dv_value (blk_view kvs i) = snd (kvs ! i)" by (simp add: blk_view_def)
  ultimately show ?case
    using assms(2) i IH iter_key_layout [OF Suc.prems(2)] Cons_nth_drop_Suc [OF i]
    by (subst block_iter_from.simps) (simp add: entry_at_layout [OF assms(1)] no_padding_def step_pos)
qed

section \<open>Blocks of internal keys\<close>

definition raw :: "entry list \<Rightarrow> (bytes \<times> bytes) list" where
  "raw es = map (\<lambda>(k, v). (serialize k, v)) es"

lemma raw_sel [simp]:
  "length (raw es) = length es"
  "i < length es \<Longrightarrow> fst (raw es ! i) = serialize (fst (es ! i))"
  "i < length es \<Longrightarrow> snd (raw es ! i) = snd (es ! i)"
  by (simp_all add: raw_def split_beta)

lemma decode_serialize [simp]:
  "user_key_of_internal_key (serialize k) = Some (user_key k)"
  "decode_internal_key_slice (serialize k) = Some k"
  "sequence_of_internal_key (serialize k) = Some (sequence_number k)"
  by (simp_all add: user_key_of_internal_key_def decode_internal_key_slice_def sequence_of_internal_key_def
      serialize_def from_encoded_def sequence_number_def Let_def)

lemma serialize_decode:
  assumes "decode_internal_key_slice bs = Some k"
  shows "serialize k = bs"
proof -
  let ?t = "drop (length bs - 8) bs"
  have len: "8 \<le> length bs"
    using assms by (cases "length bs < 8") (simp_all add: decode_internal_key_slice_def)
  then have "to_be 8 (from_be ?t :: u64) = ?t"
    using to_be_from_be [of ?t, where 'a = 64] by simp
  moreover have "k = from_encoded (take (length bs - 8) bs) (NOT (from_be ?t))"
    using assms len by (simp add: decode_internal_key_slice_def Let_def)
  ultimately show ?thesis by (simp add: serialize_def from_encoded_def)
qed

text \<open>
  In key order a serialized key is never a prefix of the one before it, so no entry
  looks like padding.
\<close>

lemma serialize_prefix_greater:
  assumes "length (serialize b) \<le> length (serialize a)" "take (length (serialize b)) (serialize a) = serialize b"
  shows "ik_pos b = ik_pos a \<or> ik_pos b < ik_pos a"
proof -
  have len: "length (user_key b) \<le> length (user_key a)" using assms(1) by (simp add: serialize_def)
  have "user_key b = take (length (user_key b)) (serialize b)" by (simp add: serialize_def)
  also have "\<dots> = take (length (user_key b)) (take (length (serialize b)) (serialize a))"
    using assms(2) by simp
  also have "\<dots> = take (length (user_key b)) (serialize a)"
    unfolding take_take by (simp add: serialize_def)
  also have "\<dots> = take (length (user_key b)) (user_key a)" using len by (simp add: serialize_def)
  finally have pre: "user_key b = take (length (user_key b)) (user_key a)" .
  show ?thesis
  proof (cases "length (user_key b) = length (user_key a)")
    case True
    then have "length (serialize b) = length (serialize a)" by (simp add: serialize_def)
    then have "serialize a = serialize b" using assms(2) by simp
    then show ?thesis by (simp add: serialize_inj)
  next
    case False
    then obtain c cs where tail: "drop (length (user_key b)) (user_key a) = c # cs"
      using len by (cases "drop (length (user_key b)) (user_key a)") auto
    have "user_key a = user_key b @ c # cs"
      using append_take_drop_id [of "length (user_key b)" "user_key a"] unfolding pre [symmetric] tail by simp
    then have "user_key b < user_key a"
      using append_less_same [of "user_key b" "[]" "c # cs"] by simp
    then show ?thesis by (simp add: ik_pos_def)
  qed
qed

lemma entries_sorted_nth: "entries_sorted es \<Longrightarrow> i < j \<Longrightarrow> j < length es \<Longrightarrow> epos (es ! i) < epos (es ! j)"
  by (simp add: entries_sorted_def sorted_wrt_iff_nth_less)

lemma ukey_mono:
  assumes "entries_sorted es" "i \<le> j" "j < length es"
  shows "ukey (es ! i) \<le> ukey (es ! j)"
proof (cases "i = j")
  case False
  then show ?thesis using entries_sorted_nth [OF assms(1), of i j] assms by (auto simp: epos_less)
qed simp

lemma sorted_no_padding:
  assumes "entries_sorted es"
  shows "no_padding (raw es)"
  unfolding no_padding_def
proof (intro allI impI notI)
  fix i assume i: "i < length (raw es)" and pad: "is_padding (blk_view (raw es) i)"
  let ?b = "fst (es ! i)"
  have sh: "length (serialize ?b) \<le> blk_shared (raw es) i"
    using i pad by (simp add: is_padding_def blk_view_def)
  then have "i mod 16 \<noteq> 0" by (auto simp: blk_shared_def serialize_def split: if_splits)
  then have i0: "0 < i" by (cases i) auto
  let ?a = "fst (es ! (i - 1))"
  have eq: "blk_shared (raw es) i = compute_shared (serialize ?a) (serialize ?b)"
    using \<open>i mod 16 \<noteq> 0\<close> i i0 by (simp add: blk_shared_def)
  have full: "compute_shared (serialize ?a) (serialize ?b) = length (serialize ?b)"
    using sh eq compute_shared_le(2) [of "serialize ?a" "serialize ?b"] by simp
  have "length (serialize ?b) \<le> length (serialize ?a)"
    using compute_shared_le(1) [of "serialize ?a" "serialize ?b"] full by simp
  moreover have "take (length (serialize ?b)) (serialize ?a) = serialize ?b"
    using take_compute_shared [of "serialize ?a" "serialize ?b"] full by simp
  ultimately have "ik_pos ?b = ik_pos ?a \<or> ik_pos ?b < ik_pos ?a" by (rule serialize_prefix_greater)
  moreover have "ik_pos ?a < ik_pos ?b" using entries_sorted_nth [OF assms, of "i - 1" i] i i0 by simp
  ultimately show False by auto
qed

text \<open>The answer of a lookup that found entry \<open>j\<close>.\<close>

definition rng :: "entry list \<Rightarrow> nat \<Rightarrow> value_range" where
  "rng es j = (fst (es ! j), blk_off (raw es) (Suc j) - length (snd (es ! j)), length (snd (es ! j)))"

lemma view_rng:
  "j < length es \<Longrightarrow> (fst (es ! j), dv_value_offset (blk_view (raw es) j), length (dv_value (blk_view (raw es) j))) = rng es j"
  by (simp add: rng_def blk_view_def)

lemma find_upt_Suc: "i < e \<Longrightarrow> find P [i..<e] = (if P i then Some i else find P [Suc i..<e])"
  by (simp add: upt_conv_Cons)

lemma find_beyond:
  assumes "entries_sorted es" "e \<le> length es" "i < e" "uk < ukey (es ! i)"
    "\<And>j. P j \<Longrightarrow> ukey (es ! j) = uk"
  shows "find P [i..<e] = None"
proof -
  have "\<not> P j" if "j \<in> set [i..<e]" for j
    using ukey_mono [OF assms(1), of i j] assms that by (auto dest: assms(5))
  then show ?thesis by (auto simp: find_None_iff)
qed

lemma linear_search_layout:
  assumes "reads (raw es) r" "entries_sorted es" "e \<le> length es"
  shows "at_key (raw es) i prev \<Longrightarrow>
    linear_search_range_by_user_key_entry r (blk_off (raw es) e) uk (blk_off (raw es) i) prev =
      Ok (map_option (rng es) (find (\<lambda>j. ukey (es ! j) = uk) [i..<e]))"
proof (induction "e - i" arbitrary: i prev)
  case 0
  then show ?case using blk_off_mono [of e i "raw es"]
    by (simp add: linear_search_range_by_user_key_entry.simps)
next
  case (Suc m)
  then have i: "i < e" "i < length es" using assms(3) by simp_all
  have IH: "linear_search_range_by_user_key_entry r (blk_off (raw es) e) uk (blk_off (raw es) (Suc i))
      (serialize (fst (es ! i))) = Ok (map_option (rng es) (find (\<lambda>j. ukey (es ! j) = uk) [Suc i..<e]))"
    using Suc i at_key_Suc [of "raw es" i] by (intro Suc.hyps(1)) simp_all
  have np: "\<not> is_padding (blk_view (raw es) i)"
    using sorted_no_padding [OF assms(2)] i by (simp add: no_padding_def)
  note step = entry_at_layout [OF assms(1), of i] rebuild_key_layout [OF Suc.prems] np view_rng [OF i(2)]
  show ?case
    using blk_off_less [OF i(1), of "raw es"] step i IH
      find_beyond [OF assms(2,3) i(1), of uk "\<lambda>j. ukey (es ! j) = uk"]
    by (subst linear_search_range_by_user_key_entry.simps)
      (auto simp: step_pos find_upt_Suc cmp_def)
qed

lemma linear_search_at_seq_layout:
  assumes "reads (raw es) r" "entries_sorted es" "e \<le> length es"
  shows "at_key (raw es) i prev \<Longrightarrow>
    linear_search_range_by_user_key_entry_at_seq r (blk_off (raw es) e) uk s (blk_off (raw es) i) prev =
      Ok (map_option (rng es) (find (\<lambda>j. ukey (es ! j) = uk \<and> eseq (es ! j) \<le> s) [i..<e]))"
proof (induction "e - i" arbitrary: i prev)
  case 0
  then show ?case using blk_off_mono [of e i "raw es"]
    by (simp add: linear_search_range_by_user_key_entry_at_seq.simps)
next
  case (Suc m)
  then have i: "i < e" "i < length es" using assms(3) by simp_all
  have IH: "linear_search_range_by_user_key_entry_at_seq r (blk_off (raw es) e) uk s (blk_off (raw es) (Suc i))
      (serialize (fst (es ! i))) =
      Ok (map_option (rng es) (find (\<lambda>j. ukey (es ! j) = uk \<and> eseq (es ! j) \<le> s) [Suc i..<e]))"
    using Suc i at_key_Suc [of "raw es" i] by (intro Suc.hyps(1)) simp_all
  have np: "\<not> is_padding (blk_view (raw es) i)"
    using sorted_no_padding [OF assms(2)] i by (simp add: no_padding_def)
  note step = entry_at_layout [OF assms(1), of i] rebuild_key_layout [OF Suc.prems] np view_rng [OF i(2)]
  show ?case
    using blk_off_less [OF i(1), of "raw es"] step i IH
      find_beyond [OF assms(2,3) i(1), of uk "\<lambda>j. ukey (es ! j) = uk \<and> eseq (es ! j) \<le> s"]
    by (subst linear_search_range_by_user_key_entry_at_seq.simps)
      (auto simp: step_pos find_upt_Suc cmp_def)
qed

section \<open>The search index of a written block\<close>

lemma narrow32_id: "n < 2 ^ 32 \<Longrightarrow> narrow32 n = n"
  by (simp add: narrow32_def unat_of_nat_small)

lemma rng_narrow:
  assumes "reads (raw es) r" "j < length es"
  shows "(fst (es ! j), narrow32 (dv_value_offset (blk_view (raw es) j)),
    narrow32 (length (dv_value (blk_view (raw es) j)))) = rng es j"
proof -
  have "blk_off (raw es) (Suc j) \<le> blk_off (raw es) (length es)" using assms(2) by (intro blk_off_mono) simp
  then have "blk_off (raw es) (Suc j) < 2 ^ 32" using assms(1) by (simp add: reads_def)
  moreover have "length (snd (es ! j)) \<le> blk_off (raw es) (Suc j)"
    using assms(2) by (simp add: blk_off_Suc blk_entry_def entry_bytes_def)
  ultimately show ?thesis using assms(2) by (simp add: rng_def blk_view_def narrow32_id)
qed

lemma hash_index_layout:
  assumes "reads (raw es) r" "entries_sorted es"
  shows "i \<le> length es \<Longrightarrow> at_key (raw es) i prev \<Longrightarrow>
    \<exists>index'. collect_user_key_hash_index r (blk_off (raw es) i) prev index = Ok index' \<and>
      (\<forall>uk. map_of index' uk = (case map_of index uk of Some x \<Rightarrow> Some x
        | None \<Rightarrow> map_option (rng es) (find (\<lambda>j. ukey (es ! j) = uk) [i..<length es])))"
proof (induction "length es - i" arbitrary: i prev index)
  case 0
  then have "i = length es" by simp
  then show ?case using assms(1)
    by (auto simp: collect_user_key_hash_index.simps reads_def split: option.splits)
next
  case (Suc m)
  then have i: "i < length es" by simp
  let ?e = "blk_view (raw es) i" and ?k = "serialize (fst (es ! i))"
  have m: "m = length es - Suc i" using Suc.hyps(2) by simp
  obtain index' where run: "collect_user_key_hash_index r (blk_off (raw es) (Suc i)) ?k (hash_insert ?k ?e index) = Ok index'"
    and spec: "\<And>uk. map_of index' uk = (case map_of (hash_insert ?k ?e index) uk of Some x \<Rightarrow> Some x
        | None \<Rightarrow> map_option (rng es) (find (\<lambda>j. ukey (es ! j) = uk) [Suc i..<length es]))"
    using Suc.hyps(1) [of "Suc i" ?k "hash_insert ?k ?e index"] m i at_key_Suc [of "raw es" i]
    unfolding raw_sel(2) [OF i] by (meson Suc_leI)
  have "\<not> is_padding ?e" using sorted_no_padding [OF assms(2)] i by (simp add: no_padding_def)
  then have "collect_user_key_hash_index r (blk_off (raw es) i) prev index = Ok index'"
    using run assms(1) blk_off_less [OF i, of "raw es"] i entry_at_layout [OF assms(1), of i]
      rebuild_key_layout [OF Suc.prems(2)]
    by (subst collect_user_key_hash_index.simps) (simp add: reads_def step_pos)
  moreover have "map_of (hash_insert ?k ?e index) uk =
      (if map_of index uk = None \<and> uk = ukey (es ! i) then Some (rng es i) else map_of index uk)" for uk
    using rng_narrow [OF assms(1) i] by (auto simp: hash_insert_def)
  ultimately show ?case
    using spec i by (auto simp: find_upt_Suc split: option.splits)
qed

definition restart_offs :: "(bytes \<times> bytes) list \<Rightarrow> nat list" where
  "restart_offs kvs = (if length kvs < 16 then [] else map (\<lambda>j. blk_off kvs (16 * j)) [0..<Suc (length kvs div 16)])"

definition restart_key_at :: "(bytes \<times> bytes) list \<Rightarrow> nat \<Rightarrow> bytes" where
  "restart_key_at kvs j = (if 16 * j < length kvs then fst (kvs ! (16 * j)) else [])"

lemma collect_restart_keys_layout:
  assumes "reads kvs r" "\<forall>j\<in>set js. 16 * j \<le> length kvs"
  shows "collect_restart_keys r (map (\<lambda>j. blk_off kvs (16 * j)) js) = Ok (map (restart_key_at kvs) js)"
  using assms(2)
proof (induction js)
  case (Cons j js)
  have "collect_restart_key r (blk_off kvs (16 * j)) = Ok (restart_key_at kvs j)"
  proof (cases "16 * j < length kvs")
    case True
    then show ?thesis
      using assms(1) blk_off_less [OF True, of kvs] entry_at_layout [OF assms(1) True]
      by (simp add: collect_restart_key_def restart_key_at_def reads_def blk_view_def blk_shared_def)
  next
    case False
    then have "16 * j = length kvs" using Cons.prems by auto
    then show ?thesis using assms(1) by (simp add: collect_restart_key_def restart_key_at_def reads_def)
  qed
  then show ?case using Cons by simp
qed simp

lemma parse_restarts_bytes:
  assumes "\<forall>x\<in>set rs. x < 2 ^ 32"
  shows "parse_restarts (restart_bytes rs) (length rs) = rs"
proof -
  have "subslice (restart_bytes rs) (i * 4) (i * 4 + 4) = u32_le (of_nat (rs ! i))" if "i < length rs" for i
    using that
  proof (induction rs arbitrary: i)
    case (Cons x rs)
    then show ?case by (cases i) (auto simp: restart_bytes_def subslice_def)
  qed simp
  then show ?thesis
    using assms by (intro nth_equalityI) (auto simp: parse_restarts_def unat_of_nat_small)
qed

lemma blk_count_le_off: "n \<le> blk_off kvs n"
proof (induction n)
  case (Suc n)
  then show ?case using blk_off_less [of n "Suc n" kvs] by simp
qed simp

definition built :: "entry list \<Rightarrow> BlockReader \<Rightarrow> bool" where
  "built es r \<longleftrightarrow> entries_sorted es \<and> reads (raw es) r \<and> restarts r = restart_offs (raw es) \<and>
     restart_keys r = map (restart_key_at (raw es)) [0..<length (restart_offs (raw es))] \<and>
     (\<forall>uk. map_of (user_key_hash_index r) uk =
        map_option (rng es) (find (\<lambda>j. ukey (es ! j) = uk) [0..<length es]))"

text \<open>Entries that fit one block: in key order, with lengths and total size below \<open>2^32\<close>.\<close>

definition blk_ok :: "entry list \<Rightarrow> bool" where
  "blk_ok es \<longleftrightarrow> entries_sorted es \<and> list_all kv_small (raw es) \<and> blk_off (raw es) (length es) < 2 ^ 32"

lemma blk_restarts_Cons:
  "16 \<le> length kvs \<Longrightarrow> 0 # blk_restarts kvs (length kvs) = restart_offs kvs"
  by (simp add: restart_offs_def blk_restarts_def upt_conv_Cons map_Suc_upt [symmetric] o_def del: upt_Suc map_Suc_upt)

lemma hash_index_total:
  assumes "reads kvs r" "no_padding kvs"
  shows "i \<le> length kvs \<Longrightarrow> at_key kvs i prev \<Longrightarrow>
    \<exists>index'. collect_user_key_hash_index r (blk_off kvs i) prev index = Ok index'"
proof (induction "length kvs - i" arbitrary: i prev index)
  case 0
  then show ?case using assms(1) by (auto simp: collect_user_key_hash_index.simps reads_def)
next
  case (Suc m)
  then have i: "i < length kvs" by simp
  have "\<not> is_padding (blk_view kvs i)" using assms(2) i by (simp add: no_padding_def)
  moreover obtain index' where "collect_user_key_hash_index r (blk_off kvs (Suc i)) (fst (kvs ! i))
      (hash_insert (fst (kvs ! i)) (blk_view kvs i) index) = Ok index'"
    using Suc.hyps(1) [of "Suc i" "fst (kvs ! i)"] Suc.hyps(2) i by force
  ultimately show ?case
    using assms(1) blk_off_less [OF i, of kvs] i entry_at_layout [OF assms(1), of i]
      rebuild_key_layout [OF Suc.prems(2)]
    by (subst collect_user_key_hash_index.simps) (simp add: reads_def step_pos)
qed

lemma new_BlockReader_layout:
  assumes small: "list_all kv_small kvs" and lim: "blk_off kvs (length kvs) < 2 ^ 32" and pad: "no_padding kvs"
  shows "\<exists>r r0. new_BlockReader (block_bytes kvs) = Ok r \<and> reads kvs r \<and> restarts r = restart_offs kvs \<and>
    restart_keys r = map (restart_key_at kvs) [0..<length (restart_offs kvs)] \<and>
    reads kvs r0 \<and> collect_user_key_hash_index r0 0 [] [] = Ok (user_key_hash_index r)"
proof -
  let ?n = "length kvs"
  let ?D = "blk_range kvs 0 ?n" and ?rs = "blk_restarts kvs ?n" and ?N = "length kvs div 16"
  have bytes: "block_bytes kvs = ?D @ restart_bytes ?rs @ u32_le (of_nat ?N)"
    using block_bytes_layout [OF small] by simp
  have lenD: "length ?D = blk_off kvs ?n" by (simp add: blk_off_def)
  have lenrs: "length ?rs = ?N" by (simp add: blk_restarts_def)
  have N: "unat (of_nat ?N :: u32) = ?N"
    using blk_count_le_off [of ?n kvs] lim by (intro unat_of_nat_small) simp
  have reads: "reads kvs r" if "br_data r = block_bytes kvs" "data_end r = blk_off kvs ?n" for r
    using that small lim by (simp add: reads_def bytes)
  have hash: "\<exists>index. collect_user_key_hash_index r 0 [] [] = Ok index" if "reads kvs r" for r
    using hash_index_total [OF that pad, of 0 "[]" "[]"] by simp
  have last4: "from_le (drop (length (block_bytes kvs) - 4) (block_bytes kvs)) = (of_nat ?N :: u32)"
    by (simp add: bytes)
  show ?thesis
  proof (cases "?n < 16")
    case True
    let ?r = "\<lparr> restarts = [], restart_keys = [], user_key_hash_index = [],
      data_end = length (block_bytes kvs) - 4, br_data = block_bytes kvs \<rparr>"
    have stop: "length (block_bytes kvs) - 4 = blk_off kvs ?n"
      using True lenrs by (simp add: bytes lenD)
    obtain index where "collect_user_key_hash_index ?r 0 [] [] = Ok index"
      using hash [OF reads, of ?r] stop by auto
    then show ?thesis
      using True last4 stop reads [of ?r] lenD
      by (intro exI [of _ "?r \<lparr> user_key_hash_index := index \<rparr>"] exI [of _ ?r])
        (simp add: new_BlockReader_def parse_search_index_def with_search_index_def restart_offs_def reads_def,
          simp add: bytes)
  next
    case False
    have le: "x < 2 ^ 32" if x: "x \<in> set ?rs" for x
    proof -
      obtain j where "j < ?N" "x = blk_off kvs (16 * Suc j)" using x by (auto simp: blk_restarts_def)
      then have "x \<le> blk_off kvs ?n" by (intro ord_eq_le_trans [OF _ blk_off_mono]) (auto simp: less_eq_div_iff_mult_less_eq)
      then show ?thesis using lim by simp
    qed
    have start: "length (block_bytes kvs) - 4 - ?N * 4 = blk_off kvs ?n"
      using lenrs by (simp add: bytes lenD)
    have arr: "subslice (block_bytes kvs) (blk_off kvs ?n) (length (block_bytes kvs) - 4) = restart_bytes ?rs"
      by (simp add: bytes subslice_def lenD)
    have parsed: "parse_restarts (restart_bytes ?rs) ?N = ?rs"
      using parse_restarts_bytes [of ?rs] le lenrs by simp
    have hd0: "\<not> (?rs \<noteq> [] \<and> hd ?rs = 0)"
      using blk_off_less [of 0 16 kvs] by (cases "?N = 0") (simp_all add: blk_restarts_def upt_conv_Cons)
    let ?r = "\<lparr> restarts = restart_offs kvs, restart_keys = [], user_key_hash_index = [],
      data_end = blk_off kvs ?n, br_data = block_bytes kvs \<rparr>"
    have rd: "reads kvs ?r" by (rule reads) simp_all
    obtain index where index: "collect_user_key_hash_index ?r 0 [] [] = Ok index"
      using hash [OF rd] by auto
    have keys: "collect_restart_keys ?r (restart_offs kvs) =
        Ok (map (restart_key_at kvs) [0..<length (restart_offs kvs)])"
      using collect_restart_keys_layout [OF rd, of "[0..<Suc ?N]"] False
      by (auto simp: restart_offs_def less_Suc_eq_le less_eq_div_iff_mult_less_eq mult.commute simp del: upt_Suc)
    have offs: "0 # ?rs = restart_offs kvs" using False blk_restarts_Cons [of kvs] by simp
    have "parse_search_index (block_bytes kvs) = Ok \<lparr> restarts = restart_offs kvs,
        restart_keys = map (restart_key_at kvs) [0..<length (restart_offs kvs)],
        user_key_hash_index = index, data_end = blk_off kvs ?n \<rparr>"
      unfolding parse_search_index_def last4 N Let_def start arr parsed
      using False hd0 offs keys index lenrs by (auto simp: bytes lenD)
    then show ?thesis
      using rd index lenD
      by (intro exI [of _ "?r \<lparr> restart_keys := map (restart_key_at kvs) [0..<length (restart_offs kvs)],
            user_key_hash_index := index \<rparr>"] exI [of _ ?r])
        (simp add: new_BlockReader_def with_search_index_def reads_def, simp add: bytes)
  qed
qed

lemma new_BlockReader_built:
  assumes "blk_ok es"
  shows "\<exists>r. new_BlockReader (block_bytes (raw es)) = Ok r \<and> built es r"
proof -
  have es: "entries_sorted es" using assms by (simp add: blk_ok_def)
  obtain r r0 where r: "new_BlockReader (block_bytes (raw es)) = Ok r" "reads (raw es) r"
      "restarts r = restart_offs (raw es)"
      "restart_keys r = map (restart_key_at (raw es)) [0..<length (restart_offs (raw es))]"
      "reads (raw es) r0" "collect_user_key_hash_index r0 0 [] [] = Ok (user_key_hash_index r)"
    using new_BlockReader_layout [of "raw es"] sorted_no_padding [OF es] assms by (auto simp: blk_ok_def)
  then show ?thesis
    using hash_index_layout [OF r(5) es, of 0 "[]" "[]"] es by (simp add: built_def)
qed

section \<open>The restart search\<close>

lemma restart_cmp_layout:
  assumes "built es r" "m < length (restarts r)"
  shows "restart_user_key_cmp r m uk =
    (if 16 * m < length es then Some (cmp (ukey (es ! (16 * m))) uk) else None)"
  using assms
  by (simp add: built_def restart_user_key_cmp_def restart_key_at_def user_key_of_internal_key_def [of "[]"])

text \<open>The loop never moves past a restart key that is not below the target.\<close>

lemma restart_lower_bound_layout:
  assumes "built es r"
  shows "restart_lower_bound r uk left right = Some l \<Longrightarrow> left \<le> right \<Longrightarrow> right \<le> length (restarts r) \<Longrightarrow>
    (\<forall>m<left. 16 * m < length es \<and> ukey (es ! (16 * m)) < uk) \<Longrightarrow>
    (\<forall>m. right \<le> m \<longrightarrow> 16 * m < length es \<longrightarrow> uk \<le> ukey (es ! (16 * m))) \<Longrightarrow>
    l \<le> length (restarts r) \<and> (\<forall>m<l. 16 * m < length es \<and> ukey (es ! (16 * m)) < uk) \<and>
    (\<forall>m. l \<le> m \<longrightarrow> 16 * m < length es \<longrightarrow> uk \<le> ukey (es ! (16 * m)))"
proof (induction "right - left" arbitrary: left right rule: less_induct)
  case less
  show ?case
  proof (cases "left < right")
    case False
    then show ?thesis using less.prems by (simp add: restart_lower_bound.simps)
  next
    case True
    define mid where "mid = left + (right - left) div 2"
    have mid: "left \<le> mid" "mid < right" "mid < length (restarts r)" using True less.prems by (auto simp: mid_def)
    have run: "restart_lower_bound r uk left right = (case restart_user_key_cmp r mid uk of
        None \<Rightarrow> None | Some Less \<Rightarrow> restart_lower_bound r uk (mid + 1) right
      | Some _ \<Rightarrow> restart_lower_bound r uk left mid)"
      using True by (subst restart_lower_bound.simps) (simp only: Let_def mid_def if_True)
    have in_es: "16 * mid < length es"
      using less.prems(1) restart_cmp_layout [OF assms mid(3), of uk] by (auto simp: run split: if_splits)
    have sorted: "entries_sorted es" using assms by (simp add: built_def)
    have cmp: "restart_user_key_cmp r mid uk = Some (cmp (ukey (es ! (16 * mid))) uk)"
      using restart_cmp_layout [OF assms mid(3)] in_es by simp
    show ?thesis
    proof (cases "ukey (es ! (16 * mid)) < uk")
      case True
      have "\<forall>m<mid + 1. 16 * m < length es \<and> ukey (es ! (16 * m)) < uk"
      proof (intro allI impI)
        fix m assume "m < mid + 1"
        then have "16 * m \<le> 16 * mid" by simp
        then show "16 * m < length es \<and> ukey (es ! (16 * m)) < uk"
          using in_es True ukey_mono [OF sorted _ in_es] by (meson le_less_trans)
      qed
      then show ?thesis
        using less.hyps [of right "mid + 1"] less.prems mid run cmp True by (simp add: cmp_def)
    next
      case False
      have "\<forall>m. mid \<le> m \<longrightarrow> 16 * m < length es \<longrightarrow> uk \<le> ukey (es ! (16 * m))"
      proof (intro allI impI)
        fix m assume "mid \<le> m" "16 * m < length es"
        then have "ukey (es ! (16 * mid)) \<le> ukey (es ! (16 * m))" by (intro ukey_mono [OF sorted]) simp_all
        then show "uk \<le> ukey (es ! (16 * m))" using False by (meson le_less_linear order_trans)
      qed
      then show ?thesis
        using less.hyps [of mid left] less.prems mid run cmp False by (simp add: cmp_def split: if_splits)
    qed
  qed
qed

text \<open>
  The search over restarts finds what a scan of the whole block finds, if the first match
  lies less than sixteen entries after the first version of the key.
\<close>

lemma find_upt_split:
  "a \<le> b \<Longrightarrow> b \<le> c \<Longrightarrow> find P [a..<c] = (case find P [a..<b] of Some x \<Rightarrow> Some x | None \<Rightarrow> find P [b..<c])"
proof -
  assume "a \<le> b" "b \<le> c"
  then have "[a..<c] = [a..<b] @ [b..<c]" using upt_add_eq_append [of a b "c - b"] by simp
  moreover have "find P (xs @ ys) = (case find P xs of Some x \<Rightarrow> Some x | None \<Rightarrow> find P ys)" for xs ys :: "nat list"
    by (induction xs) auto
  ultimately show ?thesis by simp
qed

lemma find_upt_window:
  assumes "a \<le> b" "b \<le> n" "\<And>j. j < n \<Longrightarrow> P j \<Longrightarrow> a \<le> j" "\<And>j. find P [0..<n] = Some j \<Longrightarrow> j < b"
  shows "find P [0..<n] = find P [a..<b]"
proof -
  have "\<not> P j" if "j < a" for j using assms(1,2) assms(3) [of j] that by auto
  then have none: "find P [0..<a] = None" by (auto simp: find_None_iff)
  have eq: "find P [0..<n] = (case find P [a..<b] of Some x \<Rightarrow> Some x | None \<Rightarrow> find P [b..<n])"
    using assms(1,2) none find_upt_split [of 0 a n P] find_upt_split [of a b n P] by simp
  show ?thesis
  proof (cases "find P [a..<b]")
    case None
    have "find P [b..<n] = None"
    proof (rule ccontr)
      assume "find P [b..<n] \<noteq> None"
      then obtain j where j: "find P [b..<n] = Some j" by auto
      then have "j \<in> set [b..<n]" by (auto simp: find_Some_iff)
      moreover have "j < b" using assms(4) [of j] eq None j by simp
      ultimately show False by simp
    qed
    then show ?thesis using eq None by simp
  qed (use eq in simp)
qed

lemma restart_search_layout:
  assumes b: "built es r" and r: "restarts r \<noteq> []"
    and P: "\<And>j. P j \<Longrightarrow> ukey (es ! j) = uk"
    and near: "\<And>j i. find P [0..<length es] = Some j \<Longrightarrow> i < length es \<Longrightarrow> ukey (es ! i) = uk \<Longrightarrow> j < i + 16"
    and full: "full = Ok (map_option g (find P [0..<length es]))"
    and su: "\<And>i. i < length (restarts r) \<Longrightarrow> scan_upto i = Ok (map_option g (find P [0..<16 * i]))"
    and sf: "\<And>i. i < length (restarts r) \<Longrightarrow>
      scan_from i = Ok (map_option g (find P [16 * i..<min (16 * Suc i) (length es)]))"
  shows "restart_search r uk full scan_upto scan_from = full"
proof -
  let ?n = "length es" and ?L = "length (restarts r)"
  have sorted: "entries_sorted es" using b by (simp add: built_def)
  have L: "?L = Suc (?n div 16)" "16 \<le> ?n"
    using b r by (auto simp: built_def restart_offs_def split: if_splits)
  have lower: "a \<le> j" if "j < ?n" "P j" "\<forall>m<l. 16 * m < ?n \<and> ukey (es ! (16 * m)) < uk" "a = 16 * (l - 1)" for j l a
  proof (rule ccontr)
    assume "\<not> a \<le> j"
    then have "0 < l" "j \<le> 16 * (l - 1)" using that(4) by auto
    then have "ukey (es ! j) \<le> ukey (es ! (16 * (l - 1)))" "ukey (es ! (16 * (l - 1))) < uk"
      using that(3) by (auto intro!: ukey_mono [OF sorted])
    then show False using P [OF that(2)] by simp
  qed
  have above: "j < 16 * m" if "j < ?n" "P j" "16 * m < ?n" "uk < ukey (es ! (16 * m))" for j m
  proof (rule ccontr)
    assume "\<not> j < 16 * m"
    then have "ukey (es ! (16 * m)) \<le> ukey (es ! j)" using that by (intro ukey_mono [OF sorted]) auto
    then show False using P [OF that(2)] that(4) by simp
  qed
  have found: "j < ?n \<and> P j" if "find P [0..<?n] = Some j" for j
    using that by (auto simp: find_Some_iff)
  have window: "full = Ok (map_option g (find P [a..<c]))"
    if "a \<le> c" "c \<le> ?n" "\<And>j. j < ?n \<Longrightarrow> P j \<Longrightarrow> a \<le> j" "\<And>j. find P [0..<?n] = Some j \<Longrightarrow> j < c" for a c
    using find_upt_window [OF that] by (simp add: full)
  have search: "(case restart_lower_bound r uk 0 ?L of
      None \<Rightarrow> full
    | Some left \<Rightarrow>
        if ?L \<le> left then scan_from (?L - 1)
        else (case restart_user_key_cmp r left uk of
            None \<Rightarrow> full
          | Some Greater \<Rightarrow> scan_from (left - 1)
          | Some Equal \<Rightarrow>
              if 0 < left then and_then (scan_from (left - 1)) (\<lambda>found.
                case found of Some x \<Rightarrow> Ok (Some x) | None \<Rightarrow> scan_from left)
              else scan_from left
          | Some Less \<Rightarrow> scan_from left)) = full"
  proof (cases "restart_lower_bound r uk 0 ?L")
    case (Some l)
    have "\<not> 16 * m < ?n" if "?L \<le> m" for m using L(1) that by simp
    then have l: "l \<le> ?L" "\<forall>m<l. 16 * m < ?n \<and> ukey (es ! (16 * m)) < uk"
      "\<forall>m. l \<le> m \<longrightarrow> 16 * m < ?n \<longrightarrow> uk \<le> ukey (es ! (16 * m))"
      using restart_lower_bound_layout [OF b Some] by blast+
    note lo = lower [OF _ _ l(2) refl]
    show ?thesis
    proof (cases "?L \<le> l")
      case True
      then have "l = ?L" using l(1) by simp
      then have "16 * (?L - 1) < ?n" using l(2) L(1) by auto
      moreover have "min (16 * Suc (?L - 1)) ?n = ?n" using L(1) by simp
      ultimately have "scan_from (?L - 1) = Ok (map_option g (find P [16 * (l - 1)..<?n]))"
        using sf [of "?L - 1"] L(1) \<open>l = ?L\<close> by simp
      also have "\<dots> = full"
        by (rule window [symmetric]) (use \<open>16 * (?L - 1) < ?n\<close> \<open>l = ?L\<close> in simp, simp, erule (1) lo, drule found, simp)
      finally show ?thesis using Some True by simp
    next
      case False
      then have lL: "l < ?L" "l - 1 < ?L" by auto
      show ?thesis
      proof (cases "16 * l < ?n")
        case True
        consider (gt) "uk < ukey (es ! (16 * l))" | (eq) "ukey (es ! (16 * l)) = uk"
          using l(3) [rule_format, of l] True by (auto simp: le_less)
        then show ?thesis
        proof cases
          case gt
          have "scan_from (l - 1) = full"
            unfolding sf [OF lL(2)]
          proof (rule window [symmetric])
            fix j
            show "j < ?n \<Longrightarrow> P j \<Longrightarrow> 16 * (l - 1) \<le> j" by (rule lo)
            assume "find P [0..<?n] = Some j"
            then have "j < ?n" "j < 16 * l" using found above [OF _ _ True gt] by blast+
            then show "j < min (16 * Suc (l - 1)) ?n" by auto
          qed (use True in auto)
          moreover have "restart_user_key_cmp r l uk = Some Greater"
            using gt True restart_cmp_layout [OF b lL(1), of uk] by (auto simp: cmp_def)
          ultimately show ?thesis using Some False by simp
        next
          case eq
          let ?c = "min (16 * Suc l) ?n"
          have w: "full = Ok (map_option g (find P [16 * (l - 1)..<?c]))"
          proof (rule window)
            fix j
            show "j < ?n \<Longrightarrow> P j \<Longrightarrow> 16 * (l - 1) \<le> j" by (rule lo)
            assume "find P [0..<?n] = Some j"
            then have "j < ?n" "j < 16 * l + 16" using found near [OF _ True eq] by blast+
            then show "j < ?c" by auto
          qed (use True in auto)
          have "min (16 * Suc (l - 1)) ?n = 16 * l" if "0 < l" using that True by auto
          moreover have "find P [16 * (l - 1)..<?c] =
              (case find P [16 * (l - 1)..<16 * l] of Some x \<Rightarrow> Some x | None \<Rightarrow> find P [16 * l..<?c])"
            using True by (intro find_upt_split) auto
          ultimately show ?thesis
            using Some False True eq w restart_cmp_layout [OF b lL(1), of uk] sf [OF lL(1)] sf [OF lL(2)]
            by (cases "0 < l"; cases "find P [16 * (l - 1)..<16 * l]") (simp_all add: cmp_def)
        qed
      next
        case False
        then show ?thesis using Some lL restart_cmp_layout [OF b lL(1)] by simp
      qed
    qed
  qed simp
  define p where "p = min (?L - 1) 8"
  have pL: "p < ?L" using L(1) by (simp add: p_def)
  show ?thesis
  proof (cases "0 < p \<and> 16 * p < ?n \<and> uk < ukey (es ! (16 * p))")
    case True
    have "full = Ok (map_option g (find P [0..<16 * p]))"
    proof (rule window)
      fix j
      show "find P [0..<?n] = Some j \<Longrightarrow> j < 16 * p" using found above [of j p] True by blast
    qed (use True in auto)
    moreover have "restart_user_key_cmp r p uk = Some Greater"
      using True restart_cmp_layout [OF b pL, of uk] by (auto simp: cmp_def)
    ultimately show ?thesis
      unfolding restart_search_def Let_def p_def [symmetric] using True su [OF pL] by simp
  next
    case False
    then show ?thesis
      unfolding restart_search_def Let_def p_def [symmetric] search
      using restart_cmp_layout [OF b pL, of uk] by (auto simp: cmp_def split: Ordering.splits)
  qed
qed

section \<open>Lookups\<close>

lemma built_scans:
  assumes "built es r"
  shows "linear_search_full_by_user_key_entry r uk =
      Ok (map_option (rng es) (find (\<lambda>j. ukey (es ! j) = uk) [0..<length es]))"
    "linear_search_full_by_user_key_entry_at_seq r uk s =
      Ok (map_option (rng es) (find (\<lambda>j. ukey (es ! j) = uk \<and> eseq (es ! j) \<le> s) [0..<length es]))"
    "i < length (restarts r) \<Longrightarrow> linear_search_range_by_user_key_entry r (restarts r ! i) uk 0 [] =
      Ok (map_option (rng es) (find (\<lambda>j. ukey (es ! j) = uk) [0..<16 * i]))"
    "i < length (restarts r) \<Longrightarrow> linear_search_range_by_user_key_entry_at_seq r (restarts r ! i) uk s 0 [] =
      Ok (map_option (rng es) (find (\<lambda>j. ukey (es ! j) = uk \<and> eseq (es ! j) \<le> s) [0..<16 * i]))"
    "i < length (restarts r) \<Longrightarrow> linear_search_from_restart_by_user_key_entry r i uk =
      Ok (map_option (rng es) (find (\<lambda>j. ukey (es ! j) = uk) [16 * i..<min (16 * Suc i) (length es)]))"
    "i < length (restarts r) \<Longrightarrow> linear_search_from_restart_by_user_key_entry_at_seq r i uk s =
      Ok (map_option (rng es) (find (\<lambda>j. ukey (es ! j) = uk \<and> eseq (es ! j) \<le> s) [16 * i..<min (16 * Suc i) (length es)]))"
proof -
  let ?n = "length es"
  have rd: "reads (raw es) r" and sorted: "entries_sorted es" and rs: "restarts r = restart_offs (raw es)"
    using assms by (auto simp: built_def)
  have stop: "data_end r = blk_off (raw es) ?n" using rd by (simp add: reads_def)
  note scan = linear_search_layout [OF rd sorted] and scan_seq = linear_search_at_seq_layout [OF rd sorted]
  show "linear_search_full_by_user_key_entry r uk =
      Ok (map_option (rng es) (find (\<lambda>j. ukey (es ! j) = uk) [0..<?n]))"
    "linear_search_full_by_user_key_entry_at_seq r uk s =
      Ok (map_option (rng es) (find (\<lambda>j. ukey (es ! j) = uk \<and> eseq (es ! j) \<le> s) [0..<?n]))"
    using scan [of ?n 0 "[]" uk] scan_seq [of ?n 0 "[]" uk s]
    by (simp_all add: linear_search_full_by_user_key_entry_def linear_search_full_by_user_key_entry_at_seq_def stop)
  assume i: "i < length (restarts r)"
  then have i16: "16 * i \<le> ?n" and at: "restarts r ! i = blk_off (raw es) (16 * i)"
    by (auto simp: rs restart_offs_def less_Suc_eq_le less_eq_div_iff_mult_less_eq mult.commute
        simp del: upt_Suc split: if_splits)
  have e: "restart_end r i = blk_off (raw es) (min (16 * Suc i) ?n)"
  proof (cases "i + 1 < length (restarts r)")
    case True
    then have "i + 1 \<le> ?n div 16" and "restarts r ! (i + 1) = blk_off (raw es) (16 * (i + 1))"
      by (auto simp: rs restart_offs_def simp del: upt_Suc split: if_splits)
    then show ?thesis using True by (simp add: restart_end_def less_eq_div_iff_mult_less_eq min_def)
  next
    case False
    then have "i = ?n div 16" using i by (auto simp: rs restart_offs_def split: if_splits)
    then have "?n < 16 * Suc i" using dividend_less_div_times [of 16 ?n] by simp
    then show ?thesis using False by (simp add: restart_end_def stop)
  qed
  show "linear_search_range_by_user_key_entry r (restarts r ! i) uk 0 [] =
      Ok (map_option (rng es) (find (\<lambda>j. ukey (es ! j) = uk) [0..<16 * i]))"
    "linear_search_range_by_user_key_entry_at_seq r (restarts r ! i) uk s 0 [] =
      Ok (map_option (rng es) (find (\<lambda>j. ukey (es ! j) = uk \<and> eseq (es ! j) \<le> s) [0..<16 * i]))"
    using scan [OF i16, of 0 "[]" uk] scan_seq [OF i16, of 0 "[]" uk s] by (simp_all add: at)
  show "linear_search_from_restart_by_user_key_entry r i uk =
      Ok (map_option (rng es) (find (\<lambda>j. ukey (es ! j) = uk) [16 * i..<min (16 * Suc i) ?n]))"
    "linear_search_from_restart_by_user_key_entry_at_seq r i uk s =
      Ok (map_option (rng es) (find (\<lambda>j. ukey (es ! j) = uk \<and> eseq (es ! j) \<le> s) [16 * i..<min (16 * Suc i) ?n]))"
    using scan [of "min (16 * Suc i) ?n" "16 * i" "[]" uk] scan_seq [of "min (16 * Suc i) ?n" "16 * i" "[]" uk s]
    by (simp_all add: linear_search_from_restart_by_user_key_entry_def
        linear_search_from_restart_by_user_key_entry_at_seq_def at e)
qed

lemma find_upt_first: "find P [0..<n] = Some j \<Longrightarrow> P i \<Longrightarrow> i < n \<Longrightarrow> j \<le> i"
  by (auto simp: find_Some_iff) (metis linorder_not_less)

lemma get_entry_layout:
  assumes "built es r"
  shows "get_by_user_key_entry r uk = Ok (map_option (rng es) (find (\<lambda>j. ukey (es ! j) = uk) [0..<length es]))"
proof (cases "map_of (user_key_hash_index r) uk")
  case None
  have keys: "length (restart_keys r) = length (restarts r)" using assms by (simp add: built_def)
  have "restart_search r uk (linear_search_full_by_user_key_entry r uk)
      (\<lambda>i. linear_search_range_by_user_key_entry r (restarts r ! i) uk 0 [])
      (\<lambda>i. linear_search_from_restart_by_user_key_entry r i uk) = linear_search_full_by_user_key_entry r uk"
    if "restarts r \<noteq> []"
    by (rule restart_search_layout [OF assms that _ _ built_scans(1,3,5) [OF assms]])
      (auto dest: find_upt_first)
  then show ?thesis
    using None keys built_scans(1) [OF assms] by (simp add: get_by_user_key_entry_def)
next
  case (Some e)
  then have "get_by_user_key_entry r uk = Ok (map_of (user_key_hash_index r) uk)"
    by (simp add: get_by_user_key_entry_def)
  then show ?thesis using assms by (simp add: built_def)
qed

lemma find_map_list: "find P (map f xs) = map_option f (find (\<lambda>x. P (f x)) xs)"
  by (induction xs) auto

lemma find_nth: "map_option ((!) es) (find (\<lambda>j. P (es ! j)) [0..<length es]) = find P es"
  using find_map_list [of P "(!) es" "[0..<length es]"] by (simp add: map_nth)

lemma value_of_rng:
  assumes "reads (raw es) r" "j < length es"
  shows "case rng es j of (ik, off, len) \<Rightarrow> map_option (\<lambda>v. (ik, v)) (value_slice_to_vec r off len) = Some (es ! j)"
proof -
  let ?v = "snd (es ! j)"
  obtain tl where data: "br_data r = blk_range (raw es) 0 (length es) @ tl" using assms(1) by (auto simp: reads_def)
  have "blk_range (raw es) 0 (length es) = blk_range (raw es) 0 j @ blk_entry (raw es) j @ blk_range (raw es) (Suc j) (length es)"
    using assms(2) blk_range_append [of 0 "Suc j" "length es" "raw es"] blk_range_Suc [of 0 j "raw es"] by simp
  moreover obtain pre where pre: "blk_entry (raw es) j = pre @ ?v"
    using assms(2) by (simp add: blk_entry_def entry_bytes_def)
  ultimately have split: "br_data r = (blk_range (raw es) 0 j @ pre) @ ?v @ blk_range (raw es) (Suc j) (length es) @ tl"
    by (simp add: data)
  have off: "blk_off (raw es) (Suc j) - length ?v = length (blk_range (raw es) 0 j @ pre)"
    by (simp add: blk_off_Suc pre) (simp add: blk_off_def)
  show ?thesis
    unfolding rng_def off by (simp add: value_slice_to_vec_def split subslice_def del: append_assoc)
qed

text \<open>
  (C10) A block reads back as it was written.  For entries in key order whose lengths and
  total size fit 32 bits, the bytes that \<open>BlockBuilder\<close> produces are accepted by
  \<open>BlockReader::new\<close>; its iterator returns exactly the serialized entries in order, and
  \<open>get_by_user_key\<close> returns the newest version of a user key with its value, and
  nothing for a key that is not in the block.
\<close>

theorem block_roundtrip:
  assumes "blk_ok es"
  shows "\<exists>r. new_BlockReader (block_bytes (raw es)) = Ok r \<and> block_iter r = Ok (raw es) \<and>
    get_by_user_key r uk = Ok (visible uk SEQUENCE_NUMBER_MAX es)"
proof -
  obtain r where r: "new_BlockReader (block_bytes (raw es)) = Ok r" "built es r"
    using new_BlockReader_built [OF assms] by blast
  have rd: "reads (raw es) r" and sorted: "entries_sorted es" using r(2) by (auto simp: built_def)
  have iter: "block_iter r = Ok (raw es)"
    using block_iter_from_layout [OF rd sorted_no_padding [OF sorted], of 0 "[]"] by (simp add: block_iter_def)
  have vis: "visible uk SEQUENCE_NUMBER_MAX es = find (\<lambda>e. ukey e = uk) es"
    by (simp add: visible_def sequence_number_le_max)
  have "get_by_user_key r uk = Ok (map_option ((!) es) (find (\<lambda>j. ukey (es ! j) = uk) [0..<length es]))"
  proof (cases "find (\<lambda>j. ukey (es ! j) = uk) [0..<length es]")
    case (Some j)
    then have "j < length es" by (auto simp: find_Some_iff)
    from value_of_rng [OF rd this] show ?thesis
      using Some get_entry_layout [OF r(2), of uk]
      by (cases "rng es j") (simp add: get_by_user_key_def)
  qed (simp add: get_by_user_key_def get_entry_layout [OF r(2)])
  then show ?thesis using r(1) iter vis find_nth [of es "\<lambda>e. ukey e = uk"] by auto
qed

lemma length_blk_entry_le: "length (blk_entry kvs i) \<le> 30 + length (fst (kvs ! i)) + length (snd (kvs ! i))"
proof -
  have "length (encode_varint64 w) \<le> 10" for w using encode_varint64_length_bounds by blast
  from this [of "of_nat (blk_shared kvs i)"] this [of "of_nat (length (fst (kvs ! i)) - blk_shared kvs i)"]
    this [of "of_nat (length (snd (kvs ! i)))"]
  show ?thesis by (simp add: blk_entry_def entry_bytes_def)
qed

definition two_entries :: "entry list" where
  "two_entries = [(\<lparr> user_key = [97], encoded_sequence_number = 0x201 \<rparr>, [1]),
     (\<lparr> user_key = [97, 98], encoded_sequence_number = 0x101 \<rparr>, [2])]"

lemma two_entries_ok: "blk_ok two_entries"
proof -
  have sorted: "entries_sorted two_entries" by (simp add: two_entries_def entries_sorted_def ik_pos_def)
  have small: "list_all kv_small (raw two_entries)"
    by (simp add: two_entries_def kv_small_def raw_def serialize_def)
  have "length (blk_entry (raw two_entries) 0) \<le> 40"
    using length_blk_entry_le [of "raw two_entries" 0] by (simp add: two_entries_def raw_def serialize_def)
  moreover have "length (blk_entry (raw two_entries) 1) \<le> 41"
    using length_blk_entry_le [of "raw two_entries" 1] by (simp add: two_entries_def raw_def serialize_def)
  ultimately have "blk_off (raw two_entries) (Suc 1) < 2 ^ 32" unfolding One_nat_def blk_off_Suc by simp
  moreover have "length two_entries = Suc 1" by (simp add: two_entries_def)
  ultimately show ?thesis using sorted small by (simp only: blk_ok_def simp_thms)
qed

theorem block_roundtrip_witness:
  "blk_ok two_entries \<and> (\<exists>r. new_BlockReader (block_bytes (raw two_entries)) = Ok r \<and>
     get_by_user_key r [97, 98] = Ok (Some (\<lparr> user_key = [97, 98], encoded_sequence_number = 0x101 \<rparr>, [2])))"
proof -
  have "visible [97, 98] SEQUENCE_NUMBER_MAX two_entries =
      Some (\<lparr> user_key = [97, 98], encoded_sequence_number = 0x101 \<rparr>, [2])"
    by (simp add: visible_def sequence_number_le_max two_entries_def)
  with two_entries_ok block_roundtrip [OF two_entries_ok, of "[97, 98]"] show ?thesis by auto
qed

lemma versions_close:
  assumes "entries_sorted es" "length (filter (\<lambda>e. ukey e = uk) es) \<le> 16"
    "i < length es" "ukey (es ! i) = uk" "j < length es" "ukey (es ! j) = uk"
  shows "j < i + 16"
proof (rule ccontr)
  assume far: "\<not> j < i + 16"
  have "{i..j} \<subseteq> {k. k < length es \<and> ukey (es ! k) = uk}"
  proof
    fix k assume "k \<in> {i..j}"
    then have k: "i \<le> k" "k \<le> j" "k < length es" using assms(5) by auto
    have "ukey (es ! i) \<le> ukey (es ! k)" "ukey (es ! k) \<le> ukey (es ! j)"
      using k assms(5) by (auto intro: ukey_mono [OF assms(1)])
    with k(3) assms(4,6) show "k \<in> {k. k < length es \<and> ukey (es ! k) = uk}" by auto
  qed
  then have "card {i..j} \<le> card {k. k < length es \<and> ukey (es ! k) = uk}" by (intro card_mono) auto
  also have "\<dots> = length (filter (\<lambda>e. ukey e = uk) es)" by (simp add: length_filter_conv_card)
  finally show False using assms(2) far by simp
qed

lemma get_at_seq_layout:
  assumes r: "built es r" and few: "length (filter (\<lambda>e. ukey e = uk) es) \<le> 16"
  shows "get_by_user_key_with_value_range_at_seq r uk s =
    Ok (map_option (rng es) (find (\<lambda>j. ukey (es ! j) = uk \<and> eseq (es ! j) \<le> s) [0..<length es]))"
proof -
  have sorted: "entries_sorted es" and keys: "length (restart_keys r) = length (restarts r)"
    using r by (auto simp: built_def)
  let ?P = "\<lambda>j. ukey (es ! j) = uk \<and> eseq (es ! j) \<le> s"
  have near: "j < i + 16" if "find ?P [0..<length es] = Some j" "i < length es" "ukey (es ! i) = uk" for j i
    using that versions_close [OF sorted few] by (auto simp: find_Some_iff)
  have search: "restart_search r uk (linear_search_full_by_user_key_entry_at_seq r uk s)
      (\<lambda>i. linear_search_range_by_user_key_entry_at_seq r (restarts r ! i) uk s 0 [])
      (\<lambda>i. linear_search_from_restart_by_user_key_entry_at_seq r i uk s) =
      linear_search_full_by_user_key_entry_at_seq r uk s" if "restarts r \<noteq> []"
    by (rule restart_search_layout [OF r that _ near built_scans(2,4,6) [OF r]]) auto
  show ?thesis
  proof (cases "find (\<lambda>j. ukey (es ! j) = uk) [0..<length es]")
    case None
    then show ?thesis
      using search keys built_scans(2) [OF r] get_entry_layout [OF r, of uk]
      by (auto simp: get_by_user_key_with_value_range_at_seq_def)
  next
    case (Some j)
    then have j: "j < length es" "ukey (es ! j) = uk" "\<forall>i<j. ukey (es ! i) \<noteq> uk"
      by (auto simp: find_Some_iff)
    then have "find ?P [0..<length es] = Some j" if "eseq (es ! j) \<le> s"
      using that by (auto simp: find_Some_iff)
    then show ?thesis
      using Some search keys built_scans(2) [OF r] get_entry_layout [OF r, of uk]
      by (auto simp: get_by_user_key_with_value_range_at_seq_def rng_def)
  qed
qed

text \<open>
  (C12) A block answers a read at a sequence number correctly as long as it holds at most
  sixteen versions of the user key: \<open>get_by_user_key_with_value_range_at_seq\<close> then returns
  the newest version at or below \<open>read_seq\<close>, with its value, and nothing if there
  is none.
\<close>

theorem block_read_at_seq:
  assumes "blk_ok es" "length (filter (\<lambda>e. ukey e = uk) es) \<le> 16"
  shows "\<exists>r found. new_BlockReader (block_bytes (raw es)) = Ok r \<and>
    get_by_user_key_with_value_range_at_seq r uk s = Ok found \<and>
    Option.bind found (\<lambda>(ik, off, len). map_option (\<lambda>v. (ik, v)) (value_slice_to_vec r off len)) = visible uk s es"
proof -
  obtain r where r: "new_BlockReader (block_bytes (raw es)) = Ok r" "built es r"
    using new_BlockReader_built [OF assms(1)] by blast
  have rd: "reads (raw es) r" using r(2) by (simp add: built_def)
  let ?P = "\<lambda>j. ukey (es ! j) = uk \<and> eseq (es ! j) \<le> s"
  have "Option.bind (map_option (rng es) (find ?P [0..<length es]))
      (\<lambda>(ik, off, len). map_option (\<lambda>v. (ik, v)) (value_slice_to_vec r off len)) = visible uk s es"
  proof (cases "find ?P [0..<length es]")
    case (Some j)
    then have "j < length es" by (auto simp: find_Some_iff)
    from value_of_rng [OF rd this] show ?thesis
      using Some find_nth [of es "\<lambda>e. ukey e = uk \<and> eseq e \<le> s"] by (cases "rng es j") (auto simp: visible_def)
  qed (use find_nth [of es "\<lambda>e. ukey e = uk \<and> eseq e \<le> s"] in \<open>simp add: visible_def\<close>)
  with r(1) get_at_seq_layout [OF r(2) assms(2)] show ?thesis by blast
qed

theorem block_read_at_seq_witness:
  "blk_ok two_entries \<and> length (filter (\<lambda>e. ukey e = [97]) two_entries) \<le> 16 \<and>
   (\<exists>r. new_BlockReader (block_bytes (raw two_entries)) = Ok r \<and>
     is_ok (get_by_user_key_with_value_range_at_seq r [97] 1))"
proof -
  have few: "length (filter (\<lambda>e. ukey e = [97]) two_entries) \<le> 16" by (simp add: two_entries_def)
  show ?thesis using two_entries_ok few block_read_at_seq [OF two_entries_ok few, of 1] by auto
qed

text \<open>
  (C13) With more versions than that the block loses some of them for snapshot reads.  In a
  block of 17 to 31 versions of one key the second restart point carries the same user
  key; the lower bound is then restart 0, only its sixteen entries are scanned, and a
  read below their sequence numbers finds nothing, although the older versions of the
  key that it must see are in the block.
\<close>

theorem block_read_at_seq_misses_old_versions:
  assumes "blk_ok es" "16 < length es" "length es < 32" "list_all (\<lambda>e. ukey e = uk) es" "s < eseq (es ! 15)"
  shows "\<exists>r. new_BlockReader (block_bytes (raw es)) = Ok r \<and>
    get_by_user_key_with_value_range_at_seq r uk s = Ok None"
proof -
  obtain r where r: "new_BlockReader (block_bytes (raw es)) = Ok r" "built es r"
    using new_BlockReader_built [OF assms(1)] by blast
  have sorted: "entries_sorted es" and rs: "length (restarts r) = 2" "length (restart_keys r) = 2"
    using r(2) assms(2,3) by (auto simp: built_def restart_offs_def div_eq_dividend_iff)
  have uk: "ukey (es ! j) = uk" if "j < length es" for j using assms(4) that by (simp add: list_all_length)
  have hidden: "s < eseq (es ! j)" if "j < 16" for j
  proof (cases "j = 15")
    case False
    then have "epos (es ! j) < epos (es ! 15)" using that assms(2) by (intro entries_sorted_nth [OF sorted]) auto
    then have "eseq (es ! 15) < eseq (es ! j)" using uk [of j] uk [of 15] assms(2) that by (simp add: epos_less)
    then show ?thesis using assms(5) by (rule less_trans [rotated])
  qed (use assms(5) in simp)
  have first: "find (\<lambda>j. ukey (es ! j) = uk) [0..<length es] = Some 0"
  proof -
    have "ukey (es ! 0) = uk" using assms(2) by (intro uk) (cases es; simp)
    then show ?thesis using assms(2) by (subst find_upt_Suc) auto
  qed
  have eq: "restart_user_key_cmp r m uk = Some Equal" if "m < 2" for m
    using restart_cmp_layout [OF r(2), of m uk] that rs(1) uk [of "16 * m"] assms(2) by (auto simp: cmp_def less_2_cases_iff)
  have "restart_lower_bound r uk 0 2 = Some 0"
    by (subst restart_lower_bound.simps, subst restart_lower_bound.simps, subst restart_lower_bound.simps)
      (simp add: eq)
  then have "restart_search r uk full upto scan_from = scan_from 0" for full :: "value_range option result" and upto scan_from
    by (simp add: restart_search_def rs eq Let_def min_def)
  moreover have "linear_search_from_restart_by_user_key_entry_at_seq r 0 uk s = Ok None"
    using built_scans(6) [OF r(2), of 0 uk s] rs(1) assms(2) hidden
    by (auto simp: min_def find_None_iff linorder_not_le)
  ultimately have "get_by_user_key_with_value_range_at_seq r uk s = Ok None"
    using first hidden [of 0] rs get_entry_layout [OF r(2), of uk]
    by (cases "restarts r = []") (simp_all add: get_by_user_key_with_value_range_at_seq_def rng_def linorder_not_le)
  then show ?thesis using r(1) by blast
qed

definition seventeen_versions :: "entry list" where
  "seventeen_versions = map (\<lambda>i. (\<lparr> user_key = [97], encoded_sequence_number = of_nat (17 - i) * 256 + 1 \<rparr>, [7])) [0..<17]"

lemma blk_off_le:
  "(\<And>i. i < n \<Longrightarrow> length (fst (kvs ! i)) + length (snd (kvs ! i)) \<le> c) \<Longrightarrow> blk_off kvs n \<le> n * (30 + c)"
proof (induction n)
  case (Suc n)
  have "blk_off kvs n \<le> n * (30 + c)" using Suc by simp
  moreover have "length (blk_entry kvs n) \<le> 30 + c"
    using length_blk_entry_le [of kvs n] Suc.prems [of n] by simp
  ultimately show ?case by (simp add: blk_off_Suc)
qed simp

lemma seventeen_versions_seq: "i < 17 \<Longrightarrow> unat (eseq (seventeen_versions ! i)) = 17 - i"
proof -
  assume "i < 17"
  have "(17 - i) * 256 + 1 < (2 :: nat) ^ 64" using diff_le_self [of 17 i] by (simp add: mult_less_cancel2)
  then have "unat (of_nat ((17 - i) * 256 + 1) :: u64) = (17 - i) * 256 + 1"
    by (intro unat_of_nat_small) simp
  moreover have "(of_nat ((17 - i) * 256 + 1) :: u64) = of_nat (17 - i) * 256 + 1"
    unfolding of_nat_add of_nat_mult by simp
  ultimately have "unat (of_nat (17 - i) * 256 + 1 :: u64) = (17 - i) * 256 + 1" by metis
  then show ?thesis
    using \<open>i < 17\<close> by (simp add: seventeen_versions_def sequence_number_def unat_drop_bit del: of_nat_diff)
qed

theorem block_read_at_seq_misses_old_versions_witness:
  "blk_ok seventeen_versions \<and> visible [97] 1 seventeen_versions = Some (seventeen_versions ! 16) \<and>
   (\<exists>r. new_BlockReader (block_bytes (raw seventeen_versions)) = Ok r \<and>
     get_by_user_key_with_value_range_at_seq r [97] 1 = Ok None)"
proof -
  let ?es = seventeen_versions
  have len: "length ?es = 17" and ent: "i < 17 \<Longrightarrow> ukey (?es ! i) = [97] \<and> snd (?es ! i) = [7]" for i
    by (simp_all add: seventeen_versions_def)
  have sorted: "entries_sorted ?es"
    unfolding entries_sorted_def sorted_wrt_iff_nth_less
  proof (intro allI impI)
    fix i j assume "i < j" "j < length ?es"
    then show "epos (?es ! i) < epos (?es ! j)"
      using ent [of i] ent [of j] seventeen_versions_seq [of i] seventeen_versions_seq [of j]
      by (simp add: epos_less len word_less_nat_alt)
  qed
  have "list_all kv_small (raw ?es)" using ent by (simp add: list_all_length len kv_small_def serialize_def)
  moreover have "blk_off (raw ?es) 17 \<le> 17 * (30 + 10)"
    by (rule blk_off_le) (simp add: len ent serialize_def)
  ultimately have ok: "blk_ok ?es" using sorted by (simp add: blk_ok_def len)
  have s15: "1 < eseq (?es ! 15)" using seventeen_versions_seq [of 15] by (simp add: word_less_nat_alt)
  have "unat (eseq (?es ! 16)) = unat (1 :: u64)" using seventeen_versions_seq [of 16] by simp
  then have "eseq (?es ! 16) = 1" by (simp only: unsigned_word_eqI)
  then have "is_visible [97] 1 (set ?es) (?es ! 16)"
    using ent [of 16] nth_mem [of 16 ?es] by (simp add: is_visible_def len)
  then have "visible [97] 1 ?es = Some (?es ! 16)" using visible_is_visible [OF sorted] by blast
  moreover have "\<exists>r. new_BlockReader (block_bytes (raw ?es)) = Ok r \<and>
      get_by_user_key_with_value_range_at_seq r [97] 1 = Ok None"
    by (rule block_read_at_seq_misses_old_versions [OF ok]) (use ent s15 in \<open>simp_all add: len list_all_length\<close>)
  ultimately show ?thesis using ok by blast
qed

text \<open>
  (C25) Building an internal key and taking it apart are inverse.  \<open>new\<close> accepts exactly
  the 56-bit sequence numbers and panics on every other one; the key it builds returns the
  user key, sequence number and kind it was given; and every key with a valid kind byte is
  built from its own parts.  Serialization and \<open>decode_internal_key_slice\<close> are inverse: a
  byte string decodes to a key exactly if it is the serialized key, and is refused exactly if
  it is shorter than the trailer; the serialized key has the announced size.
\<close>

theorem internal_key_roundtrip:
  "(seq \<le> SEQUENCE_NUMBER_MAX) =
     (\<exists>k. new_InternalKey uk seq kd = Ok k \<and> user_key k = uk \<and> sequence_number k = seq \<and> kind k = Ok kd) \<and>
   (SEQUENCE_NUMBER_MAX < seq) =
     (new_InternalKey uk seq kd = Err (Panic ''Sequence number exceeds maximum value'')) \<and>
   (kind k' = Ok kd') = (new_InternalKey (user_key k') (sequence_number k') kd' = Ok k') \<and>
   (decode_internal_key_slice bs = Some k') = (bs = serialize k') \<and>
   (decode_internal_key_slice bs = None) = (length bs < 8) \<and>
   length (serialize k') = serialized_size k'"
proof -
  have "\<exists>k. new_InternalKey uk seq kd = Ok k" if "seq \<le> SEQUENCE_NUMBER_MAX"
    using that by (simp add: new_InternalKey_def linorder_not_less)
  then have "(seq \<le> SEQUENCE_NUMBER_MAX) =
     (\<exists>k. new_InternalKey uk seq kd = Ok k \<and> user_key k = uk \<and> sequence_number k = seq \<and> kind k = Ok kd)"
    by (metis new_InternalKey_Ok)
  moreover have "(SEQUENCE_NUMBER_MAX < seq) =
     (new_InternalKey uk seq kd = Err (Panic ''Sequence number exceeds maximum value''))"
    by (simp add: new_InternalKey_def)
  moreover have "(kind k' = Ok kd') = (new_InternalKey (user_key k') (sequence_number k') kd' = Ok k')"
    by (metis new_InternalKey_Ok(3) new_InternalKey_total)
  moreover have "(decode_internal_key_slice bs = Some k') = (bs = serialize k')"
    using serialize_decode by auto
  moreover have "(decode_internal_key_slice bs = None) = (length bs < 8)"
    by (simp add: decode_internal_key_slice_def Let_def)
  ultimately show ?thesis by simp
qed

end
