(* ===== verification/Compression.thy ===== *)
theory Compression
  imports Coding
begin

text \<open>
  \<open>storage/sstable/compression.rs\<close>: the block compression with its tag, and the
  run-length coder.  Runs are at most 255 long, so that they fit the length byte.
\<close>

datatype SstableBlockCompression = NoCompression | Rle

fun as_tag :: "SstableBlockCompression \<Rightarrow> u8" where
  "as_tag NoCompression = 0"
| "as_tag Rle = 1"

definition from_tag :: "u8 \<Rightarrow> SstableBlockCompression result" where
  "from_tag tag =
     (if tag = 0 then Ok NoCompression else if tag = 1 then Ok Rle
      else Err (Corruption ''sstable_block_compression'' ''unknown compression tag''))"

text \<open>The inner loop of \<open>rle_encode\<close>: extend a run of \<open>byte\<close>.\<close>

fun rle_run :: "u8 \<Rightarrow> nat \<Rightarrow> bytes \<Rightarrow> nat" where
  "rle_run byte run [] = run"
| "rle_run byte run (x # xs) = (if x = byte \<and> run < 255 then rle_run byte (run + 1) xs else run)"

function rle_encode :: "bytes \<Rightarrow> bytes" where
  "rle_encode [] = []"
| "rle_encode (byte # xs) =
     (let run = rle_run byte 1 xs in of_nat run # byte # rle_encode (drop (run - 1) xs))"
  by pat_completeness auto
termination by (relation "measure length") (auto simp: less_Suc_eq_le)

fun rle_decode_loop :: "nat \<Rightarrow> bytes \<Rightarrow> bytes \<Rightarrow> bytes result" where
  "rle_decode_loop expected out (r # byte # rest) =
     (let run = unat r in
      if run = 0 then Err (Corruption ''sstable_block_compression'' ''rle run length must be > 0'')
      else let new_len = length out + run in
        if expected < new_len
        then Err (Corruption ''sstable_block_compression'' ''rle expands beyond expected length'')
        else rle_decode_loop expected (out @ replicate run byte) rest)"
| "rle_decode_loop expected out _ =
     (if length out \<noteq> expected
      then Err (Corruption ''sstable_block_compression'' ''rle decoded length mismatch'')
      else Ok out)"

definition rle_decode :: "bytes \<Rightarrow> nat \<Rightarrow> bytes result" where
  "rle_decode input expected =
     (if length input mod 2 \<noteq> 0
      then Err (Corruption ''sstable_block_compression'' ''rle payload length is not even'')
      else rle_decode_loop expected [] input)"

fun compress :: "SstableBlockCompression \<Rightarrow> bytes \<Rightarrow> bytes" where
  "compress NoCompression input = input"
| "compress Rle input = rle_encode input"

fun decompress :: "SstableBlockCompression \<Rightarrow> bytes \<Rightarrow> nat \<Rightarrow> bytes result" where
  "decompress NoCompression input expected =
     (if length input \<noteq> expected
      then Err (Corruption ''sstable_block_compression'' ''none compression length mismatch'')
      else Ok input)"
| "decompress Rle input expected = rle_decode input expected"

section \<open>Round trip\<close>

lemma rle_run_range: "run \<le> 255 \<Longrightarrow> run \<le> rle_run b run xs \<and> rle_run b run xs \<le> 255"
  by (induction b run xs rule: rle_run.induct) (auto dest: le_SucI)

lemma rle_run_prefix:
  "xs = replicate (rle_run b run xs - run) b @ drop (rle_run b run xs - run) xs"
proof (induction b run xs rule: rle_run.induct)
  case (2 b run x xs)
  show ?case
  proof (cases "x = b \<and> run < 255")
    case True
    then have "rle_run b run (x # xs) - run = Suc (rle_run b (run + 1) xs - (run + 1))"
      using rle_run_range [of "run + 1" b xs] by auto
    then show ?thesis using 2 True by simp
  next
    case False
    then have "rle_run b run (x # xs) = run" by auto
    then show ?thesis by simp
  qed
qed simp

text \<open>One pair of the output: the run it stands for and the rest.\<close>

lemma rle_encode_step:
  obtains run rest where "1 \<le> run" "unat (of_nat run :: u8) = run" "b # xs = replicate run b @ rest"
    "rle_encode (b # xs) = of_nat run # b # rle_encode rest"
proof -
  define run where "run = rle_run b 1 xs"
  have r: "1 \<le> run" "run \<le> 255" using rle_run_range [of 1 b xs] by (auto simp: run_def)
  then obtain n where n: "run = Suc n" by (cases run) auto
  have "b # xs = replicate run b @ drop (run - 1) xs"
    using rle_run_prefix [of xs b 1, folded run_def] by (simp add: n)
  moreover have "unat (of_nat run :: u8) = run" using r by (intro unat_of_nat_small) simp
  moreover have "rle_encode (b # xs) = of_nat run # b # rle_encode (drop (run - 1) xs)"
    unfolding rle_encode.simps(2) run_def Let_def ..
  ultimately show thesis using that r(1) by blast
qed

lemma rle_decode_encode_loop:
  "length out + length input \<le> expected \<Longrightarrow>
   rle_decode_loop expected out (rle_encode input) = rle_decode_loop expected (out @ input) []"
proof (induction "length input" arbitrary: input out rule: less_induct)
  case less
  show ?case
  proof (cases input)
    case (Cons b xs)
    obtain run rest where r: "1 \<le> run" "unat (of_nat run :: u8) = run" "b # xs = replicate run b @ rest"
      "rle_encode (b # xs) = of_nat run # b # rle_encode rest" by (rule rle_encode_step)
    have len: "length input = run + length rest" using arg_cong [OF r(3), of length] Cons by simp
    have "rle_decode_loop expected out (rle_encode input) =
        rle_decode_loop expected (out @ replicate run b) (rle_encode rest)"
      using r(1,2) less.prems len by (simp add: Cons r(4) Let_def del: rle_encode.simps)
    also have "\<dots> = rle_decode_loop expected ((out @ replicate run b) @ rest) []"
      using less.hyps [of rest "out @ replicate run b"] r(1) len less.prems by simp
    finally show ?thesis using r(3) Cons by simp
  qed simp
qed

lemma rle_decode_encode_short:
  "expected < length out + length input \<Longrightarrow> length out \<le> expected \<Longrightarrow>
   \<not> is_ok (rle_decode_loop expected out (rle_encode input))"
proof (induction "length input" arbitrary: input out rule: less_induct)
  case less
  then obtain b xs where Cons: "input = b # xs" by (cases input) auto
  obtain run rest where r: "1 \<le> run" "unat (of_nat run :: u8) = run" "b # xs = replicate run b @ rest"
    "rle_encode (b # xs) = of_nat run # b # rle_encode rest" by (rule rle_encode_step)
  have len: "length input = run + length rest" using arg_cong [OF r(3), of length] Cons by simp
  show ?case
    using r(1,2) less.hyps [of rest "out @ replicate run b"] less.prems len
    by (simp add: Cons r(4) Let_def del: rle_encode.simps)
qed

lemma rle_encode_even: "even (length (rle_encode xs))"
  by (induction xs rule: rle_encode.induct) (auto simp: Let_def)

lemma rle_encode_length: "length (rle_encode xs) \<le> 2 * length xs"
proof (induction xs rule: rle_encode.induct)
  case (2 b xs)
  then show ?case by (simp add: Let_def)
qed simp

lemma decode_length: "decompress c input n = Ok out \<Longrightarrow> length out = n"
proof (cases c)
  case Rle
  have "rle_decode_loop n o' xs = Ok out \<Longrightarrow> length out = n" for o' xs
    by (induction n o' xs rule: rle_decode_loop.induct) (auto simp: Let_def split: if_splits)
  then show "decompress c input n = Ok out \<Longrightarrow> ?thesis"
    by (auto simp: Rle rle_decode_def split: if_splits)
qed (auto split: if_splits)

text \<open>
  (C24) Block compression is lossless.  For both codecs, the tag round-trips and
  decompressing the compressed bytes with the recorded length gives the input back;
  run-length coding at most doubles it.  Decompression with any other
  expected length is rejected, and whatever it accepts has the expected length.
\<close>

theorem compression_roundtrip:
  "from_tag (as_tag c) = Ok c \<and> decompress c (compress c input) (length input) = Ok input \<and>
   length (compress c input) \<le> 2 * length input \<and>
   (n \<noteq> length input \<longrightarrow> \<not> is_ok (decompress c (compress c input) n)) \<and>
   (\<forall>raw out. decompress c raw n = Ok out \<longrightarrow> length out = n)"
proof -
  have tag: "from_tag (as_tag c) = Ok c" by (cases c) (simp_all add: from_tag_def)
  have dec: "rle_decode (rle_encode input) m = rle_decode_loop m [] (rle_encode input)" for m
    using rle_encode_even [of input] by (simp add: rle_decode_def)
  have rt: "decompress c (compress c input) (length input) = Ok input"
    using rle_decode_encode_loop [of "[]" input "length input"] by (cases c) (simp_all add: dec)
  have "\<not> is_ok (decompress c (compress c input) n)" if "n \<noteq> length input"
    using that rle_decode_encode_loop [of "[]" input n] rle_decode_encode_short [of n "[]" input]
    by (cases c; cases "length input \<le> n") (simp_all add: dec)
  moreover have "length (compress c input) \<le> 2 * length input"
    using rle_encode_length [of input] by (cases c) simp_all
  ultimately show ?thesis
    using tag rt decode_length [of c] by blast
qed

theorem compression_roundtrip_witness:
  "compress Rle [7, 7, 7, 9] = [3, 7, 1, 9] \<and> \<not> is_ok (decompress Rle [3, 7, 1, 9] 5)"
proof -
  have c: "compress Rle [7, 7, 7, 9] = [3, 7, 1, 9]" by code_simp
  have "\<not> is_ok (decompress Rle (compress Rle [7, 7, 7, 9]) 5)"
    using compression_roundtrip [of Rle "[7, 7, 7, 9]" 5] by simp
  with c show ?thesis by simp
qed

end
