(* ===== verification/Bloom.thy ===== *)
theory Bloom
  imports Goat_Prelude
begin

text \<open>
  \<open>storage/sstable/bloom.rs\<close>: the Bloom filter builder and its query.  The 64-bit
  hash of the \<open>twox_hash\<close> crate is a parameter; the seven probe positions are derived
  from it with a rotation, and additions of the probe value wrap.
\<close>

definition bloom_lookup_key :: "bytes \<Rightarrow> nat \<Rightarrow> bytes" where
  "bloom_lookup_key key prefix_extractor_len =
     (if prefix_extractor_len = 0 \<or> length key \<le> prefix_extractor_len then key
      else take prefix_extractor_len key)"

record BloomBuilder =
  bitmap :: bytes
  bloom_k :: nat

definition bloom_with_capacity :: "nat \<Rightarrow> BloomBuilder" where
  "bloom_with_capacity n = \<lparr> bitmap = replicate n 0, bloom_k = 7 \<rparr>"

definition bloom_delta :: "u64 \<Rightarrow> u64" where
  "bloom_delta h = drop_bit 17 h OR push_bit 15 h"

definition set_bloom_bit :: "nat \<Rightarrow> bytes \<Rightarrow> bytes" where
  "set_bloom_bit bit_pos bm = bm[bit_pos div 8 := (bm ! (bit_pos div 8)) OR push_bit (bit_pos mod 8) 1]"

text \<open>The loop of \<open>add\<close>; a probe into an empty bitmap divides by zero.\<close>

fun bloom_add_loop :: "nat \<Rightarrow> u64 \<Rightarrow> u64 \<Rightarrow> bytes \<Rightarrow> bytes result" where
  "bloom_add_loop 0 h delta bm = Ok bm"
| "bloom_add_loop (Suc k) h delta bm =
     (let m = length bm * 8 in
      if m = 0 then Err (Panic ''attempt to calculate the remainder with a divisor of zero'')
      else bloom_add_loop k (h + delta) delta (set_bloom_bit (unat h mod m) bm))"

definition bloom_add :: "(bytes \<Rightarrow> u64) \<Rightarrow> bytes \<Rightarrow> BloomBuilder \<Rightarrow> BloomBuilder result" where
  "bloom_add hash key b =
     (let h = hash key in
      and_then (bloom_add_loop (bloom_k b) h (bloom_delta h) (bitmap b)) (\<lambda>bm.
      Ok (b \<lparr> bitmap := bm \<rparr>)))"

fun bloom_add_all :: "(bytes \<Rightarrow> u64) \<Rightarrow> bytes list \<Rightarrow> BloomBuilder \<Rightarrow> BloomBuilder result" where
  "bloom_add_all hash [] b = Ok b"
| "bloom_add_all hash (k # ks) b = and_then (bloom_add hash k b) (bloom_add_all hash ks)"

fun bloom_contains_loop :: "nat \<Rightarrow> u64 \<Rightarrow> u64 \<Rightarrow> bytes \<Rightarrow> bool" where
  "bloom_contains_loop 0 h delta bm \<longleftrightarrow> True"
| "bloom_contains_loop (Suc k) h delta bm \<longleftrightarrow>
     (let bit_pos = unat h mod (length bm * 8);
          byte_pos = bit_pos div 8;
          bit_mask = push_bit (bit_pos mod 8) 1
      in if (bm ! byte_pos) AND bit_mask = 0 then False
         else bloom_contains_loop k (h + delta) delta bm)"

definition bloom_contains :: "(bytes \<Rightarrow> u64) \<Rightarrow> bytes \<Rightarrow> bytes \<Rightarrow> bool" where
  "bloom_contains hash key bm \<longleftrightarrow>
     (if bm = [] then True
      else let h = hash key in bloom_contains_loop 7 h (bloom_delta h) bm)"

section \<open>Bits only ever get set\<close>

definition bloom_bit :: "bytes \<Rightarrow> nat \<Rightarrow> bool" where
  "bloom_bit bm i \<longleftrightarrow> i < length bm * 8 \<and> bit (bm ! (i div 8)) (i mod 8)"

lemma length_set_bloom_bit [simp]: "length (set_bloom_bit i bm) = length bm"
  by (simp add: set_bloom_bit_def)

lemma set_bloom_bit_bit:
  "i < length bm * 8 \<Longrightarrow> bloom_bit (set_bloom_bit i bm) j \<longleftrightarrow> bloom_bit bm j \<or> i = j"
proof -
  assume i: "i < length bm * 8"
  have b: "bit (push_bit (i mod 8) (1 :: u8)) (j mod 8) \<longleftrightarrow> i mod 8 = j mod 8"
    by (auto simp: bit_exp_iff possible_bit_def)
  have "i = j \<longleftrightarrow> i div 8 = j div 8 \<and> i mod 8 = j mod 8"
    by (metis mod_mult_div_eq)
  then show ?thesis
    using i b by (auto simp: bloom_bit_def set_bloom_bit_def nth_list_update bit_or_iff)
qed

text \<open>The probe positions of a key.\<close>

fun bloom_probes :: "nat \<Rightarrow> u64 \<Rightarrow> u64 \<Rightarrow> nat \<Rightarrow> nat list" where
  "bloom_probes 0 h delta m = []"
| "bloom_probes (Suc k) h delta m = unat h mod m # bloom_probes k (h + delta) delta m"

lemma bloom_add_loop_bits:
  "bm \<noteq> [] \<Longrightarrow> \<exists>bm'. bloom_add_loop k h delta bm = Ok bm' \<and> length bm' = length bm \<and>
     (\<forall>j. bloom_bit bm' j \<longleftrightarrow> bloom_bit bm j \<or> j \<in> set (bloom_probes k h delta (length bm * 8)))"
proof (induction k arbitrary: h bm)
  case (Suc k)
  let ?i = "unat h mod (length bm * 8)"
  have i: "?i < length bm * 8" using Suc.prems by (intro mod_less_divisor) auto
  have "set_bloom_bit ?i bm \<noteq> []" using Suc.prems by (metis length_set_bloom_bit length_0_conv)
  from Suc.IH [OF this, of "h + delta"] show ?case
    using i Suc.prems by (auto simp: Let_def set_bloom_bit_bit)
qed simp

lemma bloom_contains_loop_bits:
  "bm \<noteq> [] \<Longrightarrow> bloom_contains_loop k h delta bm \<longleftrightarrow>
     (\<forall>j\<in>set (bloom_probes k h delta (length bm * 8)). bloom_bit bm j)"
  by (induction k arbitrary: h) (auto simp: Let_def and_exp_eq_0_iff_not_bit bloom_bit_def)

lemma bloom_contains_bits:
  "bm \<noteq> [] \<Longrightarrow> bloom_contains hash key bm \<longleftrightarrow>
     (\<forall>j\<in>set (bloom_probes 7 (hash key) (bloom_delta (hash key)) (length bm * 8)). bloom_bit bm j)"
  by (simp add: bloom_contains_def Let_def bloom_contains_loop_bits)

lemma bloom_add_all_bits:
  "bitmap b \<noteq> [] \<Longrightarrow> bloom_k b = 7 \<Longrightarrow>
   \<exists>b'. bloom_add_all hash ks b = Ok b' \<and> length (bitmap b') = length (bitmap b) \<and> bloom_k b' = 7 \<and>
     (\<forall>j. bloom_bit (bitmap b') j \<longleftrightarrow> bloom_bit (bitmap b) j \<or>
        (\<exists>k\<in>set ks. j \<in> set (bloom_probes 7 (hash k) (bloom_delta (hash k)) (length (bitmap b) * 8))))"
proof (induction ks arbitrary: b)
  case (Cons k ks)
  obtain bm where bm: "bloom_add_loop 7 (hash k) (bloom_delta (hash k)) (bitmap b) = Ok bm"
      "length bm = length (bitmap b)"
      "\<And>j. bloom_bit bm j \<longleftrightarrow> bloom_bit (bitmap b) j \<or>
        j \<in> set (bloom_probes 7 (hash k) (bloom_delta (hash k)) (length (bitmap b) * 8))"
    using bloom_add_loop_bits [OF Cons.prems(1)] by metis
  have "bm \<noteq> []" using bm(2) Cons.prems(1) by auto
  then obtain b' where "bloom_add_all hash ks (b \<lparr> bitmap := bm \<rparr>) = Ok b'"
      "length (bitmap b') = length bm" "bloom_k b' = 7"
      "\<And>j. bloom_bit (bitmap b') j \<longleftrightarrow> bloom_bit bm j \<or>
        (\<exists>k\<in>set ks. j \<in> set (bloom_probes 7 (hash k) (bloom_delta (hash k)) (length bm * 8)))"
    using Cons.IH [of "b \<lparr> bitmap := bm \<rparr>"] Cons.prems(2) by auto
  with bm Cons.prems(2) show ?case by (auto simp: bloom_add_def Let_def)
qed simp

lemma bloom_bit_replicate [simp]: "\<not> bloom_bit (replicate n 0) j"
  by (auto simp: bloom_bit_def)

text \<open>
  (C21) A Bloom filter has no false negatives and answers from the set bits only.  For every
  hash function and every non-empty bitmap size, adding keys never fails; the filter then
  accepts every added key, and it accepts a key exactly when all its probe positions
  are probe positions of added keys.
\<close>

theorem bloom_no_false_negatives:
  assumes "0 < n"
  shows "\<exists>b. bloom_add_all hash ks (bloom_with_capacity n) = Ok b \<and>
    list_all (\<lambda>k. bloom_contains hash k (bitmap b)) ks \<and>
    (bloom_contains hash key (bitmap b) \<longleftrightarrow>
      (\<forall>j\<in>set (bloom_probes 7 (hash key) (bloom_delta (hash key)) (n * 8)).
        \<exists>k\<in>set ks. j \<in> set (bloom_probes 7 (hash k) (bloom_delta (hash k)) (n * 8))))"
proof -
  have "bitmap (bloom_with_capacity n) \<noteq> []" "bloom_k (bloom_with_capacity n) = 7"
    using assms by (simp_all add: bloom_with_capacity_def)
  then obtain b where b: "bloom_add_all hash ks (bloom_with_capacity n) = Ok b"
      "length (bitmap b) = length (bitmap (bloom_with_capacity n))"
      "\<And>j. bloom_bit (bitmap b) j \<longleftrightarrow> bloom_bit (bitmap (bloom_with_capacity n)) j \<or>
        (\<exists>k\<in>set ks. j \<in> set (bloom_probes 7 (hash k) (bloom_delta (hash k)) (length (bitmap (bloom_with_capacity n)) * 8)))"
    using bloom_add_all_bits [of "bloom_with_capacity n" hash ks] by blast
  have len: "length (bitmap b) = n" and ne: "bitmap b \<noteq> []"
    using b(2) assms by (auto simp: bloom_with_capacity_def)
  have bits: "bloom_bit (bitmap b) j \<longleftrightarrow>
      (\<exists>k\<in>set ks. j \<in> set (bloom_probes 7 (hash k) (bloom_delta (hash k)) (n * 8)))" for j
    using b(3) by (simp add: bloom_with_capacity_def)
  show ?thesis
    using b(1) by (auto simp: bloom_contains_bits [OF ne] len bits list_all_iff)
qed

theorem bloom_no_false_negatives_witness:
  "0 < (2::nat) \<and> (\<exists>b. bloom_add_all (\<lambda>k. of_nat (length k) * 0x9E3779B97F4A7C15) [[1], [2, 3]] (bloom_with_capacity 2) = Ok b \<and>
     bloom_contains (\<lambda>k. of_nat (length k) * 0x9E3779B97F4A7C15) [2, 3] (bitmap b))"
  using bloom_no_false_negatives [of 2 "\<lambda>k. of_nat (length k) * 0x9E3779B97F4A7C15" "[[1], [2, 3]]" "[]"]
  by auto

end
