(* ===== verification/Sstable_Builder.thy ===== *)
theory Sstable_Builder
  imports Block_Lookup Compression Bloom
begin

text \<open>
  \<open>storage/sstable/builder.rs\<close>: data blocks with checksums, one Bloom partition per data
  block, the index block and the footer.  The file is the byte string written so far.
  Parameters are the 64-bit hash of the Bloom filter, the CRC of \<open>crc32fast\<close>, and
  \<open>io\<close>, which says which labelled system call fails.  The file offset is a natural
  number; it stays below \<open>2^64\<close> for any real file.
\<close>

definition MAGIC_NUMBER :: u64 where "MAGIC_NUMBER = 0x706A725F676F6174"
definition BLOCK_CHECKSUM_SIZE :: nat where "BLOCK_CHECKSUM_SIZE = 4"
definition FOOTER_SIZE :: nat where "FOOTER_SIZE = 48"
definition FOOTER_PADDING_BYTES :: nat where "FOOTER_PADDING_BYTES = 40"
definition FOOTER_FORMAT_MARKER :: bytes where "FOOTER_FORMAT_MARKER = [0x47, 0x4B, 0x46, 0x56]"
definition FOOTER_FORMAT_METADATA_SIZE :: nat where "FOOTER_FORMAT_METADATA_SIZE = 8"
definition SSTABLE_FORMAT_VERSION_BASELINE :: u8 where "SSTABLE_FORMAT_VERSION_BASELINE = 1"
definition SSTABLE_FORMAT_VERSION_BLOCK_COMPRESSION :: u8 where "SSTABLE_FORMAT_VERSION_BLOCK_COMPRESSION = 2"
definition SSTABLE_FORMAT_VERSION_CURRENT :: u8 where
  "SSTABLE_FORMAT_VERSION_CURRENT = SSTABLE_FORMAT_VERSION_BLOCK_COMPRESSION"
definition BLOCK_COMPRESSION_HEADER_SIZE :: nat where "BLOCK_COMPRESSION_HEADER_SIZE = 5"
definition PARTITIONED_BLOOM_MAGIC :: bytes where "PARTITIONED_BLOOM_MAGIC = [0x47, 0x42, 0x50, 0x46]"
definition PARTITIONED_BLOOM_VERSION :: u8 where "PARTITIONED_BLOOM_VERSION = 1"
definition PARTITIONED_BLOOM_HEADER_SIZE :: nat where "PARTITIONED_BLOOM_HEADER_SIZE = 11"
definition PARTITIONED_BLOOM_INDEX_ENTRY_SIZE :: nat where "PARTITIONED_BLOOM_INDEX_ENTRY_SIZE = 16"

record TableProperties =
  tp_file_size :: u64
  tp_smallest_key :: bytes
  tp_largest_key :: bytes
  tp_smallest_seqno :: u64
  tp_largest_seqno :: u64

record SSTableBuilder =
  sst_writer :: "bytes option"
  data_block_builder :: BlockBuilder
  index_block_builder :: BlockBuilder
  bloom_builder :: BloomBuilder
  bloom_partitions :: "bytes list"
  bloom_prefix_extractor_len :: nat
  block_compression :: SstableBlockCompression
  sst_offset :: nat
  sb_smallest_key :: "bytes option"
  sb_largest_key :: "bytes option"
  sb_smallest_seqno :: "u64 option"
  sb_largest_seqno :: "u64 option"

definition new_SSTableBuilder :: "(string \<Rightarrow> bool) \<Rightarrow> nat \<Rightarrow> SstableBlockCompression \<Rightarrow> SSTableBuilder result" where
  "new_SSTableBuilder io prefix_len compression =
     (if io ''sstable_open_tmp'' then Err (Io ''sstable_open_tmp'')
      else Ok \<lparr> sst_writer = Some [], data_block_builder = new_BlockBuilder,
        index_block_builder = new_BlockBuilder, bloom_builder = bloom_with_capacity 1024,
        bloom_partitions = [], bloom_prefix_extractor_len = min prefix_len 65535,
        block_compression = compression, sst_offset = 0, sb_smallest_key = None, sb_largest_key = None,
        sb_smallest_seqno = None, sb_largest_seqno = None \<rparr>)"

definition writer_write_all :: "(string \<Rightarrow> bool) \<Rightarrow> string \<Rightarrow> bytes \<Rightarrow> SSTableBuilder \<Rightarrow> SSTableBuilder result" where
  "writer_write_all io op bs b =
     (case sst_writer b of
        None \<Rightarrow> Err (Internal ''sstable_builder'' ''SSTable writer missing'')
      | Some f \<Rightarrow> if io op then Err (Io op) else Ok (b \<lparr> sst_writer := Some (f @ bs) \<rparr>))"

definition parse_seqno_from_internal_key :: "bytes \<Rightarrow> u64 result" where
  "parse_seqno_from_internal_key key =
     (if length key < 8
      then Err (InvalidArgument ''sstable_key'' ''internal key must contain at least 8-byte trailer'')
      else Ok (drop_bit 8 (NOT (from_be (drop (length key - 8) key) :: u64))))"

definition footer_format_version :: "SstableBlockCompression \<Rightarrow> u8" where
  "footer_format_version c =
     (case c of NoCompression \<Rightarrow> SSTABLE_FORMAT_VERSION_BASELINE | _ \<Rightarrow> SSTABLE_FORMAT_VERSION_CURRENT)"

definition encode_block_payload :: "SstableBlockCompression \<Rightarrow> bytes \<Rightarrow> bytes result" where
  "encode_block_payload c block_content =
     (if c = NoCompression then Ok block_content
      else if 2 ^ 32 \<le> length block_content
      then Err (Corruption ''sstable_write_block_payload'' ''block size exceeds max encodable u32 length'')
      else
        let compressed = compress c block_content;
            (compression, encoded) =
              (if length compressed < length block_content then (c, compressed) else (NoCompression, block_content))
        in Ok (as_tag compression # u32_le (of_nat (length block_content)) @ encoded))"

definition write_block_with_checksum ::
  "(bytes \<Rightarrow> u32) \<Rightarrow> (string \<Rightarrow> bool) \<Rightarrow> bytes \<Rightarrow> string \<Rightarrow> SSTableBuilder \<Rightarrow> (nat \<times> SSTableBuilder) result" where
  "write_block_with_checksum crc io block_content io_stage b =
     and_then (encode_block_payload (block_compression b) block_content) (\<lambda>payload.
     and_then (writer_write_all io io_stage payload b) (\<lambda>b1.
     and_then (writer_write_all io ''sstable_write_block_checksum'' (u32_le (crc payload)) b1) (\<lambda>b2.
     let written_bytes = length payload + BLOCK_CHECKSUM_SIZE
     in Ok (written_bytes, b2 \<lparr> sst_offset := sst_offset b2 + written_bytes \<rparr>))))"

definition finalize_current_bloom_partition :: "SSTableBuilder \<Rightarrow> SSTableBuilder" where
  "finalize_current_bloom_partition b =
     b \<lparr> bloom_builder := bloom_with_capacity 1024,
         bloom_partitions := bloom_partitions b @ [bitmap (bloom_builder b)] \<rparr>"

definition compute_separator :: "bytes \<Rightarrow> bytes \<Rightarrow> bytes" where
  "compute_separator lastk key =
     (let min_len = min (length lastk) (length key);
          diff_index = compute_shared lastk key
      in if min_len \<le> diff_index then lastk
         else
           let last_byte = lastk ! diff_index;
               next_byte = key ! diff_index
           in if last_byte < 0xFF \<and> last_byte + 1 < next_byte
              then take diff_index lastk @ [last_byte + 1]
              else lastk)"

text \<open>The value of an index entry: offset and size of a data block.\<close>

definition index_value :: "nat \<Rightarrow> nat \<Rightarrow> bytes" where
  "index_value block_offset block_size =
     put_varint64 (put_varint64 [] (of_nat block_offset)) (of_nat block_size)"

definition finish_data_block ::
  "(bytes \<Rightarrow> u32) \<Rightarrow> (string \<Rightarrow> bool) \<Rightarrow> bytes \<Rightarrow> SSTableBuilder \<Rightarrow> SSTableBuilder result" where
  "finish_data_block crc io key b =
     (let ((block_content, lastk), _) = bb_finish (data_block_builder b);
          separator_user_key = compute_separator (take (length lastk - 8) lastk) (take (length key - 8) key)
      in and_then (new_separator separator_user_key) (\<lambda>separator.
         let block_offset = sst_offset b
         in and_then (write_block_with_checksum crc io block_content ''sstable_write_data_block'' b) (\<lambda>(block_size, b1).
         let b2 = b1 \<lparr> index_block_builder :=
               bb_add (serialize separator) (index_value block_offset block_size) (index_block_builder b1) \<rparr>;
             b3 = finalize_current_bloom_partition b2
         in Ok (b3 \<lparr> data_block_builder := bb_reset (data_block_builder b3) \<rparr>))))"

definition sst_write ::
  "(bytes \<Rightarrow> u64) \<Rightarrow> (bytes \<Rightarrow> u32) \<Rightarrow> (string \<Rightarrow> bool) \<Rightarrow> bytes \<Rightarrow> bytes \<Rightarrow> SSTableBuilder \<Rightarrow> SSTableBuilder result" where
  "sst_write hash crc io key v b =
     and_then (parse_seqno_from_internal_key key) (\<lambda>seqno.
     let b1 = b \<lparr> sb_smallest_seqno := Some (case sb_smallest_seqno b of None \<Rightarrow> seqno | Some cur \<Rightarrow> min cur seqno),
                  sb_largest_seqno := Some (case sb_largest_seqno b of None \<Rightarrow> seqno | Some cur \<Rightarrow> max cur seqno),
                  sb_smallest_key := (case sb_smallest_key b of None \<Rightarrow> Some key | Some k \<Rightarrow> Some k),
                  sb_largest_key := Some key \<rparr>
     in and_then (if bb_should_finish (data_block_builder b1) then finish_data_block crc io key b1 else Ok b1) (\<lambda>b2.
        let b3 = b2 \<lparr> data_block_builder := bb_add key v (data_block_builder b2) \<rparr>;
            uk = take (length key - 8) key
        in and_then (bloom_add hash (bloom_lookup_key uk (bloom_prefix_extractor_len b3)) (bloom_builder b3)) (\<lambda>bloom.
           Ok (b3 \<lparr> bloom_builder := bloom \<rparr>))))"

fun bloom_index :: "nat \<Rightarrow> bytes list \<Rightarrow> bytes" where
  "bloom_index running_offset [] = []"
| "bloom_index running_offset (p # ps) =
     u64_le (of_nat running_offset) @ u64_le (of_nat (length p)) @ bloom_index (running_offset + length p) ps"

definition encode_partitioned_bloom_section :: "nat \<Rightarrow> bytes list \<Rightarrow> bytes" where
  "encode_partitioned_bloom_section prefix_len partitions =
     (let data_start = PARTITIONED_BLOOM_HEADER_SIZE + PARTITIONED_BLOOM_INDEX_ENTRY_SIZE * length partitions
      in PARTITIONED_BLOOM_MAGIC @ [PARTITIONED_BLOOM_VERSION] @ u16_le (of_nat prefix_len) @
         u32_le (of_nat (length partitions)) @ bloom_index data_start partitions @ concat partitions)"

text \<open>The last data block, if the builder says that there is one.\<close>

definition finish_last_block ::
  "(bytes \<Rightarrow> u32) \<Rightarrow> (string \<Rightarrow> bool) \<Rightarrow> SSTableBuilder \<Rightarrow> SSTableBuilder result" where
  "finish_last_block crc io b =
     (if bb_empty (data_block_builder b) then Ok b
      else
        let ((block_content, lastk), _) = bb_finish (data_block_builder b);
            block_offset = sst_offset b
        in and_then (write_block_with_checksum crc io block_content ''sstable_write_last_data_block'' b) (\<lambda>(block_size, b1).
           let b2 = finalize_current_bloom_partition b1;
               b3 = b2 \<lparr> index_block_builder :=
                 bb_add lastk (index_value block_offset block_size) (index_block_builder b2) \<rparr>
           in Ok (b3 \<lparr> data_block_builder := bb_reset (data_block_builder b3) \<rparr>)))"

definition footer_padding :: "SstableBlockCompression \<Rightarrow> nat \<Rightarrow> bytes" where
  "footer_padding c n =
     (if FOOTER_FORMAT_METADATA_SIZE \<le> n
      then FOOTER_FORMAT_MARKER @ [footer_format_version c] @ replicate (n - 5) 0
      else replicate n 0)"

text \<open>\<open>finish\<close>: the properties of the table and the contents of the renamed file.\<close>

definition sst_finish ::
  "(bytes \<Rightarrow> u32) \<Rightarrow> (string \<Rightarrow> bool) \<Rightarrow> SSTableBuilder \<Rightarrow> (TableProperties \<times> bytes) result" where
  "sst_finish crc io b =
     and_then (finish_last_block crc io b) (\<lambda>b1.
     let bloom_section = encode_partitioned_bloom_section (bloom_prefix_extractor_len b1) (bloom_partitions b1)
     in and_then (writer_write_all io ''sstable_write_bloom'' bloom_section b1) (\<lambda>b2.
     let bloom_offset = sst_offset b2;
         b3 = b2 \<lparr> sst_offset := sst_offset b2 + length bloom_section \<rparr>;
         ((block_content, _), _) = bb_finish (index_block_builder b3);
         index_offset = sst_offset b3
     in and_then (write_block_with_checksum crc io block_content ''sstable_write_index'' b3) (\<lambda>(_, b4).
     let bloom_offset_bytes = encode_varint64 (of_nat bloom_offset);
         index_offset_bytes = encode_varint64 (of_nat index_offset)
     in and_then (writer_write_all io ''sstable_write_footer_bloom_offset'' bloom_offset_bytes b4) (\<lambda>b5.
        and_then (writer_write_all io ''sstable_write_footer_index_offset'' index_offset_bytes b5) (\<lambda>b6.
        let used = length bloom_offset_bytes + length index_offset_bytes
        in if FOOTER_PADDING_BYTES < used
           then Err (Corruption ''sstable_write_footer_padding'' ''footer varint offsets exceed fixed footer size'')
           else
             and_then (writer_write_all io ''sstable_write_footer_padding''
               (footer_padding (block_compression b6) (FOOTER_PADDING_BYTES - used)) b6) (\<lambda>b7.
             and_then (writer_write_all io ''sstable_write_footer_magic'' (u64_le MAGIC_NUMBER) b7) (\<lambda>b8.
             let final_size = sst_offset b8 + FOOTER_SIZE
             in case sst_writer b8 of
                  None \<Rightarrow> Err (Internal ''sstable_builder'' ''SSTable writer missing'')
                | Some contents \<Rightarrow>
                    if io ''sstable_flush'' then Err (Io ''sstable_flush'')
                    else if io ''sstable_sync_data'' then Err (Io ''sstable_sync_data'')
                    else if io ''sstable_rename_tmp'' then Err (Io ''sstable_rename_tmp'')
                    else if io ''sstable_sync_dir_open'' then Err (Io ''sstable_sync_dir_open'')
                    else if io ''sstable_sync_dir_sync_all'' then Err (Io ''sstable_sync_dir_sync_all'')
                    else Ok (\<lparr> tp_file_size = of_nat final_size,
                      tp_smallest_key = (case sb_smallest_key b8 of None \<Rightarrow> [] | Some k \<Rightarrow> k),
                      tp_largest_key = (case sb_largest_key b8 of None \<Rightarrow> [] | Some k \<Rightarrow> k),
                      tp_smallest_seqno = (case sb_smallest_seqno b8 of None \<Rightarrow> 0 | Some s \<Rightarrow> s),
                      tp_largest_seqno = (case sb_largest_seqno b8 of None \<Rightarrow> 0 | Some s \<Rightarrow> s) \<rparr>, contents))))))))"

text \<open>A table built from entries, as flush and compaction do it.\<close>

fun sst_write_all ::
  "(bytes \<Rightarrow> u64) \<Rightarrow> (bytes \<Rightarrow> u32) \<Rightarrow> (string \<Rightarrow> bool) \<Rightarrow> entry list \<Rightarrow> SSTableBuilder \<Rightarrow> SSTableBuilder result" where
  "sst_write_all hash crc io [] b = Ok b"
| "sst_write_all hash crc io ((k, v) # es) b = and_then (sst_write hash crc io (serialize k) v b) (sst_write_all hash crc io es)"

definition sst_build ::
  "(bytes \<Rightarrow> u64) \<Rightarrow> (bytes \<Rightarrow> u32) \<Rightarrow> (string \<Rightarrow> bool) \<Rightarrow> nat \<Rightarrow> SstableBlockCompression \<Rightarrow> entry list \<Rightarrow>
   (TableProperties \<times> bytes) result" where
  "sst_build hash crc io prefix_len c es =
     and_then (new_SSTableBuilder io prefix_len c) (\<lambda>b.
     and_then (sst_write_all hash crc io es b) (sst_finish crc io))"

end
