(* ===== verification/Version_Edit.thy ===== *)
theory Version_Edit
  imports Wal_Format Sstable_Builder
begin

text \<open>
  \<open>metadata/version_edit.rs\<close>: one change of the set of tables, and its encoding for the
  manifest.  Levels are natural numbers (\<open>usize\<close>), written as varints.  The set
  \<open>deleted_files\<close> is the list of its members in iteration order, which the code leaves
  unspecified.  A string is its UTF-8 bytes.
\<close>

definition TAG_COMPARATOR :: u32 where "TAG_COMPARATOR = 1"
definition TAG_LOG_NUMBER :: u32 where "TAG_LOG_NUMBER = 2"
definition TAG_NEXT_FILE_NUMBER :: u32 where "TAG_NEXT_FILE_NUMBER = 3"
definition TAG_LAST_SEQUENCE :: u32 where "TAG_LAST_SEQUENCE = 4"
definition TAG_COMPACT_POINTER :: u32 where "TAG_COMPACT_POINTER = 5"
definition TAG_DELETED_FILE :: u32 where "TAG_DELETED_FILE = 6"
definition TAG_NEW_FILE :: u32 where "TAG_NEW_FILE = 7"
definition TAG_NEW_FILE_V2 :: u32 where "TAG_NEW_FILE_V2 = 8"
definition TAG_FORMAT_VERSION :: u32 where "TAG_FORMAT_VERSION = 9"

definition MANIFEST_FORMAT_VERSION_LEGACY :: u32 where "MANIFEST_FORMAT_VERSION_LEGACY = 0"
definition MANIFEST_FORMAT_VERSION_CURRENT :: u32 where "MANIFEST_FORMAT_VERSION_CURRENT = 1"

record NewFile =
  nf_file_id :: u64
  nf_props :: TableProperties

definition new_NewFile :: "u64 \<Rightarrow> u64 \<Rightarrow> bytes \<Rightarrow> bytes \<Rightarrow> u64 \<Rightarrow> u64 \<Rightarrow> NewFile" where
  "new_NewFile file_id file_size smallest largest smallest_seq largest_seq =
     \<lparr> nf_file_id = file_id, nf_props = \<lparr> tp_file_size = file_size, tp_smallest_key = smallest,
         tp_largest_key = largest, tp_smallest_seqno = smallest_seq, tp_largest_seqno = largest_seq \<rparr> \<rparr>"

record VersionEdit =
  edit_format_version :: "u32 option"
  comparator_name :: "bytes option"
  edit_log_number :: "u64 option"
  edit_next_file_number :: "u64 option"
  edit_last_sequence :: "u64 option"
  edit_compact_pointers :: "(nat \<times> bytes) list"
  deleted_files :: "(nat \<times> u64) list"
  new_files :: "(nat \<times> NewFile) list"

definition new_VersionEdit :: VersionEdit where
  "new_VersionEdit = \<lparr> edit_format_version = None, comparator_name = None, edit_log_number = None,
     edit_next_file_number = None, edit_last_sequence = None, edit_compact_pointers = [], deleted_files = [],
     new_files = [] \<rparr>"

definition delete_file :: "nat \<Rightarrow> u64 \<Rightarrow> VersionEdit \<Rightarrow> VersionEdit" where
  "delete_file level file_id e =
     e \<lparr> deleted_files := (if (level, file_id) \<in> set (deleted_files e) then deleted_files e
           else deleted_files e @ [(level, file_id)]) \<rparr>"

definition set_compact_pointer :: "nat \<Rightarrow> bytes \<Rightarrow> VersionEdit \<Rightarrow> VersionEdit" where
  "set_compact_pointer level key e = e \<lparr> edit_compact_pointers := edit_compact_pointers e @ [(level, key)] \<rparr>"

definition add_file :: "nat \<Rightarrow> NewFile \<Rightarrow> VersionEdit \<Rightarrow> VersionEdit" where
  "add_file level nf e = e \<lparr> new_files := new_files e @ [(level, nf)] \<rparr>"

section \<open>Encoding\<close>

definition put_tag :: "u32 \<Rightarrow> bytes \<Rightarrow> bytes" where
  "put_tag tag buf = put_varint64 buf (ucast tag)"

definition put_opt :: "u32 \<Rightarrow> u64 option \<Rightarrow> bytes \<Rightarrow> bytes" where
  "put_opt tag v buf = (case v of None \<Rightarrow> buf | Some x \<Rightarrow> put_varint64 (put_tag tag buf) x)"

definition put_compact_pointer :: "nat \<times> bytes \<Rightarrow> bytes \<Rightarrow> bytes" where
  "put_compact_pointer = (\<lambda>(level, key) buf.
     put_length_prefixed_slice (put_varint64 (put_tag TAG_COMPACT_POINTER buf) (of_nat level)) key)"

definition put_deleted_file :: "nat \<times> u64 \<Rightarrow> bytes \<Rightarrow> bytes" where
  "put_deleted_file = (\<lambda>(level, file_id) buf.
     put_varint64 (put_varint64 (put_tag TAG_DELETED_FILE buf) (of_nat level)) file_id)"

definition put_new_file :: "nat \<times> NewFile \<Rightarrow> bytes \<Rightarrow> bytes" where
  "put_new_file = (\<lambda>(level, meta) buf.
     let p = nf_props meta;
         buf = put_varint64 (put_varint64 (put_varint64 (put_tag TAG_NEW_FILE_V2 buf) (of_nat level))
                 (nf_file_id meta)) (tp_file_size p);
         buf = put_length_prefixed_slice (put_length_prefixed_slice buf (tp_smallest_key p)) (tp_largest_key p)
     in put_varint64 (put_varint64 buf (tp_smallest_seqno p)) (tp_largest_seqno p))"

definition encode_edit :: "VersionEdit \<Rightarrow> bytes" where
  "encode_edit e =
     (let buf = put_opt TAG_FORMAT_VERSION (map_option ucast (edit_format_version e)) [];
          buf = (case comparator_name e of None \<Rightarrow> buf
                 | Some name \<Rightarrow> put_length_prefixed_slice (put_tag TAG_COMPARATOR buf) name);
          buf = put_opt TAG_LOG_NUMBER (edit_log_number e) buf;
          buf = put_opt TAG_NEXT_FILE_NUMBER (edit_next_file_number e) buf;
          buf = put_opt TAG_LAST_SEQUENCE (edit_last_sequence e) buf;
          buf = fold put_compact_pointer (edit_compact_pointers e) buf;
          buf = fold put_deleted_file (deleted_files e) buf
      in fold put_new_file (new_files e) buf)"

section \<open>Decoding\<close>

text \<open>
  \<open>String::from_utf8_lossy\<close>: \<open>utf8_step\<close> says whether the first character is well
  formed, and how many bytes it, or the ill-formed sequence in its place, takes.
\<close>

definition utf8_cont :: "u8 \<Rightarrow> bool" where "utf8_cont b \<longleftrightarrow> 0x80 \<le> b \<and> b \<le> 0xBF"

definition utf8_second :: "u8 \<Rightarrow> u8 \<Rightarrow> bool" where
  "utf8_second first b \<longleftrightarrow>
     (if first = 0xE0 then 0xA0 \<le> b \<and> b \<le> 0xBF
      else if first = 0xED then 0x80 \<le> b \<and> b \<le> 0x9F
      else if first = 0xF0 then 0x90 \<le> b \<and> b \<le> 0xBF
      else if first = 0xF4 then 0x80 \<le> b \<and> b \<le> 0x8F
      else utf8_cont b)"

definition utf8_width :: "u8 \<Rightarrow> nat" where
  "utf8_width b =
     (if b \<le> 0x7F then 1
      else if 0xC2 \<le> b \<and> b \<le> 0xDF then 2
      else if 0xE0 \<le> b \<and> b \<le> 0xEF then 3
      else if 0xF0 \<le> b \<and> b \<le> 0xF4 then 4
      else 0)"

text \<open>How many of the expected continuation bytes are there.\<close>

fun utf8_more :: "nat \<Rightarrow> bytes \<Rightarrow> nat" where
  "utf8_more (Suc n) (b # bs) = (if utf8_cont b then Suc (utf8_more n bs) else 0)"
| "utf8_more _ _ = 0"

definition utf8_step :: "u8 \<Rightarrow> bytes \<Rightarrow> bool \<times> nat" where
  "utf8_step first rest =
     (let w = utf8_width first in
      if w = 0 then (False, 1)
      else if w = 1 then (True, 1)
      else case rest of
        [] \<Rightarrow> (False, 1)
      | b # bs \<Rightarrow>
          if \<not> utf8_second first b then (False, 1)
          else let n = 2 + utf8_more (w - 2) bs in (n = w, n))"

lemma utf8_step_pos: "0 < snd (utf8_step first rest)"
  by (simp add: utf8_step_def Let_def split: list.splits)

lemma utf8_step_progress: "(valid, n) = utf8_step b bs \<Longrightarrow> 0 < n"
  by (metis utf8_step_pos snd_conv)

function from_utf8_lossy :: "bytes \<Rightarrow> bytes" where
  "from_utf8_lossy [] = []"
| "from_utf8_lossy (b # bs) =
     (case utf8_step b bs of (valid, n) \<Rightarrow>
        (if valid then take n (b # bs) else [0xEF, 0xBF, 0xBD]) @ from_utf8_lossy (drop n (b # bs)))"
  by pat_completeness auto
termination
  by (relation "measure length") (auto dest!: utf8_step_progress)

fun utf8_valid :: "nat \<Rightarrow> bytes \<Rightarrow> bool" where
  "utf8_valid fuel [] \<longleftrightarrow> True"
| "utf8_valid 0 (b # bs) \<longleftrightarrow> False"
| "utf8_valid (Suc fuel) (b # bs) \<longleftrightarrow> fst (utf8_step b bs) \<and> utf8_valid fuel (drop (snd (utf8_step b bs)) (b # bs))"

text \<open>A varint or a slice from the front of the remaining data.\<close>

definition take_varint :: "bytes \<Rightarrow> (u64 \<times> bytes) result" where
  "take_varint data = and_then (decode_varint64_with_length data) (\<lambda>(v, n). Ok (v, drop n data))"

definition take_slice :: "bytes \<Rightarrow> (bytes \<times> bytes) result" where
  "take_slice data = and_then (get_length_prefixed_slice data) (\<lambda>(s, n). Ok (s, drop n data))"

definition decode_new_file :: "bytes \<Rightarrow> ((nat \<times> u64 \<times> u64 \<times> bytes \<times> bytes) \<times> bytes) result" where
  "decode_new_file data =
     and_then (take_varint data) (\<lambda>(level, data).
     and_then (take_varint data) (\<lambda>(file_id, data).
     and_then (take_varint data) (\<lambda>(file_size, data).
     and_then (take_slice data) (\<lambda>(smallest, data).
     and_then (take_slice data) (\<lambda>(largest, data).
     Ok ((unat level, file_id, file_size, smallest, largest), data))))))"

text \<open>One field: the tag (its low 32 bits) has been read.\<close>

definition decode_field :: "u64 \<Rightarrow> bytes \<Rightarrow> VersionEdit \<Rightarrow> (VersionEdit \<times> bytes) result" where
  "decode_field tag data e =
     (let t = ucast tag :: u32 in
      if t = TAG_FORMAT_VERSION then
        and_then (take_varint data) (\<lambda>(version, data).
        if 0xFFFFFFFF < version then Err (Corruption ''version_edit_decode'' ''manifest format version overflow'')
        else Ok (e \<lparr> edit_format_version := Some (ucast version) \<rparr>, data))
      else if t = TAG_COMPARATOR then
        and_then (take_slice data) (\<lambda>(name, data). Ok (e \<lparr> comparator_name := Some (from_utf8_lossy name) \<rparr>, data))
      else if t = TAG_LOG_NUMBER then
        and_then (take_varint data) (\<lambda>(num, data). Ok (e \<lparr> edit_log_number := Some num \<rparr>, data))
      else if t = TAG_NEXT_FILE_NUMBER then
        and_then (take_varint data) (\<lambda>(num, data). Ok (e \<lparr> edit_next_file_number := Some num \<rparr>, data))
      else if t = TAG_LAST_SEQUENCE then
        and_then (take_varint data) (\<lambda>(seq, data). Ok (e \<lparr> edit_last_sequence := Some seq \<rparr>, data))
      else if t = TAG_COMPACT_POINTER then
        and_then (take_varint data) (\<lambda>(level, data).
        and_then (take_slice data) (\<lambda>(key, data). Ok (set_compact_pointer (unat level) key e, data)))
      else if t = TAG_DELETED_FILE then
        and_then (take_varint data) (\<lambda>(level, data).
        and_then (take_varint data) (\<lambda>(file_id, data). Ok (delete_file (unat level) file_id e, data)))
      else if t = TAG_NEW_FILE then
        and_then (decode_new_file data) (\<lambda>((level, file_id, file_size, smallest, largest), data).
        Ok (add_file level (new_NewFile file_id file_size smallest largest 0 0) e, data))
      else if t = TAG_NEW_FILE_V2 then
        and_then (decode_new_file data) (\<lambda>((level, file_id, file_size, smallest, largest), data).
        and_then (take_varint data) (\<lambda>(smallest_seq, data).
        and_then (take_varint data) (\<lambda>(largest_seq, data).
        Ok (add_file level (new_NewFile file_id file_size smallest largest smallest_seq largest_seq) e, data))))
      else Err (Corruption ''version_edit_decode'' ''unknown tag''))"

lemma take_varint_shorter: "take_varint data = Ok (v, rest) \<Longrightarrow> length rest < length data"
proof -
  assume "take_varint data = Ok (v, rest)"
  then obtain n where n: "decode_varint64_with_length data = Ok (v, n)" "rest = drop n data"
    by (auto simp: take_varint_def and_then_eq_Ok)
  have "0 < n" "n \<le> length data"
    using decode_loop_consumed [OF n(1) [unfolded decode_varint64_with_length_def]] by simp_all
  with n(2) show ?thesis by simp
qed

lemma take_slice_shorter: "take_slice data = Ok (v, rest) \<Longrightarrow> length rest \<le> length data"
  by (auto simp: take_slice_def and_then_eq_Ok)

lemma decode_field_shorter: "decode_field tag data e = Ok (e', rest) \<Longrightarrow> length rest \<le> length data"
  by (auto simp: decode_field_def decode_new_file_def Let_def and_then_eq_Ok split: if_splits
      dest!: take_varint_shorter take_slice_shorter)

function decode_fields :: "bytes \<Rightarrow> VersionEdit \<Rightarrow> VersionEdit result" where
  "decode_fields data e =
     (if data = [] then Ok e
      else case take_varint data of
        Inl err \<Rightarrow> Err err
      | Inr (tag, data1) \<Rightarrow>
          (case decode_field tag data1 e of
             Inl err \<Rightarrow> Err err
           | Inr (e1, data2) \<Rightarrow> decode_fields data2 e1))"
  by pat_completeness auto
termination
  by (relation "measure (\<lambda>(data, _). length data)")
    (auto dest!: take_varint_shorter decode_field_shorter)

declare decode_fields.simps [simp del]

definition decode_edit :: "bytes \<Rightarrow> VersionEdit result" where
  "decode_edit data = decode_fields data new_VersionEdit"

section \<open>Round trip\<close>

lemma take_varint_encode [simp]: "take_varint (encode_varint64 v @ rest) = Ok (v, rest)"
  by (simp add: take_varint_def decode_encode_varint64)

lemma take_slice_encode [simp]:
  "slice_ok s \<Longrightarrow> take_slice (encode_length_prefixed_slice s @ rest) = Ok (s, rest)"
  by (simp add: take_slice_def get_put_length_prefixed_slice)

lemmas tag_defs = TAG_COMPARATOR_def TAG_LOG_NUMBER_def TAG_NEXT_FILE_NUMBER_def TAG_LAST_SEQUENCE_def
  TAG_COMPACT_POINTER_def TAG_DELETED_FILE_def TAG_NEW_FILE_def TAG_NEW_FILE_V2_def TAG_FORMAT_VERSION_def

lemma decode_fields_Nil [simp]: "decode_fields [] e = Ok e"
  by (simp add: decode_fields.simps)

declare encode_varint64_nonempty [simp]

lemma decode_fields_step:
  assumes "decode_field (ucast (tag :: u32)) data e = Ok (e', rest)"
  shows "decode_fields (encode_varint64 (ucast tag) @ data) e = decode_fields rest e'"
  by (subst decode_fields.simps) (simp add: assms)

definition level_ok :: "nat \<Rightarrow> bool" where "level_ok level \<longleftrightarrow> level < 2 ^ 64"

definition new_file_ok :: "NewFile \<Rightarrow> bool" where
  "new_file_ok nf \<longleftrightarrow> slice_ok (tp_smallest_key (nf_props nf)) \<and> slice_ok (tp_largest_key (nf_props nf))"

lemma level_ok_unat [simp]: "level_ok level \<Longrightarrow> unat (of_nat level :: u64) = level"
  by (rule unat_of_nat_small) (simp add: level_ok_def)

lemmas put_append = put_tag_def put_varint64_append put_length_prefixed_slice_append

lemma ucast_u32_u64 [simp]: "ucast (ucast (t :: u32) :: u64) = t"
  by (rule bit_word_eqI) (simp add: bit_ucast_iff)

lemma unat_u32_u64: "unat (ucast (v :: u32) :: u64) = unat v"
  by (simp add: unsigned_ucast_eq take_bit_nat_eq_self_iff) (use unsigned_less [of v, where ?'a = nat] in simp)

lemma ucast_u32_le: "\<not> (0xFFFFFFFF :: u64) < ucast (v :: u32)"
proof -
  have "unat (ucast v :: u64) \<le> 0xFFFFFFFF"
    using unsigned_less [of v, where ?'a = nat] by (simp add: unat_u32_u64)
  then show ?thesis by (simp add: word_less_nat_alt)
qed

text \<open>\<open>emits p e e'\<close>: \<open>p\<close> appends bytes which take the decoder from \<open>e\<close> to \<open>e'\<close>.\<close>

definition emits :: "(bytes \<Rightarrow> bytes) \<Rightarrow> VersionEdit \<Rightarrow> VersionEdit \<Rightarrow> bool" where
  "emits p e e' \<longleftrightarrow> (\<exists>bs. (\<forall>buf. p buf = buf @ bs) \<and> (\<forall>rest. decode_fields (bs @ rest) e = decode_fields rest e'))"

lemma emits_id [simp]: "emits (\<lambda>buf. buf) e e" "emits id e e"
  by (auto simp: emits_def)

lemma emits_comp:
  assumes "emits p e e1" "emits q e1 e2"
  shows "emits (\<lambda>buf. q (p buf)) e e2"
proof -
  obtain a where a: "\<And>buf. p buf = buf @ a" "\<And>rest. decode_fields (a @ rest) e = decode_fields rest e1"
    using assms(1) by (auto simp: emits_def)
  obtain b where b: "\<And>buf. q buf = buf @ b" "\<And>rest. decode_fields (b @ rest) e1 = decode_fields rest e2"
    using assms(2) by (auto simp: emits_def)
  show ?thesis unfolding emits_def by (rule exI [of _ "a @ b"]) (simp add: a b)
qed

lemma emits_fold:
  assumes "\<And>x e. x \<in> set xs \<Longrightarrow> emits (p x) e (f x e)"
  shows "emits (fold p xs) e (fold f xs e)"
  using assms
proof (induction xs arbitrary: e)
  case (Cons x xs)
  have "emits (p x) e (f x e)" "emits (fold p xs) (f x e) (fold f xs (f x e))" using Cons by simp_all
  from emits_comp [OF this] show ?case by (simp add: comp_def)
qed simp

lemma emits_field:
  assumes "\<And>buf. p buf = buf @ encode_varint64 (ucast (tag :: u32)) @ data"
    and "\<And>rest. decode_field (ucast tag) (data @ rest) e = Ok (e', rest)"
  shows "emits p e e'"
  unfolding emits_def
  by (rule exI [of _ "encode_varint64 (ucast tag) @ data"]) (simp add: assms decode_fields_step)

lemma emits_compact_pointer:
  assumes "level_ok (fst x)" "slice_ok (snd x)"
  shows "emits (put_compact_pointer x) e (set_compact_pointer (fst x) (snd x) e)"
  by (rule emits_field [of _ TAG_COMPACT_POINTER "encode_varint64 (of_nat (fst x)) @ encode_length_prefixed_slice (snd x)"])
    (use assms in \<open>simp_all add: put_compact_pointer_def put_append decode_field_def Let_def tag_defs split_beta\<close>)

lemma emits_deleted_file:
  assumes "level_ok (fst x)"
  shows "emits (put_deleted_file x) e (delete_file (fst x) (snd x) e)"
  by (rule emits_field [of _ TAG_DELETED_FILE "encode_varint64 (of_nat (fst x)) @ encode_varint64 (snd x)"])
    (use assms in \<open>simp_all add: put_deleted_file_def put_append decode_field_def Let_def tag_defs split_beta\<close>)

lemma props_eta:
  "\<lparr> tp_file_size = tp_file_size p, tp_smallest_key = tp_smallest_key p, tp_largest_key = tp_largest_key p,
     tp_smallest_seqno = tp_smallest_seqno p, tp_largest_seqno = tp_largest_seqno p \<rparr> = p"
  by (cases p) simp

lemma emits_new_file:
  assumes "level_ok (fst x)" "new_file_ok (snd x)"
  shows "emits (put_new_file x) e (add_file (fst x) (snd x) e)"
proof -
  obtain level f p where x: "x = (level, \<lparr> nf_file_id = f, nf_props = p \<rparr>)" by (cases x, cases "snd x") auto
  show ?thesis
    by (rule emits_field [of _ TAG_NEW_FILE_V2 "encode_varint64 (of_nat level) @ encode_varint64 f
          @ encode_varint64 (tp_file_size p) @ encode_length_prefixed_slice (tp_smallest_key p)
          @ encode_length_prefixed_slice (tp_largest_key p) @ encode_varint64 (tp_smallest_seqno p)
          @ encode_varint64 (tp_largest_seqno p)"])
      (use assms in \<open>simp_all add: x props_eta put_new_file_def put_append decode_field_def decode_new_file_def
        new_file_ok_def new_NewFile_def Let_def tag_defs\<close>)
qed

lemma emits_put_none: "emits (put_opt tag None) e e"
  by (simp add: emits_def put_opt_def)

lemma emits_format_version:
  "emits (put_opt TAG_FORMAT_VERSION (map_option ucast v)) (e \<lparr> edit_format_version := None \<rparr>) (e \<lparr> edit_format_version := v \<rparr>)"
proof (cases v)
  case (Some x)
  show ?thesis
    by (rule emits_field [of _ TAG_FORMAT_VERSION "encode_varint64 (ucast x)"])
      (simp_all add: Some put_opt_def put_append decode_field_def Let_def tag_defs ucast_u32_le)
qed (simp add: emits_put_none)

lemma emits_comparator:
  assumes "\<And>name. v = Some name \<Longrightarrow> slice_ok name \<and> from_utf8_lossy name = name"
  shows "emits (\<lambda>buf. case v of None \<Rightarrow> buf | Some name \<Rightarrow> put_length_prefixed_slice (put_tag TAG_COMPARATOR buf) name)
           (e \<lparr> comparator_name := None \<rparr>) (e \<lparr> comparator_name := v \<rparr>)"
proof (cases v)
  case (Some x)
  show ?thesis
    by (rule emits_field [of _ TAG_COMPARATOR "encode_length_prefixed_slice x"])
      (use assms [OF Some] in \<open>simp_all add: Some put_append decode_field_def Let_def tag_defs\<close>)
qed simp

lemma emits_number:
  assumes "\<And>num data. decode_field (ucast tag) data e = and_then (take_varint data) (\<lambda>(num, data). Ok (upd num, data))"
  shows "emits (put_opt tag v) e (case v of None \<Rightarrow> e | Some num \<Rightarrow> upd num)"
proof (cases v)
  case (Some x)
  show ?thesis
    by (rule emits_field [of _ tag "encode_varint64 x"]) (simp_all add: Some put_opt_def put_append assms)
qed (simp add: emits_put_none)

lemma from_utf8_lossy_valid: "utf8_valid fuel bs \<Longrightarrow> from_utf8_lossy bs = bs"
  by (induction fuel bs rule: utf8_valid.induct) (auto split: prod.splits)

lemma fold_set_compact_pointer:
  "fold (\<lambda>x. set_compact_pointer (fst x) (snd x)) xs e
     = e \<lparr> edit_compact_pointers := edit_compact_pointers e @ xs \<rparr>"
  by (induction xs arbitrary: e) (simp_all add: set_compact_pointer_def)

lemma fold_add_file:
  "fold (\<lambda>x. add_file (fst x) (snd x)) xs e = e \<lparr> new_files := new_files e @ xs \<rparr>"
  by (induction xs arbitrary: e) (simp_all add: add_file_def)

lemma fold_delete_file:
  "distinct (deleted_files e @ xs)
     \<Longrightarrow> fold (\<lambda>x. delete_file (fst x) (snd x)) xs e = e \<lparr> deleted_files := deleted_files e @ xs \<rparr>"
  by (induction xs arbitrary: e) (simp_all add: delete_file_def)

definition edit_ok :: "VersionEdit \<Rightarrow> bool" where
  "edit_ok e \<longleftrightarrow>
     (case comparator_name e of None \<Rightarrow> True | Some name \<Rightarrow> slice_ok name \<and> utf8_valid (length name) name) \<and>
     list_all (\<lambda>(level, key). level_ok level \<and> slice_ok key) (edit_compact_pointers e) \<and>
     list_all (\<lambda>(level, file_id). level_ok level) (deleted_files e) \<and> distinct (deleted_files e) \<and>
     list_all (\<lambda>(level, nf). level_ok level \<and> new_file_ok nf) (new_files e)"

lemma decode_encode_edit:
  assumes ok: "edit_ok e"
  shows "decode_edit (encode_edit e) = Ok e"
proof -
  let ?e = new_VersionEdit
  let ?e1 = "?e \<lparr> edit_format_version := edit_format_version e \<rparr>"
  let ?e2 = "?e1 \<lparr> comparator_name := comparator_name e \<rparr>"
  let ?e3 = "?e2 \<lparr> edit_log_number := edit_log_number e \<rparr>"
  let ?e4 = "?e3 \<lparr> edit_next_file_number := edit_next_file_number e \<rparr>"
  let ?e5 = "?e4 \<lparr> edit_last_sequence := edit_last_sequence e \<rparr>"
  have 1: "emits (put_opt TAG_FORMAT_VERSION (map_option ucast (edit_format_version e))) ?e ?e1"
    using emits_format_version [of "edit_format_version e" ?e] by (simp add: new_VersionEdit_def)
  have 2: "emits (\<lambda>buf. case comparator_name e of None \<Rightarrow> buf
      | Some name \<Rightarrow> put_length_prefixed_slice (put_tag TAG_COMPARATOR buf) name) ?e1 ?e2"
    using emits_comparator [of "comparator_name e" ?e1] ok
    by (auto simp: new_VersionEdit_def edit_ok_def from_utf8_lossy_valid split: option.splits)
  have 3: "emits (put_opt TAG_LOG_NUMBER (edit_log_number e)) ?e2 ?e3"
    using emits_number [of TAG_LOG_NUMBER ?e2 "\<lambda>num. ?e2 \<lparr> edit_log_number := Some num \<rparr>" "edit_log_number e"]
    by (simp add: decode_field_def tag_defs new_VersionEdit_def split: option.splits)
  have 4: "emits (put_opt TAG_NEXT_FILE_NUMBER (edit_next_file_number e)) ?e3 ?e4"
    using emits_number [of TAG_NEXT_FILE_NUMBER ?e3 "\<lambda>num. ?e3 \<lparr> edit_next_file_number := Some num \<rparr>" "edit_next_file_number e"]
    by (simp add: decode_field_def tag_defs new_VersionEdit_def split: option.splits)
  have 5: "emits (put_opt TAG_LAST_SEQUENCE (edit_last_sequence e)) ?e4 ?e5"
    using emits_number [of TAG_LAST_SEQUENCE ?e4 "\<lambda>num. ?e4 \<lparr> edit_last_sequence := Some num \<rparr>" "edit_last_sequence e"]
    by (simp add: decode_field_def tag_defs new_VersionEdit_def split: option.splits)
  have 6: "emits (fold put_compact_pointer (edit_compact_pointers e)) ?e5
      (fold (\<lambda>x. set_compact_pointer (fst x) (snd x)) (edit_compact_pointers e) ?e5)"
    by (rule emits_fold, rule emits_compact_pointer) (use ok in \<open>auto simp: edit_ok_def list_all_iff\<close>)
  have 7: "emits (fold put_deleted_file (deleted_files e)) e'
      (fold (\<lambda>x. delete_file (fst x) (snd x)) (deleted_files e) e')" for e'
    by (rule emits_fold, rule emits_deleted_file) (use ok in \<open>auto simp: edit_ok_def list_all_iff\<close>)
  have 8: "emits (fold put_new_file (new_files e)) e'
      (fold (\<lambda>x. add_file (fst x) (snd x)) (new_files e) e')" for e'
    by (rule emits_fold, rule emits_new_file) (use ok in \<open>auto simp: edit_ok_def list_all_iff\<close>)
  have fields: "fold (\<lambda>x. add_file (fst x) (snd x)) (new_files e)
      (fold (\<lambda>x. delete_file (fst x) (snd x)) (deleted_files e)
        (fold (\<lambda>x. set_compact_pointer (fst x) (snd x)) (edit_compact_pointers e) ?e5)) = e"
    using ok by (cases e) (simp add: fold_set_compact_pointer fold_delete_file fold_add_file edit_ok_def new_VersionEdit_def)
  from emits_comp [OF emits_comp [OF emits_comp [OF emits_comp [OF emits_comp [OF emits_comp [OF emits_comp
      [OF 1 2] 3] 4] 5] 6] 7] 8] obtain bs where
    "encode_edit e = bs" and "\<And>rest. decode_fields (bs @ rest) ?e = decode_fields rest e"
    unfolding emits_def fields by (auto simp: encode_edit_def Let_def)
  from this(2) [of "[]"] this(1) show ?thesis by (simp add: decode_edit_def)
qed

section \<open>Properties\<close>

text \<open>
  (C20) A version edit survives the manifest: decoding what \<open>encode\<close> wrote gives back the edit,
  with every optional number, the compaction pointers and the new files in order, and the set of
  deleted files, for all file numbers, sizes and sequence numbers of 64 bits.
\<close>

theorem version_edit_roundtrip:
  assumes "edit_ok e"
  shows "decode_edit (encode_edit e) = Ok e"
  using assms by (rule decode_encode_edit)

definition sample_edit :: VersionEdit where
  "sample_edit = add_file 2 (new_NewFile 7 4096 [1, 2] [3] 5 9) (delete_file 1 3 (set_compact_pointer 1 [9]
     (new_VersionEdit \<lparr> edit_format_version := Some 1, edit_log_number := Some 12 \<rparr>)))"

theorem version_edit_roundtrip_witness:
  "edit_ok sample_edit \<and> decode_edit (encode_edit sample_edit) = Ok sample_edit"
proof -
  have "edit_ok sample_edit"
    by (simp add: sample_edit_def edit_ok_def add_file_def delete_file_def set_compact_pointer_def
        new_VersionEdit_def new_NewFile_def new_file_ok_def level_ok_def slice_ok_def)
  with version_edit_roundtrip [of sample_edit] show ?thesis by simp
qed

end
