(* ===== verification/Manifest.thy ===== *)
theory Manifest
  imports Version_Edit "HOL-Library.AList"
begin

text \<open>
  \<open>metadata/manifest.rs\<close> and \<open>metadata/current.rs\<close>: the manifest file, a sequence of
  length-prefixed version edits behind a \<open>BufWriter\<close>, and the \<open>CURRENT\<close> file which names the
  manifest in use.  Names and contents are bytes.  An \<open>io_script\<close> gives each labelled operation
  its outcome: \<open>None\<close> when it succeeds, \<open>Some n\<close> when it fails, a write after \<open>n\<close> bytes and a
  read at the first byte from offset \<open>n\<close>.
\<close>

type_synonym io_script = "string \<Rightarrow> nat option"

abbreviation all_ok :: io_script where "all_ok \<equiv> (\<lambda>_. None)"

definition str :: "string \<Rightarrow> bytes" where
  "str = map (\<lambda>c. of_nat (of_char c))"

section \<open>Directories\<close>

record ManifestDir =
  dir_current :: "bytes option"
  dir_tmp :: "bytes option"
  dir_files :: "(bytes \<times> bytes) list"

definition dir_content :: "ManifestDir \<Rightarrow> bytes \<Rightarrow> bytes" where
  "dir_content d name = (case map_of (dir_files d) name of None \<Rightarrow> [] | Some bs \<Rightarrow> bs)"

definition dir_put :: "bytes \<Rightarrow> bytes \<Rightarrow> ManifestDir \<Rightarrow> ManifestDir" where
  "dir_put name bs d = d \<lparr> dir_files := AList.update name bs (dir_files d) \<rparr>"

definition dir_append :: "bytes \<Rightarrow> bytes \<Rightarrow> ManifestDir \<Rightarrow> ManifestDir" where
  "dir_append name bs d = dir_put name (dir_content d name @ bs) d"

section \<open>Writer\<close>

definition BUF_CAPACITY :: nat where "BUF_CAPACITY = 8192"

record ManifestWriter =
  mw_name :: bytes
  mw_buf :: bytes
  mw_file_number :: u64
  mw_current_size :: u64

definition INIT_MANIFEST_FILE_NAME :: bytes where "INIT_MANIFEST_FILE_NAME = str ''MANIFEST-0''"

definition manifest_create :: "io_script \<Rightarrow> bytes \<Rightarrow> ManifestDir \<Rightarrow> ManifestWriter result \<times> ManifestDir" where
  "manifest_create io name d =
     (if io ''manifest_create'' \<noteq> None then (Err (Io ''manifest_create''), d)
      else (Ok \<lparr> mw_name = name, mw_buf = [], mw_file_number = 0, mw_current_size = 0 \<rparr>, dir_put name [] d))"

definition open_for_append :: "io_script \<Rightarrow> bytes \<Rightarrow> u64 \<Rightarrow> ManifestDir \<Rightarrow> ManifestWriter result \<times> ManifestDir" where
  "open_for_append io name number d =
     (if io ''manifest_open_for_append'' \<noteq> None then (Err (Io ''manifest_open_for_append''), d)
      else let d = dir_append name [] d in
        if io ''manifest_read_metadata'' \<noteq> None then (Err (Io ''manifest_read_metadata''), d)
        else (Ok \<lparr> mw_name = name, mw_buf = [], mw_file_number = number,
                   mw_current_size = of_nat (length (dir_content d name)) \<rparr>, d))"

text \<open>\<open>BufWriter\<close>: what a failed flush did not write stays in the buffer.\<close>

definition flush_buf ::
    "io_script \<Rightarrow> string \<Rightarrow> ManifestWriter \<Rightarrow> ManifestDir \<Rightarrow> unit result \<times> ManifestWriter \<times> ManifestDir" where
  "flush_buf io op w d =
     (if mw_buf w = [] then (Ok (), w, d)
      else case io op of
        None \<Rightarrow> (Ok (), w \<lparr> mw_buf := [] \<rparr>, dir_append (mw_name w) (mw_buf w) d)
      | Some n \<Rightarrow> (Err (Io op), w \<lparr> mw_buf := drop n (mw_buf w) \<rparr>, dir_append (mw_name w) (take n (mw_buf w)) d))"

definition buf_write_cold ::
    "io_script \<Rightarrow> string \<Rightarrow> bytes \<Rightarrow> ManifestWriter \<Rightarrow> ManifestDir \<Rightarrow> unit result \<times> ManifestWriter \<times> ManifestDir" where
  "buf_write_cold io op data w d =
     (if length data < BUF_CAPACITY then (Ok (), w \<lparr> mw_buf := mw_buf w @ data \<rparr>, d)
      else case io (op @ ''_direct'') of
        None \<Rightarrow> (Ok (), w, dir_append (mw_name w) data d)
      | Some n \<Rightarrow> (Err (Io op), w, dir_append (mw_name w) (take n data) d))"

definition buf_write_all ::
    "io_script \<Rightarrow> string \<Rightarrow> bytes \<Rightarrow> ManifestWriter \<Rightarrow> ManifestDir \<Rightarrow> unit result \<times> ManifestWriter \<times> ManifestDir" where
  "buf_write_all io op data w d =
     (if length data < BUF_CAPACITY - length (mw_buf w) then (Ok (), w \<lparr> mw_buf := mw_buf w @ data \<rparr>, d)
      else case (if BUF_CAPACITY - length (mw_buf w) < length data then flush_buf io op w d else (Ok (), w, d)) of
        (Inl e, w, d) \<Rightarrow> (Err e, w, d)
      | (Inr _, w, d) \<Rightarrow> buf_write_cold io op data w d)"

definition append_edit ::
    "io_script \<Rightarrow> VersionEdit \<Rightarrow> ManifestWriter \<Rightarrow> ManifestDir \<Rightarrow> unit result \<times> ManifestWriter \<times> ManifestDir" where
  "append_edit io edit w d =
     (let encoded = encode_edit edit; len = of_nat (length encoded) :: u64 in
      case buf_write_all io ''manifest_write_len'' (u64_be len) w d of
        (Inl e, w, d) \<Rightarrow> (Err e, w, d)
      | (Inr _, w, d) \<Rightarrow>
        (case buf_write_all io ''manifest_write_edit'' encoded w d of
           (Inl e, w, d) \<Rightarrow> (Err e, w, d)
         | (Inr _, w, d) \<Rightarrow>
           (case flush_buf io ''manifest_flush'' w d of
              (Inl e, w, d) \<Rightarrow> (Err e, w, d)
            | (Inr _, w, d) \<Rightarrow> (Ok (), w \<lparr> mw_current_size := mw_current_size w + (8 + len) \<rparr>, d))))"

definition manifest_sync ::
    "io_script \<Rightarrow> ManifestWriter \<Rightarrow> ManifestDir \<Rightarrow> unit result \<times> ManifestWriter \<times> ManifestDir" where
  "manifest_sync io w d =
     (case flush_buf io ''manifest_sync_flush'' w d of
        (Inl e, w, d) \<Rightarrow> (Err e, w, d)
      | (Inr _, w, d) \<Rightarrow>
          if io ''manifest_sync_all'' \<noteq> None then (Err (Io ''manifest_sync_all''), w, d) else (Ok (), w, d))"

section \<open>Reader\<close>

record ManifestReader =
  mr_file :: bytes
  mr_rest :: bytes
  last_good_offset :: nat

definition new_ManifestReader :: "io_script \<Rightarrow> bytes \<Rightarrow> ManifestReader result" where
  "new_ManifestReader io f =
     (if io ''manifest_open_reader'' \<noteq> None then Err (Io ''manifest_open_reader'')
      else Ok \<lparr> mr_file = f, mr_rest = f, last_good_offset = 0 \<rparr>)"

definition manifest_read :: "io_script \<Rightarrow> nat \<Rightarrow> ManifestReader \<Rightarrow> (ReadOutcome \<times> bytes) result \<times> ManifestReader" where
  "manifest_read io n r =
     (case read_exact_or_eof n (mr_rest r) of (out, bs, rest) \<Rightarrow>
        (case io ''read_exact_or_eof'' of
           None \<Rightarrow> (Ok (out, bs), r \<lparr> mr_rest := rest \<rparr>)
         | Some k \<Rightarrow> if 0 < n \<and> k < length (mr_file r) - length rest then (Err (Io ''read_exact_or_eof''), r)
                     else (Ok (out, bs), r \<lparr> mr_rest := rest \<rparr>)))"

definition truncate_to :: "io_script \<Rightarrow> nat \<Rightarrow> ManifestReader \<Rightarrow> unit result \<times> ManifestReader" where
  "truncate_to io off r =
     (if io ''manifest_truncate'' \<noteq> None then (Err (Io ''manifest_truncate''), r)
      else let r = r \<lparr> mr_file := take off (mr_file r) \<rparr> in
        if io ''manifest_truncate_sync'' \<noteq> None then (Err (Io ''manifest_truncate_sync''), r) else (Ok (), r))"

definition truncate_end :: "io_script \<Rightarrow> nat \<Rightarrow> ManifestReader \<Rightarrow> VersionEdit option result \<times> ManifestReader" where
  "truncate_end io off r =
     (case truncate_to io off r of (Inl e, r) \<Rightarrow> (Err e, r) | (Inr _, r) \<Rightarrow> (Ok None, r))"

definition read_next_edit :: "io_script \<Rightarrow> ManifestReader \<Rightarrow> VersionEdit option result \<times> ManifestReader" where
  "read_next_edit io r =
     (let record_start = last_good_offset r in
      case manifest_read io 8 r of
        (Inl e, r) \<Rightarrow> (Err e, r)
      | (Inr (ReadEof, _), r) \<Rightarrow> (Ok None, r)
      | (Inr (ReadPartial, _), r) \<Rightarrow> truncate_end io record_start r
      | (Inr (ReadComplete, len_bytes), r) \<Rightarrow>
          (let len = unat (from_be len_bytes :: u64) in
           if 2 ^ 63 \<le> len then (Err (Panic ''capacity overflow''), r)
           else case manifest_read io len r of
             (Inl e, r) \<Rightarrow> (Err e, r)
           | (Inr (ReadComplete, body), r) \<Rightarrow>
               (case decode_edit body of
                  Inl e \<Rightarrow> (Err e, r)
                | Inr edit \<Rightarrow> (Ok (Some edit), r \<lparr> last_good_offset := record_start + 8 + len \<rparr>))
           | (Inr (_, _), r) \<Rightarrow> truncate_end io record_start r))"

lemma manifest_read_rest:
  "manifest_read io n r = (Inr (ReadComplete, bs), r') \<Longrightarrow> length (mr_rest r') + n = length (mr_rest r)"
  by (auto simp: manifest_read_def read_exact_or_eof_def split: if_splits option.splits prod.splits)

lemma read_next_edit_progress:
  "read_next_edit io r = (Inr (Some e), r') \<Longrightarrow> length (mr_rest r') < length (mr_rest r)"
  by (auto simp: read_next_edit_def truncate_end_def Let_def dest!: manifest_read_rest
      split: prod.splits sum.splits ReadOutcome.splits if_splits)

function read_edits :: "io_script \<Rightarrow> VersionEdit list \<Rightarrow> ManifestReader \<Rightarrow> VersionEdit list result \<times> ManifestReader" where
  "read_edits io edits r =
     (case read_next_edit io r of
        (Inr (Some edit), r') \<Rightarrow> read_edits io (edits @ [edit]) r'
      | (Inr None, r') \<Rightarrow> (Ok edits, r')
      | (Inl e, r') \<Rightarrow> (Err e, r'))"
  by pat_completeness auto
termination
  by (relation "measure (\<lambda>(_, _, r). length (mr_rest r))") (auto dest!: read_next_edit_progress sym [of "(_, _)"])

declare read_edits.simps [simp del]

definition read_all_edits :: "io_script \<Rightarrow> ManifestReader \<Rightarrow> VersionEdit list result \<times> ManifestReader" where
  "read_all_edits io r = read_edits io [] r"

section \<open>The CURRENT file\<close>

text \<open>The UTF-8 encodings of the characters \<open>str::trim\<close> removes.\<close>

definition ws_chars :: "bytes list" where
  "ws_chars = [[9], [10], [11], [12], [13], [32], [0xC2, 0x85], [0xC2, 0xA0], [0xE1, 0x9A, 0x80]]
     @ map (\<lambda>b. [0xE2, 0x80, b]) [0x80, 0x81, 0x82, 0x83, 0x84, 0x85, 0x86, 0x87, 0x88, 0x89, 0x8A, 0xA8, 0xA9, 0xAF]
     @ [[0xE2, 0x81, 0x9F], [0xE3, 0x80, 0x80]]"

definition strip_char :: "bytes list \<Rightarrow> bytes \<Rightarrow> bytes option" where
  "strip_char chars bs = (case find (\<lambda>c. take (length c) bs = c) chars of
      None \<Rightarrow> None | Some c \<Rightarrow> if c = [] then None else Some (drop (length c) bs))"

lemma strip_char_shorter: "strip_char chars bs = Some bs' \<Longrightarrow> length bs' < length bs"
  by (cases bs) (auto simp: strip_char_def find_Some_iff split: option.splits if_splits)

function strip_start :: "bytes list \<Rightarrow> bytes \<Rightarrow> bytes" where
  "strip_start chars bs = (case strip_char chars bs of None \<Rightarrow> bs | Some bs' \<Rightarrow> strip_start chars bs')"
  by pat_completeness auto
termination by (relation "measure (\<lambda>(_, bs). length bs)") (auto dest: strip_char_shorter)

declare strip_start.simps [simp del]

definition trim :: "bytes \<Rightarrow> bytes" where
  "trim bs = rev (strip_start (map rev ws_chars) (rev (strip_start ws_chars bs)))"

definition read_current :: "io_script \<Rightarrow> ManifestDir \<Rightarrow> bytes option result" where
  "read_current io d =
     (case dir_current d of
        None \<Rightarrow> Ok None
      | Some content \<Rightarrow>
          if io ''read_current'' \<noteq> None \<or> \<not> utf8_valid (length content) content then Err (Io ''read_current'')
          else Ok (Some (trim content)))"

definition write_current :: "io_script \<Rightarrow> bytes \<Rightarrow> ManifestDir \<Rightarrow> unit result \<times> ManifestDir" where
  "write_current io name d =
     (if name = [] then (Err (InvalidArgument ''manifest_name'' ''manifest name cannot be empty''), d)
      else if io ''open_current_tmp'' \<noteq> None then (Err (Io ''open_current_tmp''), d)
      else case io ''write_current_tmp'' of
        Some n \<Rightarrow> (Err (Io ''write_current_tmp''), d \<lparr> dir_tmp := Some (take n name) \<rparr>)
      | None \<Rightarrow>
          if io ''sync_current_tmp'' \<noteq> None then (Err (Io ''sync_current_tmp''), d \<lparr> dir_tmp := Some name \<rparr>)
          else if io ''rename_current_tmp'' \<noteq> None then (Err (Io ''rename_current_tmp''), d \<lparr> dir_tmp := Some name \<rparr>)
          else let d = d \<lparr> dir_tmp := None, dir_current := Some name \<rparr> in
            if io ''open_current_parent'' \<noteq> None then (Err (Io ''open_current_parent''), d)
            else if io ''sync_current_parent'' \<noteq> None then (Err (Io ''sync_current_parent''), d)
            else (Ok (), d))"

text \<open>\<open>str::parse::<u64>\<close> and the decimal format of a number.\<close>

definition is_digit :: "u8 \<Rightarrow> bool" where "is_digit b \<longleftrightarrow> 48 \<le> b \<and> b \<le> 57"

definition digits_value :: "bytes \<Rightarrow> nat" where
  "digits_value bs = foldl (\<lambda>n b. 10 * n + (unat b - 48)) 0 bs"

definition parse_u64 :: "bytes \<Rightarrow> u64 option" where
  "parse_u64 bs =
     (let ds = (case bs of [] \<Rightarrow> [] | b # rest \<Rightarrow> if b = 43 then rest else bs) in
      if ds = [] \<or> \<not> list_all is_digit ds \<or> 2 ^ 64 \<le> digits_value ds then None
      else Some (of_nat (digits_value ds)))"

fun dec :: "nat \<Rightarrow> bytes" where
  "dec n = (if n < 10 then [of_nat (48 + n)] else dec (n div 10) @ [of_nat (48 + n mod 10)])"

declare dec.simps [simp del]

definition manifest_prefix :: bytes where "manifest_prefix = str ''MANIFEST-''"

definition manifest_name :: "u64 \<Rightarrow> bytes" where
  "manifest_name number = manifest_prefix @ dec (unat number)"

definition strip_prefix :: "bytes \<Rightarrow> bytes \<Rightarrow> bytes option" where
  "strip_prefix p bs = (if take (length p) bs = p then Some (drop (length p) bs) else None)"

definition manifest_candidate :: "u64 option \<Rightarrow> bytes \<Rightarrow> u64 option" where
  "manifest_candidate max_number name =
     (if take (length manifest_prefix) name = manifest_prefix then
        (case parse_u64 (strip_start [manifest_prefix] name) of
           None \<Rightarrow> max_number
         | Some number \<Rightarrow> Some (case max_number of None \<Rightarrow> number | Some m \<Rightarrow> max m number))
      else max_number)"

definition find_latest_manifest :: "io_script \<Rightarrow> ManifestDir \<Rightarrow> bytes option result" where
  "find_latest_manifest io d =
     (if io ''read_manifest_dir'' \<noteq> None then Err (Io ''read_manifest_dir'')
      else if dir_files d \<noteq> [] \<and> io ''read_manifest_dir_entry'' \<noteq> None then Err (Io ''read_manifest_dir_entry'')
      else Ok (map_option manifest_name (foldl manifest_candidate None (map fst (dir_files d)))))"

section \<open>Names\<close>

lemma digits_value_snoc: "digits_value (bs @ [b]) = 10 * digits_value bs + (unat b - 48)"
  by (simp add: digits_value_def)

lemma unat_digit: "n < 10 \<Longrightarrow> unat (of_nat (48 + n) :: u8) = 48 + n"
  by (rule unat_of_nat_small) simp

lemma dec_value: "digits_value (dec n) = n"
proof (induction n rule: dec.induct)
  case (1 n)
  show ?case
  proof (cases "n < 10")
    case True
    then show ?thesis using unat_digit [of n] by (subst dec.simps) (simp add: digits_value_def)
  next
    case False
    then show ?thesis using 1 unat_digit [of "n mod 10"]
      by (subst dec.simps) (simp only: digits_value_snoc if_False, simp)
  qed
qed

lemma is_digit_dec: "n < 10 \<Longrightarrow> is_digit (of_nat (48 + n))"
  unfolding is_digit_def word_le_nat_alt using unat_digit [of n] by simp

lemma dec_digits: "list_all is_digit (dec n) \<and> dec n \<noteq> []"
proof (induction n rule: dec.induct)
  case (1 n)
  then show ?case
    by (cases "n < 10") (subst dec.simps, use is_digit_dec [of n] is_digit_dec [of "n mod 10"] in simp)+
qed

lemma parse_dec: "n < 2 ^ 64 \<Longrightarrow> parse_u64 (dec n) = Some (of_nat n)"
proof -
  assume n: "n < 2 ^ 64"
  obtain b bs where b: "dec n = b # bs" "is_digit b" using dec_digits [of n] by (cases "dec n") auto
  have "b \<noteq> 43" using b(2) by (auto simp: is_digit_def word_le_nat_alt)
  then have "(case dec n of [] \<Rightarrow> [] | b # rest \<Rightarrow> if b = 43 then rest else dec n) = dec n"
    by (simp add: b(1))
  then show ?thesis using n dec_digits [of n] by (simp add: parse_u64_def dec_value)
qed

lemma parse_manifest_name: "map_option parse_u64 (strip_prefix manifest_prefix (manifest_name number)) = Some (Some number)"
  using parse_dec [of "unat number"] unsigned_less [of number, where ?'a = nat]
  by (simp add: strip_prefix_def manifest_name_def)

section \<open>Whole and torn records\<close>

definition edit_record :: "VersionEdit \<Rightarrow> bytes" where
  "edit_record e = u64_be (of_nat (length (encode_edit e))) @ encode_edit e"

definition manifest_bytes :: "VersionEdit list \<Rightarrow> bytes" where
  "manifest_bytes es = concat (map edit_record es)"

definition recordable :: "VersionEdit \<Rightarrow> bool" where
  "recordable e \<longleftrightarrow> edit_ok e \<and> length (encode_edit e) < 2 ^ 63"

text \<open>The number of records which are whole in the first \<open>n\<close> bytes.\<close>

fun whole_edits :: "nat \<Rightarrow> VersionEdit list \<Rightarrow> nat" where
  "whole_edits n [] = 0"
| "whole_edits n (e # es) =
     (if n < length (edit_record e) then 0 else Suc (whole_edits (n - length (edit_record e)) es))"

lemma manifest_bytes_simps [simp]:
  "manifest_bytes [] = []" "manifest_bytes (e # es) = edit_record e @ manifest_bytes es"
  "manifest_bytes (es @ es') = manifest_bytes es @ manifest_bytes es'"
  by (simp_all add: manifest_bytes_def)

lemma length_edit_record: "length (edit_record e) = 8 + length (encode_edit e)"
  by (simp add: edit_record_def)

lemma u64_be_nonempty [simp]: "u64_be x \<noteq> []"
  using length_to_be [of 8 x] by (metis list.size(3) zero_neq_numeral)

lemma manifest_read_ok: "manifest_read all_ok n r =
   (case read_exact_or_eof n (mr_rest r) of (out, bs, rest) \<Rightarrow> (Ok (out, bs), r \<lparr> mr_rest := rest \<rparr>))"
  by (simp add: manifest_read_def)

lemma unat_edit_len: "recordable e \<Longrightarrow> unat (of_nat (length (encode_edit e)) :: u64) = length (encode_edit e)"
  by (rule unat_of_nat_small) (simp add: recordable_def)

lemma read_next_edit_whole:
  assumes "mr_rest r = edit_record e @ rest" "recordable e"
  shows "read_next_edit all_ok r = (Ok (Some e),
     r \<lparr> mr_rest := rest, last_good_offset := last_good_offset r + length (edit_record e) \<rparr>)"
proof -
  have dec: "decode_edit (encode_edit e) = Ok e" using assms(2) decode_encode_edit by (simp add: recordable_def)
  have len: "\<not> 2 ^ 63 \<le> length (encode_edit e)" using assms(2) by (simp add: recordable_def)
  show ?thesis
    by (cases "encode_edit e = []")
      (use dec len unat_edit_len [OF assms(2)] in \<open>simp_all add: assms(1) read_next_edit_def manifest_read_ok
        edit_record_def Let_def read_exact_or_eof_def from_be_u64\<close>)
qed

lemma read_next_edit_torn:
  assumes rest: "mr_rest r = take k (edit_record e)" and k: "k < length (edit_record e)" and rec: "recordable e"
    and f: "mr_file r = good @ mr_rest r" "last_good_offset r = length good"
  shows "\<exists>r'. read_next_edit all_ok r = (Ok None, r') \<and> mr_file r' = good"
proof -
  let ?n = "length (encode_edit e)"
  consider "k = 0" | "0 < k" "k < 8" | "8 \<le> k" by linarith
  then show ?thesis
  proof cases
    case 1
    then show ?thesis using rest f by (simp add: read_next_edit_def manifest_read_ok read_exact_or_eof_def Let_def)
  next
    case 2
    then have "length (mr_rest r) = k" "mr_rest r \<noteq> []"
      using rest by (auto simp: edit_record_def)
    with 2 f show ?thesis
      by (simp add: read_next_edit_def manifest_read_ok read_exact_or_eof_def Let_def truncate_end_def truncate_to_def)
  next
    case 3
    then have split: "mr_rest r = u64_be (of_nat ?n) @ take (k - 8) (encode_edit e)"
      using rest by (simp add: edit_record_def)
    have less: "k - 8 < ?n" using k 3 by (simp add: length_edit_record)
    then have ne: "encode_edit e \<noteq> []" by auto
    show ?thesis
      using less ne rec unat_edit_len [OF rec] f
      by (cases "k = 8") (simp_all add: read_next_edit_def manifest_read_ok split Let_def recordable_def
          read_exact_or_eof_def truncate_end_def truncate_to_def)
  qed
qed

lemma read_edits_torn:
  assumes "mr_rest r = take n (manifest_bytes es)" "list_all recordable es"
    and "mr_file r = good @ mr_rest r" "last_good_offset r = length good"
  shows "\<exists>r'. read_edits all_ok acc r = (Ok (acc @ take (whole_edits n es) es), r') \<and>
     mr_file r' = good @ manifest_bytes (take (whole_edits n es) es)"
  using assms
proof (induction es arbitrary: n r acc good)
  case Nil
  then show ?case
    by (subst read_edits.simps) (simp add: read_next_edit_def manifest_read_ok read_exact_or_eof_def Let_def)
next
  case (Cons e es)
  show ?case
  proof (cases "n < length (edit_record e)")
    case True
    then have "mr_rest r = take n (edit_record e)" using Cons.prems(1) by simp
    from read_next_edit_torn [OF this True _ Cons.prems(3,4)] Cons.prems(2)
    obtain r' where "read_next_edit all_ok r = (Ok None, r')" "mr_file r' = good" by auto
    then show ?thesis by (subst read_edits.simps) (simp add: True)
  next
    case False
    let ?rest = "take (n - length (edit_record e)) (manifest_bytes es)"
    let ?r = "r \<lparr> mr_rest := ?rest, last_good_offset := last_good_offset r + length (edit_record e) \<rparr>"
    have rest: "mr_rest r = edit_record e @ ?rest" using Cons.prems(1) False by simp
    have step: "read_next_edit all_ok r = (Ok (Some e), ?r)"
      by (rule read_next_edit_whole [OF rest]) (use Cons.prems(2) in simp)
    have "\<exists>r'. read_edits all_ok (acc @ [e]) ?r
          = (Ok ((acc @ [e]) @ take (whole_edits (n - length (edit_record e)) es) es), r') \<and>
        mr_file r' = (good @ edit_record e) @ manifest_bytes (take (whole_edits (n - length (edit_record e)) es) es)"
      by (rule Cons.IH) (use Cons.prems rest in simp_all)
    then show ?thesis by (subst read_edits.simps) (simp add: step False)
  qed
qed

lemma whole_edits_all: "length (manifest_bytes es) \<le> n \<Longrightarrow> whole_edits n es = length es"
  by (induction es arbitrary: n) auto

lemma whole_edits_snoc:
  "length (manifest_bytes es) \<le> n \<Longrightarrow> whole_edits n (es @ [e])
     = (if n < length (manifest_bytes (es @ [e])) then length es else Suc (length es))"
  by (induction es arbitrary: n) auto

lemma read_all_edits_torn:
  assumes "list_all recordable es" and "k = whole_edits n es"
  shows "\<exists>r'. read_all_edits all_ok \<lparr> mr_file = take n (manifest_bytes es), mr_rest = take n (manifest_bytes es),
           last_good_offset = 0 \<rparr> = (Ok (take k es), r') \<and> mr_file r' = manifest_bytes (take k es)"
  using read_edits_torn [of "\<lparr> mr_file = take n (manifest_bytes es), mr_rest = take n (manifest_bytes es),
      last_good_offset = 0 \<rparr>" n es "[]" "[]"] assms
  by (simp add: read_all_edits_def)

section \<open>Appending\<close>

lemma dir_content_put [simp]: "dir_content (dir_put name bs d) n = (if n = name then bs else dir_content d n)"
  by (simp add: dir_content_def dir_put_def update_conv')

lemma dir_put_put [simp]: "dir_put name bs (dir_put name bs' d) = dir_put name bs d"
  by (simp add: dir_put_def)

lemma dir_put_sel [simp]: "dir_current (dir_put name bs d) = dir_current d" "dir_tmp (dir_put name bs d) = dir_tmp d"
  by (simp_all add: dir_put_def)

lemma dir_append_append [simp]: "dir_append name bs' (dir_append name bs d) = dir_append name (bs @ bs') d"
  by (simp add: dir_append_def)

lemma flush_buf_ok: "flush_buf all_ok op w d = (Ok (), w \<lparr> mw_buf := [] \<rparr>,
    if mw_buf w = [] then d else dir_append (mw_name w) (mw_buf w) d)"
  by (cases w) (simp add: flush_buf_def)

lemma append_edit_ok:
  assumes "mw_buf w = []"
  shows "append_edit all_ok e w d = (Ok (), w \<lparr> mw_current_size := mw_current_size w + of_nat (length (edit_record e)) \<rparr>,
     dir_append (mw_name w) (edit_record e) d)"
  using assms
  by (cases w) (auto simp: append_edit_def buf_write_all_def flush_buf_ok flush_buf_def buf_write_cold_def BUF_CAPACITY_def Let_def
      edit_record_def)

text \<open>
  What a buffered write leaves: the file has grown by a part of the buffer and the data, and after
  success the rest is in the buffer.
\<close>

definition grown :: "bytes \<Rightarrow> ManifestWriter \<Rightarrow> ManifestDir \<Rightarrow> unit result \<times> ManifestWriter \<times> ManifestDir \<Rightarrow> bool" where
  "grown data w d = (\<lambda>(res, w', d').
     mw_name w' = mw_name w \<and>
     (\<exists>p q. dir_content d' (mw_name w) = dir_content d (mw_name w) @ p \<and> p @ q = mw_buf w @ data \<and>
        (res = Ok () \<longrightarrow> mw_buf w' = q)))"

lemma grownI:
  assumes "mw_name w' = mw_name w" "dir_content d' (mw_name w) = dir_content d (mw_name w) @ p"
    "p @ q = mw_buf w @ data" "res = Ok () \<Longrightarrow> mw_buf w' = q"
  shows "grown data w d (res, w', d')"
  using assms by (auto simp: grown_def)

lemma grown_flush: "grown [] w d (flush_buf io op w d)"
proof (cases "io op")
  case None
  then show ?thesis
    by (auto simp: flush_buf_def dir_append_def intro!: grownI [of _ _ _ _ "mw_buf w" "[]"])
next
  case (Some n)
  then show ?thesis
    by (auto simp: flush_buf_def dir_append_def intro!: grownI [of _ _ _ _ "take n (mw_buf w)" "drop n (mw_buf w)"])
qed

lemma grown_trans:
  assumes a: "grown data w d (Ok (), w1, d1)" and b: "grown data' w1 d1 (res, w2, d2)"
  shows "grown (data @ data') w d (res, w2, d2)"
proof -
  obtain p q where p: "mw_name w1 = mw_name w" "dir_content d1 (mw_name w) = dir_content d (mw_name w) @ p"
    "p @ q = mw_buf w @ data" "mw_buf w1 = q" using a by (auto simp: grown_def)
  obtain p' q' where p': "mw_name w2 = mw_name w1" "dir_content d2 (mw_name w1) = dir_content d1 (mw_name w1) @ p'"
    "p' @ q' = mw_buf w1 @ data'" "res = Ok () \<Longrightarrow> mw_buf w2 = q'" using b by (auto simp: grown_def)
  have "(p @ p') @ q' = (p @ q) @ data'" using p'(3) p(4) by simp
  also have "\<dots> = mw_buf w @ data @ data'" by (simp add: p(3))
  finally show ?thesis
    using p p' by (intro grownI [of _ _ _ _ "p @ p'" q']) simp_all
qed

lemma grown_fail:
  assumes "grown data w d (Err e, w1, d1)"
  shows "grown (data @ data') w d (Err e, w1, d1)"
proof -
  obtain p q where "mw_name w1 = mw_name w" "dir_content d1 (mw_name w) = dir_content d (mw_name w) @ p"
    "p @ q = mw_buf w @ data" using assms by (auto simp: grown_def)
  then show ?thesis by (intro grownI [of _ _ _ _ p "q @ data'"]) (auto simp flip: append_assoc)
qed

lemma flush_buf_empties: "flush_buf io op w d = (Inr u, w', d') \<Longrightarrow> mw_buf w' = []"
  by (auto simp: flush_buf_def split: if_splits option.splits)

lemma grown_cold:
  assumes "length data < BUF_CAPACITY \<or> mw_buf w = []"
  shows "grown data w d (buf_write_cold io op data w d)"
proof (cases "length data < BUF_CAPACITY")
  case True
  then show ?thesis by (auto simp: buf_write_cold_def intro: grownI [of _ _ _ _ "[]"])
next
  case False
  with assms have b: "mw_buf w = []" by simp
  show ?thesis
  proof (cases "io (op @ ''_direct'')")
    case None
    then show ?thesis using False b
      by (auto simp: buf_write_cold_def dir_append_def intro!: grownI [of _ _ _ _ data "[]"])
  next
    case (Some n)
    then show ?thesis using False b
      by (auto simp: buf_write_cold_def dir_append_def intro!: grownI [of _ _ _ _ "take n data" "drop n data"])
  qed
qed

lemma grown_write_all: "grown data w d (buf_write_all io op data w d)"
proof -
  obtain res w1 d1 where f: "flush_buf io op w d = (res, w1, d1)" by (cases "flush_buf io op w d")
  note g = grown_flush [of w d io op, unfolded f]
  consider (fits) "length data < BUF_CAPACITY - length (mw_buf w)"
    | (exact) "length data = BUF_CAPACITY - length (mw_buf w)"
    | (failed) e where "BUF_CAPACITY - length (mw_buf w) < length data" "res = Err e"
    | (flushed) "BUF_CAPACITY - length (mw_buf w) < length data" "res = Ok ()"
    by (cases res; cases "length data" "BUF_CAPACITY - length (mw_buf w)" rule: linorder_cases) auto
  then show ?thesis
  proof cases
    case fits
    then show ?thesis by (auto simp: buf_write_all_def intro: grownI [of _ _ _ _ "[]"])
  next
    case exact
    then have "length data < BUF_CAPACITY \<or> mw_buf w = []" by (auto simp: BUF_CAPACITY_def)
    from grown_cold [OF this] exact show ?thesis by (simp add: buf_write_all_def)
  next
    case failed
    then show ?thesis using grown_fail [of "[]" w d e w1 d1 data] g f by (simp add: buf_write_all_def)
  next
    case flushed
    have "mw_buf w1 = []" using flush_buf_empties f flushed(2) by blast
    then have c: "grown data w1 d1 (buf_write_cold io op data w1 d1)" by (intro grown_cold) simp
    obtain r w2 d2 where e: "buf_write_cold io op data w1 d1 = (r, w2, d2)" by (cases "buf_write_cold io op data w1 d1")
    show ?thesis using flushed g c grown_trans [of "[]" w d w1 d1 data r w2 d2] f e by (simp add: buf_write_all_def)
  qed
qed

lemma append_edit_grows:
  assumes app: "append_edit io e w d = (res, w', d')"
  shows "grown (edit_record e) w d (res, w', d')" and "res = Ok () \<Longrightarrow> mw_buf w' = []"
proof -
  let ?len = "u64_be (of_nat (length (encode_edit e)))"
  obtain r1 w1 d1 where 1: "buf_write_all io ''manifest_write_len'' ?len w d = (r1, w1, d1)"
    by (cases "buf_write_all io ''manifest_write_len'' ?len w d")
  obtain r2 w2 d2 where 2: "buf_write_all io ''manifest_write_edit'' (encode_edit e) w1 d1 = (r2, w2, d2)"
    by (cases "buf_write_all io ''manifest_write_edit'' (encode_edit e) w1 d1")
  obtain r3 w3 d3 where 3: "flush_buf io ''manifest_flush'' w2 d2 = (r3, w3, d3)"
    by (cases "flush_buf io ''manifest_flush'' w2 d2")
  have g1: "grown ?len w d (r1, w1, d1)" using grown_write_all [of ?len w d] 1 by metis
  have g2: "grown (encode_edit e) w1 d1 (r2, w2, d2)" using grown_write_all [of "encode_edit e" w1 d1] 2 by metis
  have g3: "grown [] w2 d2 (r3, w3, d3)" using grown_flush [of w2 d2] 3 by metis
  show "grown (edit_record e) w d (res, w', d')"
  proof (cases r1)
    case (Inl err)
    then show ?thesis using app 1 grown_fail [of ?len w d err w1 d1 "encode_edit e"] g1
      by (auto simp: append_edit_def edit_record_def Let_def)
  next
    case (Inr u)
    then have g12: "grown (edit_record e) w d (r2, w2, d2)"
      using grown_trans [of ?len w d w1 d1 "encode_edit e" r2 w2 d2] g1 g2 by (simp add: edit_record_def)
    show ?thesis
    proof (cases r2)
      case (Inl err)
      then show ?thesis using app 1 2 Inr g12 by (auto simp: append_edit_def Let_def)
    next
      case (Inr u')
      have "grown (edit_record e) w d (r3, w3, d3)"
        using grown_trans [of "edit_record e" w d w2 d2 "[]" r3 w3 d3] g12 g3 Inr by simp
      then show ?thesis using app 1 2 3 Inr \<open>r1 = Inr u\<close>
        by (auto simp: append_edit_def Let_def grown_def split: sum.splits)
    qed
  qed
  show "mw_buf w' = []" if "res = Ok ()"
    using app that 1 2 3 flush_buf_empties [of io "''manifest_flush''" w2 d2]
    by (auto simp: append_edit_def Let_def split: sum.splits)
qed

section \<open>Properties\<close>

abbreviation reader_at :: "bytes \<Rightarrow> ManifestReader" where
  "reader_at f \<equiv> \<lparr> mr_file = f, mr_rest = f, last_good_offset = 0 \<rparr>"

text \<open>
  (C8) Appending an edit to the manifest is atomic under a crash: whatever the write of the new
  record did, and at whatever length from the end of the earlier records the file is cut, reading
  it back gives the earlier edits or the earlier edits and the new one, never an error, and leaves
  a file of exactly these records.  When \<open>append_edit\<close> has succeeded and nothing is cut, the new
  edit is there.
\<close>

theorem manifest_crash_atomic:
  assumes "list_all recordable (es @ [e])" "mw_buf w = []" "dir_content d (mw_name w) = manifest_bytes es"
    and "append_edit io e w d = (res, w', d')" "length (manifest_bytes es) \<le> n"
  shows "\<exists>es' r'. read_all_edits all_ok (reader_at (take n (dir_content d' (mw_name w)))) = (Ok es', r') \<and>
     mr_file r' = manifest_bytes es' \<and>
     (if n < length (manifest_bytes (es @ [e])) then es' = es
      else es' \<in> {es, es @ [e]} \<and> (res = Ok () \<longrightarrow> es' = es @ [e]))"
proof -
  obtain p q where p: "dir_content d' (mw_name w) = manifest_bytes es @ p" "p @ q = edit_record e"
    "res = Ok () \<Longrightarrow> mw_buf w' = q"
    using append_edit_grows(1) [OF assms(4)] assms(2,3) by (auto simp: grown_def)
  let ?k = "min n (length (manifest_bytes es @ p))"
  let ?es = "take (whole_edits ?k (es @ [e])) (es @ [e])"
  have f: "take n (dir_content d' (mw_name w)) = take ?k (manifest_bytes (es @ [e]))"
    using assms(5) by (auto simp: p(1) p(2) [symmetric] min_def)
  obtain r' where r': "read_all_edits all_ok (reader_at (take n (dir_content d' (mw_name w)))) = (Ok ?es, r')"
    "mr_file r' = manifest_bytes ?es"
    using read_all_edits_torn [OF assms(1) refl, of ?k] unfolding f by blast
  have whole: "whole_edits ?k (es @ [e]) = (if ?k < length (manifest_bytes (es @ [e])) then length es else Suc (length es))"
    by (rule whole_edits_snoc) (use assms(5) in simp)
  have "?es = es" if "n < length (manifest_bytes (es @ [e]))"
    using that whole by simp
  moreover have "?es = es @ [e]" if "\<not> n < length (manifest_bytes (es @ [e]))" "res = Ok ()"
    using that whole p(2,3) append_edit_grows(2) [OF assms(4)] by simp
  moreover have "?es \<in> {es, es @ [e]}" using whole by simp
  ultimately show ?thesis using r' by metis
qed

lemma sample_recordable: "recordable new_VersionEdit" "recordable (new_VersionEdit \<lparr> edit_log_number := Some 5 \<rparr>)"
  by (simp_all add: recordable_def edit_ok_def new_VersionEdit_def encode_edit_def put_opt_def put_tag_def
      tag_defs codec_simps put_varint64_append)

theorem manifest_crash_atomic_witness:
  "\<exists>d' res w'. append_edit (all_ok(''manifest_flush'' := Some 3)) (new_VersionEdit \<lparr> edit_log_number := Some 5 \<rparr>)
       \<lparr> mw_name = [1], mw_buf = [], mw_file_number = 0, mw_current_size = 8 \<rparr>
       \<lparr> dir_current = None, dir_tmp = None, dir_files = [([1], manifest_bytes [new_VersionEdit])] \<rparr> = (res, w', d') \<and>
     (\<exists>es' r'. read_all_edits all_ok (reader_at (take 11 (dir_content d' [1]))) = (Ok es', r') \<and>
        mr_file r' = manifest_bytes es')"
proof -
  let ?e = "new_VersionEdit \<lparr> edit_log_number := Some 5 \<rparr>"
  let ?w = "\<lparr> mw_name = [1], mw_buf = [], mw_file_number = 0, mw_current_size = 8 \<rparr>"
  let ?d = "\<lparr> dir_current = None, dir_tmp = None, dir_files = [([1], manifest_bytes [new_VersionEdit])] \<rparr>"
  obtain res w' d' where a: "append_edit (all_ok(''manifest_flush'' := Some 3)) ?e ?w ?d = (res, w', d')"
    by (cases "append_edit (all_ok(''manifest_flush'' := Some 3)) ?e ?w ?d")
  have "length (manifest_bytes [new_VersionEdit]) \<le> 11"
    by (simp add: length_edit_record encode_edit_def new_VersionEdit_def put_opt_def)
  from manifest_crash_atomic [of "[new_VersionEdit]" ?e ?w ?d, OF _ _ _ a this] sample_recordable a
  show ?thesis by (auto simp: dir_content_def)
qed

end
