(* ===== verification/Sstable_Reader.thy ===== *)
theory Sstable_Reader
  imports Sstable_Builder
begin

text \<open>
  \<open>storage/sstable/reader.rs\<close>: opening a table, point lookups, scans.  The file is a byte
  string; \<open>io\<close> says which labelled read fails.  The block cache, the cache of filter
  partitions and the per-block search index slots only keep values that are functions
  of the immutable file, so the model reads the file each time.
\<close>

definition SSTABLE_FORMAT_VERSION_LEGACY :: u8 where "SSTABLE_FORMAT_VERSION_LEGACY = 0"

record IndexEntry =
  separator :: bytes
  block_offset :: nat
  block_size :: nat

record BloomPartitionIndexEntry =
  bp_offset :: nat
  bp_size :: nat

record PartitionedBloomFilter =
  prefix_extractor_len :: nat
  partitions :: "BloomPartitionIndexEntry list"

datatype BloomFilterStorage = Legacy bytes | Partitioned PartitionedBloomFilter

record SSTableReader =
  sst_file :: bytes
  bloom_filter :: BloomFilterStorage
  index_entries :: "IndexEntry list"
  format_version :: u8

definition sst_corruption :: "string \<Rightarrow> Error" where
  "sst_corruption message = Corruption ''sstable_reader'' message"

text \<open>
  \<open>read_exact_at\<close>: \<open>read_at\<close> may return fewer bytes than asked for and the loop goes on;
  it ends with the whole range or at the end of the file.
\<close>

definition read_exact_at :: "(string \<Rightarrow> bool) \<Rightarrow> bytes \<Rightarrow> nat \<Rightarrow> nat \<Rightarrow> string \<Rightarrow> bytes result" where
  "read_exact_at io f offset n op =
     (if n = 0 then Ok []
      else if io op then Err (Io op)
      else if length f < offset + n then Err (Corruption ''sstable_read_at'' ''unexpected EOF while reading at offset'')
      else Ok (subslice f offset (offset + n)))"

definition validate_sstable_internal_key_kind :: "InternalKey \<Rightarrow> unit result" where
  "validate_sstable_internal_key_kind k =
     (case kind k of
        Inr Put \<Rightarrow> Ok ()
      | Inr Delete \<Rightarrow> Ok ()
      | Inr TxnBatchBegin \<Rightarrow> Err (sst_corruption ''invalid internal key kind for sstable: TxnBatchBegin'')
      | Inl _ \<Rightarrow> Err (sst_corruption ''invalid internal key kind''))"

definition sst_decode_internal_key :: "bytes \<Rightarrow> InternalKey result" where
  "sst_decode_internal_key raw_key =
     (if length raw_key < 8 then Err (sst_corruption ''invalid internal key length in data block'')
      else
        let n = length raw_key;
            encoded = NOT (from_be (drop (n - 8) raw_key) :: u64);
            key = from_encoded (take (n - 8) raw_key) encoded
        in and_then (validate_sstable_internal_key_kind key) (\<lambda>_. Ok key))"

definition verify_block_checksum :: "(bytes \<Rightarrow> u32) \<Rightarrow> bytes \<Rightarrow> bytes result" where
  "verify_block_checksum crc block =
     (if length block < BLOCK_CHECKSUM_SIZE
      then Err (sst_corruption ''block is too small to contain checksum trailer'')
      else
        let payload_len = length block - BLOCK_CHECKSUM_SIZE;
            payload = take payload_len block;
            expected = from_le (drop payload_len block) :: u32
        in if crc payload \<noteq> expected then Err (sst_corruption ''checksum mismatch'') else Ok payload)"

definition decode_block_payload_with_format :: "u8 \<Rightarrow> bytes \<Rightarrow> bytes result" where
  "decode_block_payload_with_format version payload =
     (if version < SSTABLE_FORMAT_VERSION_BLOCK_COMPRESSION then Ok payload
      else if length payload < BLOCK_COMPRESSION_HEADER_SIZE
      then Err (sst_corruption ''payload too small for compression header'')
      else
        and_then (map_err (\<lambda>_. sst_corruption ''invalid compression tag'') (from_tag (payload ! 0))) (\<lambda>c.
        let uncompressed_len = unat (from_le (subslice payload 1 5) :: u32);
            encoded = drop BLOCK_COMPRESSION_HEADER_SIZE payload
        in map_err (\<lambda>_. sst_corruption ''decompression failed'') (decompress c encoded uncompressed_len)))"

section \<open>Opening\<close>

fun parse_bloom_index :: "nat \<Rightarrow> nat \<Rightarrow> nat \<Rightarrow> nat \<Rightarrow> bytes \<Rightarrow> BloomPartitionIndexEntry list result" where
  "parse_bloom_index bloom_offset bloom_size data_start 0 buf = Ok []"
| "parse_bloom_index bloom_offset bloom_size data_start (Suc n) buf =
     (let offset = unat (from_le (take 8 buf) :: u64);
          size = unat (from_le (subslice buf 8 16) :: u64);
          stop = min (offset + size) (2 ^ 64 - 1)
      in if bloom_size < stop \<or> offset < data_start
         then Err (sst_corruption ''partitioned bloom entry out of range'')
         else and_then (parse_bloom_index bloom_offset bloom_size data_start n (drop 16 buf)) (\<lambda>ps.
           Ok (\<lparr> bp_offset = min (bloom_offset + offset) (2 ^ 64 - 1), bp_size = size \<rparr> # ps)))"

definition parse_partitioned_bloom_filter ::
  "(string \<Rightarrow> bool) \<Rightarrow> bytes \<Rightarrow> nat \<Rightarrow> nat \<Rightarrow> PartitionedBloomFilter option result" where
  "parse_partitioned_bloom_filter io f bloom_offset bloom_size =
     (if bloom_size < PARTITIONED_BLOOM_HEADER_SIZE then Ok None
      else and_then (read_exact_at io f bloom_offset PARTITIONED_BLOOM_HEADER_SIZE ''sstable_read_bloom_header'') (\<lambda>header.
        if take 4 header \<noteq> PARTITIONED_BLOOM_MAGIC then Ok None
        else if header ! 4 \<noteq> PARTITIONED_BLOOM_VERSION
        then Err (sst_corruption ''unsupported partitioned bloom version'')
        else
          let prefix_len = unat (from_le (subslice header 5 7) :: u16);
              partition_count = unat (from_le (subslice header 7 11) :: u32);
              index_size = PARTITIONED_BLOOM_INDEX_ENTRY_SIZE * partition_count;
              data_start = PARTITIONED_BLOOM_HEADER_SIZE + index_size
          in if bloom_size < data_start then Err (sst_corruption ''partitioned bloom index out of range'')
             else and_then (read_exact_at io f (bloom_offset + PARTITIONED_BLOOM_HEADER_SIZE) index_size
                 ''sstable_read_bloom_index'') (\<lambda>index_buf.
               and_then (parse_bloom_index bloom_offset bloom_size data_start partition_count index_buf) (\<lambda>ps.
               Ok (Some \<lparr> prefix_extractor_len = prefix_len, partitions = ps \<rparr>)))))"

definition parse_footer_format_version :: "bytes \<Rightarrow> u8" where
  "parse_footer_format_version padding =
     (if FOOTER_FORMAT_METADATA_SIZE \<le> length padding \<and> take 4 padding = FOOTER_FORMAT_MARKER
      then padding ! 4 else SSTABLE_FORMAT_VERSION_LEGACY)"

definition read_bloom_filter :: "(string \<Rightarrow> bool) \<Rightarrow> bytes \<Rightarrow> nat \<Rightarrow> nat \<Rightarrow> BloomFilterStorage result" where
  "read_bloom_filter io f bloom_offset bloom_size =
     and_then (parse_partitioned_bloom_filter io f bloom_offset bloom_size) (\<lambda>p.
     case p of
       Some partitioned \<Rightarrow> Ok (Partitioned partitioned)
     | None \<Rightarrow> and_then (read_exact_at io f bloom_offset bloom_size ''sstable_read_bloom'') (\<lambda>bm. Ok (Legacy bm)))"

fun parse_index_entries :: "(bytes \<times> bytes) list \<Rightarrow> IndexEntry list result" where
  "parse_index_entries [] = Ok []"
| "parse_index_entries ((sep, offset_data) # rest) =
     (if length offset_data < 2 then Err (sst_corruption ''Index entry offset data too short'')
      else
        and_then (map_err (\<lambda>_. sst_corruption ''Failed to decode block offset varint'')
          (decode_varint64_with_length offset_data)) (\<lambda>(off, offset_len).
        and_then (map_err (\<lambda>_. sst_corruption ''Failed to decode block size varint'')
          (decode_varint64 (drop offset_len offset_data))) (\<lambda>sz.
        and_then (parse_index_entries rest) (\<lambda>es.
        Ok (\<lparr> separator = sep, block_offset = unat off, block_size = unat sz \<rparr> # es)))))"

text \<open>\<open>sort_by\<close> on the separators is a stable sort.\<close>

definition sort_index :: "IndexEntry list \<Rightarrow> IndexEntry list" where
  "sort_index es = sort_key separator es"

text \<open>A parse error of the index block is reported as corruption; a panic stays one.\<close>

definition as_corruption :: "string \<Rightarrow> Error \<Rightarrow> Error" where
  "as_corruption message e = (case e of Panic m \<Rightarrow> Panic m | _ \<Rightarrow> sst_corruption message)"

definition read_index ::
  "(bytes \<Rightarrow> u32) \<Rightarrow> (string \<Rightarrow> bool) \<Rightarrow> bytes \<Rightarrow> nat \<Rightarrow> nat \<Rightarrow> u8 \<Rightarrow> IndexEntry list result" where
  "read_index crc io f index_offset footer_start version =
     (if footer_start \<le> index_offset then Err (sst_corruption ''Index block start beyond footer'')
      else
        let index_block_size = footer_start - index_offset
        in if index_block_size \<le> BLOCK_CHECKSUM_SIZE
           then Err (sst_corruption ''Index block size is too small to contain checksum'')
           else
             and_then (read_exact_at io f index_offset index_block_size ''sstable_read_index'') (\<lambda>block.
             and_then (verify_block_checksum crc block) (\<lambda>payload.
             and_then (decode_block_payload_with_format version payload) (\<lambda>data.
             and_then (map_err (as_corruption ''Failed to parse index block'') (new_BlockReader data)) (\<lambda>r.
             and_then (block_iter r) (\<lambda>kvs.
             and_then (parse_index_entries kvs) (\<lambda>es. Ok (sort_index es))))))))"

definition sst_open :: "(bytes \<Rightarrow> u32) \<Rightarrow> (string \<Rightarrow> bool) \<Rightarrow> bytes \<Rightarrow> SSTableReader result" where
  "sst_open crc io f =
     (let file_size = length f in
      if io ''sstable_open'' then Err (Io ''sstable_open'')
      else if io ''sstable_metadata'' then Err (Io ''sstable_metadata'')
      else if file_size < FOOTER_SIZE
      then Err (sst_corruption ''SSTable file is too small to contain valid footer'')
      else
        let footer_offset = file_size - FOOTER_SIZE
        in and_then (read_exact_at io f footer_offset FOOTER_SIZE ''sstable_read_footer'') (\<lambda>footer.
           if from_le (drop 40 footer) \<noteq> MAGIC_NUMBER then Err (sst_corruption ''Invalid magic number'')
           else
             and_then (map_err (\<lambda>_. sst_corruption ''Failed to decode bloom filter offset'')
               (decode_varint64_with_length footer)) (\<lambda>(bloom_off, n1).
             and_then (map_err (\<lambda>_. sst_corruption ''Failed to decode index block offset'')
               (decode_varint64_with_length (drop n1 footer))) (\<lambda>(index_off, n2).
             let bloom_offset = unat bloom_off; index_offset = unat index_off;
                 version = parse_footer_format_version (subslice footer (n1 + n2) 40)
             in if SSTABLE_FORMAT_VERSION_CURRENT < version
                then Err (sst_corruption ''unsupported sstable format version'')
                else if file_size \<le> bloom_offset then Err (sst_corruption ''Invalid bloom_offset'')
                else if file_size \<le> index_offset then Err (sst_corruption ''Invalid index_offset'')
                else if index_offset \<le> bloom_offset then Err (sst_corruption ''Invalid offset order'')
                else
                  and_then (read_bloom_filter io f bloom_offset (index_offset - bloom_offset)) (\<lambda>bloom.
                  and_then (read_index crc io f index_offset footer_offset version) (\<lambda>es.
                  if (case bloom of Partitioned p \<Rightarrow> length (partitions p) \<noteq> length es | Legacy _ \<Rightarrow> False)
                  then Err (sst_corruption ''partitioned bloom partition count does not match data blocks'')
                  else Ok \<lparr> sst_file = f, bloom_filter = bloom, index_entries = es,
                            format_version = version \<rparr>))))))"

section \<open>Lookups\<close>

function index_lower_bound :: "IndexEntry list \<Rightarrow> bytes \<Rightarrow> nat \<Rightarrow> nat \<Rightarrow> nat" where
  "index_lower_bound es key left right =
     (if left < right then
        let mid = (left + right) div 2
        in (case cmp (separator (es ! mid)) key of
              Less \<Rightarrow> index_lower_bound es key (mid + 1) right
            | _ \<Rightarrow> index_lower_bound es key left mid)
      else left)"
  by pat_completeness auto
termination
  by (relation "measure (\<lambda>(_, _, left, right). right - left)") (auto simp: Let_def)

declare index_lower_bound.simps [simp del]

definition find_block_index_for_key :: "SSTableReader \<Rightarrow> bytes \<Rightarrow> nat option" where
  "find_block_index_for_key r key =
     (let es = index_entries r in
      if es = [] then None
      else let left = index_lower_bound es key 0 (length es)
           in if left < length es then Some left else Some (length es - 1))"

definition bloom_may_contain ::
  "(bytes \<Rightarrow> u64) \<Rightarrow> (string \<Rightarrow> bool) \<Rightarrow> bytes \<Rightarrow> PartitionedBloomFilter \<Rightarrow> bytes \<Rightarrow> nat \<Rightarrow> bool result" where
  "bloom_may_contain hash io f p key block_index =
     (if length (partitions p) \<le> block_index then Ok True
      else
        let part = partitions p ! block_index;
            lookup_key = bloom_lookup_key key (prefix_extractor_len p)
        in and_then (read_exact_at io f (bp_offset part) (bp_size part) ''sstable_read_bloom_partition'') (\<lambda>bm.
           Ok (bloom_contains hash lookup_key bm)))"

definition may_contain_for_block ::
  "(bytes \<Rightarrow> u64) \<Rightarrow> (string \<Rightarrow> bool) \<Rightarrow> SSTableReader \<Rightarrow> bytes \<Rightarrow> nat \<Rightarrow> bool result" where
  "may_contain_for_block hash io r key block_index =
     (case bloom_filter r of
        Legacy bm \<Rightarrow> Ok (bloom_contains hash key bm)
      | Partitioned p \<Rightarrow> bloom_may_contain hash io (sst_file r) p key block_index)"

definition probe_key :: "bytes \<Rightarrow> bytes result" where
  "probe_key key = and_then (new_InternalKey key SEQUENCE_NUMBER_MAX Put) (\<lambda>k. Ok (serialize k))"

definition sst_may_contain :: "(bytes \<Rightarrow> u64) \<Rightarrow> (string \<Rightarrow> bool) \<Rightarrow> SSTableReader \<Rightarrow> bytes \<Rightarrow> bool result" where
  "sst_may_contain hash io r key =
     (case bloom_filter r of
        Legacy bm \<Rightarrow> Ok (bloom_contains hash key bm)
      | Partitioned _ \<Rightarrow>
          and_then (probe_key key) (\<lambda>probe.
          case find_block_index_for_key r probe of
            None \<Rightarrow> Ok False
          | Some block_index \<Rightarrow>
              (case may_contain_for_block hash io r key block_index of Inl _ \<Rightarrow> Ok True | Inr b \<Rightarrow> Ok b)))"

definition load_data_block_payload ::
  "(bytes \<Rightarrow> u32) \<Rightarrow> (string \<Rightarrow> bool) \<Rightarrow> SSTableReader \<Rightarrow> IndexEntry \<Rightarrow> bytes result" where
  "load_data_block_payload crc io r e =
     and_then (read_exact_at io (sst_file r) (block_offset e) (block_size e) ''sstable_read_data_block'') (\<lambda>block.
     and_then (verify_block_checksum crc block) (decode_block_payload_with_format (format_version r)))"

text \<open>
  The reader of a data block: the search index is parsed from the payload (and cached in the
  code), then attached to it.
\<close>

definition open_data_block :: "bytes \<Rightarrow> BlockReader result" where
  "open_data_block payload =
     and_then (map_err (as_corruption ''Failed to parse data block index'') (parse_search_index payload)) (\<lambda>si.
     map_err (as_corruption ''Failed to parse data block'') (with_search_index payload si))"

definition pin_value :: "bytes \<Rightarrow> nat \<Rightarrow> nat \<Rightarrow> bytes option" where
  "pin_value payload off len =
     (if 2 ^ 64 \<le> off + len then None
      else if length payload < off + len then None else Some (subslice payload off (off + len)))"

text \<open>
  The end of \<open>get_pinned_at_seq\<close>; \<open>get_pinned\<close> checks the bounds, with a saturating addition,
  before it does the same.
\<close>

definition pinned_entry :: "bytes \<Rightarrow> value_range \<Rightarrow> entry result" where
  "pinned_entry payload = (\<lambda>(ik, off, len).
     and_then (validate_sstable_internal_key_kind ik) (\<lambda>_.
     case pin_value payload off len of
       None \<Rightarrow> Err (sst_corruption ''failed to pin value range'')
     | Some v \<Rightarrow> Ok (ik, v)))"

definition checked_pinned_entry :: "bytes \<Rightarrow> value_range \<Rightarrow> entry result" where
  "checked_pinned_entry payload = (\<lambda>(ik, off, len).
     and_then (validate_sstable_internal_key_kind ik) (\<lambda>_.
     if length payload < min (off + len) (2 ^ 64 - 1)
     then Err (sst_corruption ''value range out of data block bounds'')
     else pinned_entry payload (ik, off, len)))"

definition sst_get_pinned ::
  "(bytes \<Rightarrow> u64) \<Rightarrow> (bytes \<Rightarrow> u32) \<Rightarrow> (string \<Rightarrow> bool) \<Rightarrow> SSTableReader \<Rightarrow> bytes \<Rightarrow> entry option result" where
  "sst_get_pinned hash crc io r key =
     and_then (probe_key key) (\<lambda>probe.
     case find_block_index_for_key r probe of
       None \<Rightarrow> Ok None
     | Some block_index \<Rightarrow>
         and_then (may_contain_for_block hash io r key block_index) (\<lambda>may.
         if \<not> may then Ok None
         else
           and_then (load_data_block_payload crc io r (index_entries r ! block_index)) (\<lambda>payload.
           and_then (open_data_block payload) (\<lambda>br.
           and_then (get_by_user_key_entry br key) (\<lambda>found.
           case found of None \<Rightarrow> Ok None | Some vr \<Rightarrow> and_then (checked_pinned_entry payload vr) (\<lambda>e. Ok (Some e)))))))"

text \<open>The loop over the blocks from the first candidate on.\<close>

fun sst_at_seq_loop ::
  "(bytes \<Rightarrow> u64) \<Rightarrow> (bytes \<Rightarrow> u32) \<Rightarrow> (string \<Rightarrow> bool) \<Rightarrow> SSTableReader \<Rightarrow> bytes \<Rightarrow> u64 \<Rightarrow> nat \<Rightarrow> IndexEntry list \<Rightarrow>
   bool \<Rightarrow> entry option result" where
  "sst_at_seq_loop hash crc io r key read_seq block_index [] seen = Ok None"
| "sst_at_seq_loop hash crc io r key read_seq block_index (e # es) seen =
     and_then (may_contain_for_block hash io r key block_index) (\<lambda>may.
     if \<not> may then sst_at_seq_loop hash crc io r key read_seq (block_index + 1) es seen
     else
       and_then (load_data_block_payload crc io r e) (\<lambda>payload.
       and_then (open_data_block payload) (\<lambda>br.
       and_then (get_by_user_key_with_value_range_at_seq br key read_seq) (\<lambda>found.
       case found of
         Some vr \<Rightarrow> and_then (pinned_entry payload vr) (\<lambda>x. Ok (Some x))
       | None \<Rightarrow>
           and_then (get_by_user_key_entry br key) (\<lambda>any_version.
           if any_version \<noteq> None then sst_at_seq_loop hash crc io r key read_seq (block_index + 1) es True
           else if seen then Ok None
           else if (case user_key_of_internal_key (separator e) of Some sk \<Rightarrow> key < sk | None \<Rightarrow> False) then Ok None
           else sst_at_seq_loop hash crc io r key read_seq (block_index + 1) es seen)))))"

definition sst_get_pinned_at_seq ::
  "(bytes \<Rightarrow> u64) \<Rightarrow> (bytes \<Rightarrow> u32) \<Rightarrow> (string \<Rightarrow> bool) \<Rightarrow> SSTableReader \<Rightarrow> bytes \<Rightarrow> u64 \<Rightarrow> entry option result" where
  "sst_get_pinned_at_seq hash crc io r key read_seq =
     and_then (probe_key key) (\<lambda>probe.
     case find_block_index_for_key r probe of
       None \<Rightarrow> Ok None
     | Some start \<Rightarrow> sst_at_seq_loop hash crc io r key read_seq start (drop start (index_entries r)) False)"

section \<open>Scans\<close>

fun decode_entries :: "(bytes \<times> bytes) list \<Rightarrow> entry list result" where
  "decode_entries [] = Ok []"
| "decode_entries ((k, v) # kvs) =
     and_then (sst_decode_internal_key k) (\<lambda>ik. and_then (decode_entries kvs) (\<lambda>es. Ok ((ik, v) # es)))"

definition scan_block :: "(bytes \<Rightarrow> u32) \<Rightarrow> (string \<Rightarrow> bool) \<Rightarrow> SSTableReader \<Rightarrow> IndexEntry \<Rightarrow> entry list result" where
  "scan_block crc io r e =
     and_then (load_data_block_payload crc io r e) (\<lambda>payload.
     and_then (map_err (as_corruption ''Failed to parse data block during scan'') (new_BlockReader payload)) (\<lambda>br.
     and_then (block_iter br) decode_entries))"

fun scan_blocks :: "(bytes \<Rightarrow> u32) \<Rightarrow> (string \<Rightarrow> bool) \<Rightarrow> SSTableReader \<Rightarrow> IndexEntry list \<Rightarrow> entry list result" where
  "scan_blocks crc io r [] = Ok []"
| "scan_blocks crc io r (e # es) =
     and_then (scan_block crc io r e) (\<lambda>xs. and_then (scan_blocks crc io r es) (\<lambda>ys. Ok (xs @ ys)))"

definition scan_all :: "(bytes \<Rightarrow> u32) \<Rightarrow> (string \<Rightarrow> bool) \<Rightarrow> SSTableReader \<Rightarrow> entry list result" where
  "scan_all crc io r = scan_blocks crc io r (index_entries r)"

definition SCAN_ITERATOR_DEFAULT_READAHEAD_BLOCKS :: nat where
  "SCAN_ITERATOR_DEFAULT_READAHEAD_BLOCKS = 2"

record SSTableScanIterator =
  si_reader :: SSTableReader
  si_block_index :: nat
  pending_entries :: "entry list"
  prefetched_blocks :: "(nat \<times> bytes) list"
  readahead_blocks :: nat

definition prefetch_one ::
  "(bytes \<Rightarrow> u32) \<Rightarrow> (string \<Rightarrow> bool) \<Rightarrow> SSTableReader \<Rightarrow> nat \<Rightarrow> (nat \<times> bytes) list \<Rightarrow> (nat \<times> bytes) list" where
  "prefetch_one crc io r idx pre =
     (if map_of pre idx \<noteq> None then pre
      else case load_data_block_payload crc io r (index_entries r ! idx) of
        Inr payload \<Rightarrow> (idx, payload) # pre
      | Inl _ \<Rightarrow> pre)"

definition prefetch_upcoming_blocks ::
  "(bytes \<Rightarrow> u32) \<Rightarrow> (string \<Rightarrow> bool) \<Rightarrow> SSTableScanIterator \<Rightarrow> SSTableScanIterator" where
  "prefetch_upcoming_blocks crc io it =
     (if readahead_blocks it = 0 then it
      else
        let kept = filter (\<lambda>(idx, _). si_block_index it \<le> idx) (prefetched_blocks it);
            start = si_block_index it + 1;
            stop = min (start + readahead_blocks it) (length (index_entries (si_reader it)))
        in it \<lparr> prefetched_blocks := fold (prefetch_one crc io (si_reader it)) [start..<stop] kept \<rparr>)"

definition into_scan_iterator ::
  "(bytes \<Rightarrow> u32) \<Rightarrow> (string \<Rightarrow> bool) \<Rightarrow> SSTableReader \<Rightarrow> SSTableScanIterator" where
  "into_scan_iterator crc io r =
     prefetch_upcoming_blocks crc io \<lparr> si_reader = r, si_block_index = 0, pending_entries = [],
       prefetched_blocks = [],
       readahead_blocks = min SCAN_ITERATOR_DEFAULT_READAHEAD_BLOCKS (length (index_entries r) - 1) \<rparr>"

definition load_block_payload ::
  "(bytes \<Rightarrow> u32) \<Rightarrow> (string \<Rightarrow> bool) \<Rightarrow> nat \<Rightarrow> SSTableScanIterator \<Rightarrow> bytes result \<times> SSTableScanIterator" where
  "load_block_payload crc io idx it =
     (case map_of (prefetched_blocks it) idx of
        Some payload \<Rightarrow>
          (Ok payload, it \<lparr> prefetched_blocks := filter (\<lambda>(i, _). i \<noteq> idx) (prefetched_blocks it) \<rparr>)
      | None \<Rightarrow> (load_data_block_payload crc io (si_reader it) (index_entries (si_reader it) ! idx), it))"

text \<open>Entries are queued one by one; those before a bad key stay queued.\<close>

fun push_decoded :: "(bytes \<times> bytes) list \<Rightarrow> entry list \<Rightarrow> unit result \<times> entry list" where
  "push_decoded [] pending = (Ok (), pending)"
| "push_decoded ((k, v) # kvs) pending =
     (case sst_decode_internal_key k of
        Inl e \<Rightarrow> (Err e, pending)
      | Inr ik \<Rightarrow> push_decoded kvs (pending @ [(ik, v)]))"

text \<open>The part of \<open>next_entry\<close> that moves on to the next block.\<close>

definition advance_block ::
  "(bytes \<Rightarrow> u32) \<Rightarrow> (string \<Rightarrow> bool) \<Rightarrow> SSTableScanIterator \<Rightarrow> unit result \<times> SSTableScanIterator" where
  "advance_block crc io it =
     (case load_block_payload crc io (si_block_index it) it of
        (Inl e, it1) \<Rightarrow> (Err e, it1)
      | (Inr payload, it1) \<Rightarrow>
          (case map_err (as_corruption ''Failed to parse data block during scan'') (new_BlockReader payload) of
             Inl e \<Rightarrow> (Err e, it1)
           | Inr br \<Rightarrow>
               (case block_iter br of
                  Inl e \<Rightarrow> (Err e, it1)
                | Inr kvs \<Rightarrow>
                    (case push_decoded kvs [] of
                       (Inl e, pending) \<Rightarrow> (Err e, it1 \<lparr> pending_entries := pending \<rparr>)
                     | (Inr _, pending) \<Rightarrow>
                         (Ok (), prefetch_upcoming_blocks crc io
                           (it1 \<lparr> pending_entries := pending, si_block_index := si_block_index it1 + 1 \<rparr>))))))"

lemma prefetch_upcoming_blocks_keeps [simp]:
  "si_reader (prefetch_upcoming_blocks crc io it) = si_reader it"
  "si_block_index (prefetch_upcoming_blocks crc io it) = si_block_index it"
  "pending_entries (prefetch_upcoming_blocks crc io it) = pending_entries it"
  "readahead_blocks (prefetch_upcoming_blocks crc io it) = readahead_blocks it"
  by (simp_all add: prefetch_upcoming_blocks_def Let_def)

lemma load_block_payload_keeps:
  "load_block_payload crc io idx it = (res, it1) \<Longrightarrow>
   si_reader it1 = si_reader it \<and> si_block_index it1 = si_block_index it \<and> pending_entries it1 = pending_entries it"
  by (auto simp: load_block_payload_def split: option.splits)

lemma advance_block_progress [termination_simp]:
  "advance_block crc io it = (Inr u, it1) \<Longrightarrow>
   si_reader it1 = si_reader it \<and> si_block_index it1 = Suc (si_block_index it)"
  by (auto simp: advance_block_def split: prod.splits sum.splits dest: load_block_payload_keeps)

function next_entry ::
  "(bytes \<Rightarrow> u32) \<Rightarrow> (string \<Rightarrow> bool) \<Rightarrow> SSTableScanIterator \<Rightarrow> entry option result \<times> SSTableScanIterator" where
  "next_entry crc io it =
     (case pending_entries it of
        e # es \<Rightarrow> (Ok (Some e), it \<lparr> pending_entries := es \<rparr>)
      | [] \<Rightarrow>
          if length (index_entries (si_reader it)) \<le> si_block_index it then (Ok None, it)
          else (case advance_block crc io it of
                  (Inl e, it1) \<Rightarrow> (Err e, it1)
                | (Inr _, it1) \<Rightarrow> next_entry crc io it1))"
  by pat_completeness auto
termination
  by (relation "measure (\<lambda>(_, _, it). length (index_entries (si_reader it)) - si_block_index it)")
    (auto dest!: advance_block_progress [OF sym])

declare next_entry.simps [simp del]

text \<open>Up to \<open>n\<close> calls of \<open>next_entry\<close>, until one says that the scan is over.\<close>

fun next_entries ::
  "(bytes \<Rightarrow> u32) \<Rightarrow> (string \<Rightarrow> bool) \<Rightarrow> nat \<Rightarrow> SSTableScanIterator \<Rightarrow> (entry list \<times> bool) result" where
  "next_entries crc io 0 it = Ok ([], False)"
| "next_entries crc io (Suc n) it =
     (case next_entry crc io it of
        (Inl e, _) \<Rightarrow> Err e
      | (Inr None, _) \<Rightarrow> Ok ([], True)
      | (Inr (Some x), it1) \<Rightarrow> and_then (next_entries crc io n it1) (\<lambda>(xs, fin). Ok (x # xs, fin)))"

section \<open>The streaming scan is the full scan\<close>

definition prefetched_ok :: "(bytes \<Rightarrow> u32) \<Rightarrow> (string \<Rightarrow> bool) \<Rightarrow> SSTableReader \<Rightarrow> (nat \<times> bytes) list \<Rightarrow> bool" where
  "prefetched_ok crc io r pre \<longleftrightarrow>
     (\<forall>(i, p) \<in> set pre. load_data_block_payload crc io r (index_entries r ! i) = Ok p)"

lemma prefetch_one_ok: "prefetched_ok crc io r pre \<Longrightarrow> prefetched_ok crc io r (prefetch_one crc io r i pre)"
  by (auto simp: prefetch_one_def prefetched_ok_def split: sum.splits)

lemma fold_prefetch_ok:
  "prefetched_ok crc io r pre \<Longrightarrow> prefetched_ok crc io r (fold (prefetch_one crc io r) is pre)"
  by (induction "is" arbitrary: pre) (auto simp: prefetch_one_ok)

lemma prefetched_ok_filter: "prefetched_ok crc io r pre \<Longrightarrow> prefetched_ok crc io r (filter P pre)"
  by (auto simp: prefetched_ok_def)

lemma prefetch_upcoming_ok:
  "prefetched_ok crc io (si_reader it) (prefetched_blocks it) \<Longrightarrow>
   prefetched_ok crc io (si_reader it) (prefetched_blocks (prefetch_upcoming_blocks crc io it))"
  by (simp add: prefetch_upcoming_blocks_def Let_def fold_prefetch_ok prefetched_ok_filter)

lemma into_scan_iterator_ok:
  "prefetched_ok crc io r (prefetched_blocks (into_scan_iterator crc io r))"
proof -
  define it where "it = \<lparr> si_reader = r, si_block_index = 0, pending_entries = [], prefetched_blocks = [],
    readahead_blocks = min SCAN_ITERATOR_DEFAULT_READAHEAD_BLOCKS (length (index_entries r) - 1) \<rparr>"
  have "prefetched_ok crc io (si_reader it) (prefetched_blocks it)"
    by (simp add: it_def prefetched_ok_def)
  from prefetch_upcoming_ok [OF this] show ?thesis
    by (simp add: into_scan_iterator_def it_def)
qed

lemma load_block_payload_cached:
  "prefetched_ok crc io (si_reader it) (prefetched_blocks it) \<Longrightarrow>
   load_block_payload crc io idx it = (res, it1) \<Longrightarrow>
   res = load_data_block_payload crc io (si_reader it) (index_entries (si_reader it) ! idx) \<and>
   prefetched_ok crc io (si_reader it) (prefetched_blocks it1)"
  by (auto simp: load_block_payload_def prefetched_ok_filter prefetched_ok_def split: option.splits
      dest!: map_of_SomeD)

lemma push_decoded_decode:
  "push_decoded kvs pending = (res, out) \<Longrightarrow>
   (case decode_entries kvs of Inl e \<Rightarrow> res = Err e | Inr es \<Rightarrow> res = Ok () \<and> out = pending @ es)"
  by (induction kvs pending rule: push_decoded.induct)
    (auto simp: and_then_def split: sum.splits)

lemma advance_block_scan:
  assumes ok: "prefetched_ok crc io (si_reader it) (prefetched_blocks it)"
    and adv: "advance_block crc io it = (res, it1)"
  shows "case scan_block crc io (si_reader it) (index_entries (si_reader it) ! si_block_index it) of
      Inl e \<Rightarrow> res = Err e
    | Inr es \<Rightarrow> res = Ok () \<and> pending_entries it1 = es \<and> si_reader it1 = si_reader it \<and>
        si_block_index it1 = Suc (si_block_index it) \<and>
        prefetched_ok crc io (si_reader it) (prefetched_blocks it1)"
proof -
  obtain pres it0 where l: "load_block_payload crc io (si_block_index it) it = (pres, it0)" by fastforce
  note k = load_block_payload_keeps [OF l] and c = load_block_payload_cached [OF ok l]
  show ?thesis
  proof (cases "\<exists>kvs. and_then pres (\<lambda>payload. and_then
      (map_err (as_corruption ''Failed to parse data block during scan'') (new_BlockReader payload)) block_iter) = Ok kvs")
    case False
    then show ?thesis
      using adv l k c
      by (auto simp: advance_block_def scan_block_def and_then_def split: sum.splits prod.splits)
  next
    case True
    then obtain payload br kvs where p: "pres = Ok payload"
        "map_err (as_corruption ''Failed to parse data block during scan'') (new_BlockReader payload) = Ok br"
        "block_iter br = Ok kvs"
      by (auto simp: and_then_eq_Ok)
    obtain pr out where d: "push_decoded kvs [] = (pr, out)" by fastforce
    have s: "scan_block crc io (si_reader it) (index_entries (si_reader it) ! si_block_index it) = decode_entries kvs"
      using p by (simp add: scan_block_def c [THEN conjunct1, symmetric])
    have "prefetched_ok crc io (si_reader it) (prefetched_blocks (prefetch_upcoming_blocks crc io
        (it0 \<lparr> pending_entries := out, si_block_index := si_block_index it0 + 1 \<rparr>)))"
      using prefetch_upcoming_ok [of crc io "it0 \<lparr> pending_entries := out, si_block_index := si_block_index it0 + 1 \<rparr>"]
        k c by simp
    then show ?thesis
      using adv l p d k push_decoded_decode [OF d]
      by (auto simp: s advance_block_def split: sum.splits)
  qed
qed

text \<open>What the iterator still has to yield.\<close>

definition remaining :: "(bytes \<Rightarrow> u32) \<Rightarrow> (string \<Rightarrow> bool) \<Rightarrow> SSTableScanIterator \<Rightarrow> entry list result" where
  "remaining crc io it = and_then
     (scan_blocks crc io (si_reader it) (drop (si_block_index it) (index_entries (si_reader it))))
     (\<lambda>es. Ok (pending_entries it @ es))"

lemma next_entry_remaining:
  assumes "prefetched_ok crc io (si_reader it) (prefetched_blocks it)"
    and "remaining crc io it = Ok xs" and "next_entry crc io it = (res, it1)"
  shows "(case xs of [] \<Rightarrow> res = Ok None | x # ys \<Rightarrow> res = Ok (Some x) \<and> remaining crc io it1 = Ok ys) \<and>
    si_reader it1 = si_reader it \<and> prefetched_ok crc io (si_reader it) (prefetched_blocks it1)"
  using assms
proof (induction crc io it arbitrary: res it1 rule: next_entry.induct)
  case (1 crc io it)
  let ?r = "si_reader it"
  show ?case
  proof (cases "pending_entries it")
    case (Cons e es)
    then show ?thesis
      using 1 by (auto simp: next_entry.simps remaining_def and_then_eq_Ok)
  next
    case Nil
    show ?thesis
    proof (cases "length (index_entries ?r) \<le> si_block_index it")
      case True
      then show ?thesis
        using 1 Nil by (auto simp: next_entry.simps remaining_def)
    next
      case False
      then have d: "drop (si_block_index it) (index_entries ?r) =
          index_entries ?r ! si_block_index it # drop (Suc (si_block_index it)) (index_entries ?r)"
        by (simp add: Cons_nth_drop_Suc)
      obtain bs rest where s: "scan_block crc io ?r (index_entries ?r ! si_block_index it) = Ok bs"
          "scan_blocks crc io ?r (drop (Suc (si_block_index it)) (index_entries ?r)) = Ok rest" "xs = bs @ rest"
        using 1(3) by (auto simp: remaining_def d Nil and_then_eq_Ok)
      obtain ares it2 where a: "advance_block crc io it = (ares, it2)" by fastforce
      have a2: "ares = Ok ()" "pending_entries it2 = bs" "si_reader it2 = ?r"
          "si_block_index it2 = Suc (si_block_index it)" "prefetched_ok crc io ?r (prefetched_blocks it2)"
        using advance_block_scan [OF 1(2) a] s by auto
      have "next_entry crc io it = next_entry crc io it2"
        using Nil False a a2 by (simp add: next_entry.simps [of crc io it])
      moreover have "remaining crc io it2 = Ok xs"
        using a2 s by (simp add: remaining_def)
      ultimately show ?thesis
        using 1(1) [OF Nil False a [symmetric] a2(1), of res it1] a2 1(4) by simp
    qed
  qed
qed

lemma next_entries_remaining:
  "prefetched_ok crc io (si_reader it) (prefetched_blocks it) \<Longrightarrow> remaining crc io it = Ok xs \<Longrightarrow>
   next_entries crc io (Suc (length xs)) it = Ok (xs, True)"
proof (induction xs arbitrary: it)
  case Nil
  obtain res it1 where n: "next_entry crc io it = (res, it1)" by fastforce
  show ?case
    using next_entry_remaining [OF Nil n] n by simp
next
  case (Cons x xs)
  obtain res it1 where n: "next_entry crc io it = (res, it1)" by fastforce
  note r = next_entry_remaining [OF Cons.prems n]
  then have "next_entries crc io (Suc (length xs)) it1 = Ok (xs, True)"
    using Cons.IH [of it1] by simp
  then show ?case
    using r n by simp
qed

lemma next_entry_advance:
  assumes "pending_entries it = []" and "si_block_index it < length (index_entries (si_reader it))"
    and "advance_block crc io it = (Ok u, it1)"
  shows "next_entry crc io it = next_entry crc io it1"
  using assms by (simp add: next_entry.simps [of crc io it])

lemma next_entries_pending:
  "next_entries crc io (length (pending_entries it) + n) it =
   and_then (next_entries crc io n (it \<lparr> pending_entries := [] \<rparr>)) (\<lambda>(xs, fin). Ok (pending_entries it @ xs, fin))"
proof (induction "pending_entries it" arbitrary: it)
  case Nil
  then have same: "it \<lparr> pending_entries := [] \<rparr> = it" by (cases it) simp
  show ?case
    unfolding same using Nil [symmetric] by (auto simp: and_then_def split: sum.splits)
next
  case (Cons x xs)
  let ?it = "it \<lparr> pending_entries := xs \<rparr>"
  have "next_entry crc io it = (Ok (Some x), ?it)"
    using Cons.hyps(2) [symmetric] by (simp add: next_entry.simps [of crc io it])
  then show ?case
    using Cons.hyps(1) [of ?it] Cons.hyps(2) [symmetric]
    by (simp add: and_then_def split: sum.splits)
qed

lemma next_entries_error:
  assumes "prefetched_ok crc io (si_reader it) (prefetched_blocks it)" and "pending_entries it = []"
    and "remaining crc io it = Err e"
  shows "\<exists>n. next_entries crc io n it = Err e"
  using assms
proof (induction "length (index_entries (si_reader it)) - si_block_index it" arbitrary: it)
  case 0
  then show ?case by (simp add: remaining_def)
next
  case (Suc k)
  let ?r = "si_reader it"
  let ?b = "index_entries ?r ! si_block_index it"
  have lt: "si_block_index it < length (index_entries ?r)" using Suc.hyps(2) by simp
  then have d: "drop (si_block_index it) (index_entries ?r) = ?b # drop (Suc (si_block_index it)) (index_entries ?r)"
    by (simp add: Cons_nth_drop_Suc)
  obtain ares it2 where a: "advance_block crc io it = (ares, it2)" by fastforce
  show ?case
  proof (cases "scan_block crc io ?r ?b")
    case (Inl e')
    then have "e' = e" "ares = Err e'"
      using Suc.prems(3) advance_block_scan [OF Suc.prems(1) a] by (simp_all add: remaining_def d)
    then have "next_entries crc io (Suc 0) it = Err e"
      using a lt Suc.prems(2) by (simp add: next_entry.simps [of crc io it])
    then show ?thesis by blast
  next
    case (Inr bs)
    then have a2: "ares = Ok ()" "pending_entries it2 = bs" "si_reader it2 = ?r"
        "si_block_index it2 = Suc (si_block_index it)" "prefetched_ok crc io ?r (prefetched_blocks it2)"
      using advance_block_scan [OF Suc.prems(1) a] by auto
    let ?it = "it2 \<lparr> pending_entries := [] \<rparr>"
    have "remaining crc io ?it = Err e"
      using Suc.prems(2,3) Inr a2 by (simp add: remaining_def d and_then_def split: sum.splits)
    then obtain n where n: "next_entries crc io n ?it = Err e"
      using Suc.hyps(1) [of ?it] Suc.hyps(2) a2 by fastforce
    then have e2: "next_entries crc io (length bs + n) it2 = Err e"
      using next_entries_pending [of crc io it2 n] a2 by simp
    obtain m where m: "length bs + n = Suc m"
      using n by (cases n) auto
    have "next_entries crc io (Suc m) it = Err e"
      using e2 next_entry_advance [OF Suc.prems(2) lt a [unfolded a2]] by (simp add: m)
    then show ?thesis by blast
  qed
qed

text \<open>
  (C19) The streaming scan of compaction, with its read-ahead of blocks, yields exactly what
  \<open>scan_all\<close> returns: all entries in the same order, then the end of the scan; and where
  \<open>scan_all\<close> fails, the stream fails after finitely many calls with the same error.  This
  holds for every file content, damaged files included.
\<close>

theorem streaming_scan_is_scan_all:
  "case scan_all crc io r of
     Inr es \<Rightarrow> next_entries crc io (Suc (length es)) (into_scan_iterator crc io r) = Ok (es, True)
   | Inl e \<Rightarrow> \<exists>n. next_entries crc io n (into_scan_iterator crc io r) = Err e"
proof -
  let ?it = "into_scan_iterator crc io r"
  have it: "si_reader ?it = r" "pending_entries ?it = []" "si_block_index ?it = 0"
    by (simp_all add: into_scan_iterator_def)
  have "remaining crc io ?it = scan_all crc io r"
    by (simp add: remaining_def scan_all_def it and_then_def split: sum.splits)
  then show ?thesis
    using next_entries_remaining [of crc io ?it] next_entries_error [of crc io ?it]
      into_scan_iterator_ok [of crc io r] it by (auto split: sum.splits)
qed

end
