(* ===== verification/Sstable_Layout.thy ===== *)
theory Sstable_Layout
  imports Sstable_Reader
begin

text \<open>
  The exact bytes \<open>SSTableBuilder\<close> writes, as a function of the blocks the entries are
  split into, and that \<open>SSTableReader::open\<close> recovers the index and the filter partitions
  from them.  \<open>weight\<close> bounds the size of a table so that no length is narrowed.
\<close>

section \<open>What a written table looks like\<close>

abbreviation no_io :: "string \<Rightarrow> bool" where "no_io \<equiv> (\<lambda>_. False)"

definition the_ok :: "'a result \<Rightarrow> 'a" where
  "the_ok r = (case r of Inr x \<Rightarrow> x | Inl _ \<Rightarrow> undefined)"

lemma the_ok_Ok [simp]: "the_ok (Ok x) = x" by (simp add: the_ok_def)

text \<open>The payload of a block, and the payload with its checksum.\<close>

definition blk_payload :: "SstableBlockCompression \<Rightarrow> bytes \<Rightarrow> bytes" where
  "blk_payload c content = the_ok (encode_block_payload c content)"

definition blk_out :: "(bytes \<Rightarrow> u32) \<Rightarrow> SstableBlockCompression \<Rightarrow> bytes \<Rightarrow> bytes" where
  "blk_out crc c content = blk_payload c content @ u32_le (crc (blk_payload c content))"

lemma encode_block_payload_ok:
  "length content < 2 ^ 32 \<Longrightarrow> encode_block_payload c content = Ok (blk_payload c content)"
  by (simp add: blk_payload_def encode_block_payload_def Let_def split: prod.splits)

lemma blk_payload_length: "length content < 2 ^ 32 \<Longrightarrow> length (blk_payload c content) \<le> length content + 5"
  by (auto simp: blk_payload_def encode_block_payload_def Let_def)

lemma decompress_compress: "decompress c (compress c xs) (length xs) = Ok xs"
proof -
  have "rle_decode (rle_encode xs) (length xs) = Ok xs"
    using rle_decode_encode_loop [of "[]" xs "length xs"] rle_encode_even [of xs] by (simp add: rle_decode_def)
  then show ?thesis by (cases c) simp_all
qed

lemma from_tag_as_tag: "from_tag (as_tag c) = Ok c"
  by (cases c) (simp_all add: from_tag_def)

lemma decode_blk_payload:
  assumes "length content < 2 ^ 32"
  shows "decode_block_payload_with_format (footer_format_version c) (blk_payload c content) = Ok content"
proof (cases "c = NoCompression")
  case True
  then show ?thesis
    by (simp add: decode_block_payload_with_format_def footer_format_version_def blk_payload_def
        encode_block_payload_def SSTABLE_FORMAT_VERSION_BASELINE_def SSTABLE_FORMAT_VERSION_BLOCK_COMPRESSION_def)
next
  case False
  define d where "d = (if length (compress c content) < length content then c else NoCompression)"
  define enc where "enc = (if length (compress c content) < length content then compress c content else content)"
  have p: "blk_payload c content = as_tag d # u32_le (of_nat (length content)) @ enc"
    using False assms by (auto simp: blk_payload_def encode_block_payload_def d_def enc_def)
  have v: "footer_format_version c = SSTABLE_FORMAT_VERSION_BLOCK_COMPRESSION"
    using False by (cases c) (simp_all add: footer_format_version_def SSTABLE_FORMAT_VERSION_CURRENT_def)
  have "decompress d enc (length content) = Ok content"
    using decompress_compress [of c content] decompress_compress [of NoCompression content]
    by (auto simp: d_def enc_def)
  moreover have "subslice (blk_payload c content) 1 5 = u32_le (of_nat (length content))"
    by (simp add: p subslice_def)
  ultimately show ?thesis
    using assms
    by (simp add: decode_block_payload_with_format_def v p BLOCK_COMPRESSION_HEADER_SIZE_def from_tag_as_tag
        unat_of_nat_small subslice_def)
qed

lemma verify_blk_out: "verify_block_checksum crc (blk_out crc c content) = Ok (blk_payload c content)"
  by (simp add: verify_block_checksum_def blk_out_def BLOCK_CHECKSUM_SIZE_def)

lemma length_blk_out: "length content < 2 ^ 32 \<Longrightarrow> length (blk_out crc c content) \<le> length content + 9"
  using blk_payload_length [of content c] by (simp add: blk_out_def)

lemma length_blk_out_pos: "4 \<le> length (blk_out crc c content)"
  by (simp add: blk_out_def)

lemma write_block_ok:
  assumes "length content < 2 ^ 32" "sst_writer b = Some f"
  shows "write_block_with_checksum crc no_io content stage b =
    Ok (length (blk_out crc (block_compression b) content),
        b \<lparr> sst_writer := Some (f @ blk_out crc (block_compression b) content),
            sst_offset := sst_offset b + length (blk_out crc (block_compression b) content) \<rparr>)"
  using assms
  by (simp add: write_block_with_checksum_def encode_block_payload_ok writer_write_all_def blk_out_def
      BLOCK_CHECKSUM_SIZE_def Let_def)

section \<open>Sizes\<close>

definition entry_weight :: "entry \<Rightarrow> nat" where
  "entry_weight e = 64 + length (ukey e) + length (snd e)"

definition weight :: "entry list \<Rightarrow> nat" where
  "weight es = sum_list (map entry_weight es)"

lemma weight_simps [simp]:
  "weight [] = 0" "weight (e # es) = entry_weight e + weight es" "weight (xs @ ys) = weight xs + weight ys"
  by (simp_all add: weight_def)

lemma weight_concat: "weight (concat bs) = sum_list (map weight bs)"
  by (induction bs) simp_all

lemma entry_weight_le: "e \<in> set es \<Longrightarrow> entry_weight e \<le> weight es"
  by (induction es) auto

lemma length_le_weight: "64 * length es \<le> weight es"
  by (induction es) (auto simp: entry_weight_def)

lemma blk_off_sum:
  "blk_off kvs n \<le> sum_list (map (\<lambda>i. 30 + length (fst (kvs ! i)) + length (snd (kvs ! i))) [0..<n])"
proof (induction n)
  case (Suc n)
  then show ?case using length_blk_entry_le [of kvs n] by (simp add: blk_off_Suc)
qed simp

lemma blk_off_weight: "blk_off (raw es) (length es) + 26 * length es \<le> weight es"
proof -
  have "sum_list (map (\<lambda>i. 30 + length (fst (raw es ! i)) + length (snd (raw es ! i))) [0..<length es]) =
      sum_list (map (\<lambda>e. 38 + length (ukey e) + length (snd e)) es)"
    by (rule arg_cong [of _ _ sum_list], rule nth_equalityI) (simp_all add: serialize_def)
  also have "\<dots> + 26 * length es = weight es"
    by (induction es) (simp_all add: entry_weight_def)
  finally show ?thesis using blk_off_sum [of "raw es" "length es"] by simp
qed

lemma kv_small_weight: "weight es < 2 ^ 32 \<Longrightarrow> list_all kv_small (raw es)"
proof (induction es)
  case (Cons e es)
  then show ?case by (cases e) (simp add: raw_def kv_small_def serialize_def entry_weight_def)
qed (simp add: raw_def)

lemma block_bytes_weight:
  assumes "weight es < 2 ^ 32"
  shows "length (block_bytes (raw es)) \<le> weight es + 4"
  using block_bytes_layout [OF kv_small_weight [OF assms]] blk_off_weight [of es]
  by (simp add: blk_restarts_def blk_off_def)

lemma blk_ok_weight: "weight es < 2 ^ 32 \<Longrightarrow> entries_sorted es \<Longrightarrow> blk_ok es"
  using kv_small_weight [of es] blk_off_weight [of es] by (simp add: blk_ok_def)

section \<open>Separators\<close>

lemma compute_shared_nth:
  "i < compute_shared xs ys \<Longrightarrow> xs ! i = ys ! i"
  by (induction xs ys arbitrary: i rule: compute_shared.induct) (auto split: if_splits simp: nth_Cons')

lemma compute_shared_differ:
  "compute_shared xs ys < length xs \<Longrightarrow> compute_shared xs ys < length ys \<Longrightarrow>
   xs ! compute_shared xs ys \<noteq> ys ! compute_shared xs ys"
  by (induction xs ys rule: compute_shared.induct) (auto split: if_splits)

lemma compute_shared_self [simp]: "compute_shared xs xs = length xs"
  by (induction xs) simp_all

lemma split_at_shared:
  "i < length xs \<Longrightarrow> xs = take i xs @ (xs ! i) # drop (Suc i) xs"
  by (simp add: id_take_nth_drop)

text \<open>The separator is between the two keys, and adds no zero byte.\<close>

lemma compute_separator_bounds:
  "lastk \<le> compute_separator lastk key \<and> (lastk < key \<longrightarrow> compute_separator lastk key < key) \<and>
   length (compute_separator lastk key) \<le> length lastk \<and>
   (0 \<notin> set lastk \<longrightarrow> 0 \<notin> set (compute_separator lastk key)) \<and>
   compute_separator lastk lastk = lastk"
proof -
  let ?d = "compute_shared lastk key"
  have same: "compute_separator lastk lastk = lastk"
    by (simp add: compute_separator_def Let_def)
  show ?thesis
  proof (cases "compute_separator lastk key = lastk")
    case False
    then have d: "?d < length lastk" "?d < length key" "lastk ! ?d < 0xFF" "lastk ! ?d + 1 < key ! ?d"
        and s: "compute_separator lastk key = take ?d lastk @ [lastk ! ?d + 1]"
      by (auto simp: compute_separator_def Let_def split: if_splits)
    have k: "key = take ?d lastk @ (key ! ?d) # drop (Suc ?d) key"
      using split_at_shared [OF d(2)] take_compute_shared [of lastk key] by simp
    have l: "lastk = take ?d lastk @ (lastk ! ?d) # drop (Suc ?d) lastk"
      using split_at_shared [OF d(1)] .
    have inc: "lastk ! ?d < lastk ! ?d + 1" "lastk ! ?d + 1 \<noteq> 0"
      using d(3) by (auto simp: word_less_nat_alt unat_word_ariths word_unat_eq_iff)
    have "lastk < compute_separator lastk key"
      unfolding s by (subst l) (simp add: inc)
    moreover have "compute_separator lastk key < key"
    proof -
      have "take ?d lastk @ [lastk ! ?d + 1] < take ?d lastk @ (key ! ?d) # drop (Suc ?d) key"
        using d(4) by simp
      then show ?thesis unfolding s k [symmetric] .
    qed
    moreover have "set (compute_separator lastk key) \<subseteq> insert (lastk ! ?d + 1) (set lastk)"
      unfolding s by (auto dest: in_set_takeD)
    ultimately show ?thesis
      using inc(2) same d(1) by (auto simp: s less_imp_le)
  qed (use same in auto)
qed

section \<open>The builder, block by block\<close>

text \<open>
  Which data block an entry goes to: a block is closed by the first entry that arrives
  when it has reached \<open>MAX_BLOCK_SIZE\<close>.
\<close>

fun split_blocks :: "entry list list \<Rightarrow> entry list \<Rightarrow> entry list \<Rightarrow> entry list list \<times> entry list" where
  "split_blocks blks cur [] = (blks, cur)"
| "split_blocks blks cur (e # es) =
     (if bb_should_finish (bb_of (raw cur)) then split_blocks (blks @ [cur]) [e] es
      else split_blocks blks (cur @ [e]) es)"

definition data_file :: "(bytes \<Rightarrow> u32) \<Rightarrow> SstableBlockCompression \<Rightarrow> entry list list \<Rightarrow> bytes" where
  "data_file crc c blks = concat (map (\<lambda>b. blk_out crc c (block_bytes (raw b))) blks)"

text \<open>The entries of the index block, for the separators \<open>ss\<close>.\<close>

definition index_kvs ::
  "(bytes \<Rightarrow> u32) \<Rightarrow> SstableBlockCompression \<Rightarrow> entry list list \<Rightarrow> bytes list \<Rightarrow> (bytes \<times> bytes) list" where
  "index_kvs crc c blks ss = map (\<lambda>i. (ss ! i, index_value (length (data_file crc c (take i blks)))
     (length (blk_out crc c (block_bytes (raw (blks ! i))))))) [0..<length blks]"

definition blk_bloom :: "(bytes \<Rightarrow> u64) \<Rightarrow> nat \<Rightarrow> entry list \<Rightarrow> BloomBuilder result" where
  "blk_bloom hash n blk =
     bloom_add_all hash (map (\<lambda>e. bloom_lookup_key (ukey e) n) blk) (bloom_with_capacity 1024)"

definition blk_bitmap :: "(bytes \<Rightarrow> u64) \<Rightarrow> nat \<Rightarrow> entry list \<Rightarrow> bytes" where
  "blk_bitmap hash n blk = bitmap (the_ok (blk_bloom hash n blk))"

definition sep_bytes :: "bytes \<Rightarrow> bytes" where
  "sep_bytes uk = serialize \<lparr> user_key = uk, encoded_sequence_number = push_bit 8 SEQUENCE_NUMBER_MAX \<rparr>"

definition blk_sep :: "entry list \<Rightarrow> entry list \<Rightarrow> bytes" where
  "blk_sep blk nxt = sep_bytes (compute_separator (ukey (last blk)) (ukey (hd nxt)))"

definition sst_inv ::
  "(bytes \<Rightarrow> u64) \<Rightarrow> (bytes \<Rightarrow> u32) \<Rightarrow> SstableBlockCompression \<Rightarrow> nat \<Rightarrow> entry list list \<Rightarrow> bytes list \<Rightarrow>
   entry list \<Rightarrow> SSTableBuilder \<Rightarrow> bool" where
  "sst_inv hash crc c n blks ss cur b \<longleftrightarrow>
     sst_writer b = Some (data_file crc c blks) \<and> sst_offset b = length (data_file crc c blks) \<and>
     data_block_builder b = bb_of (raw cur) \<and>
     index_block_builder b = bb_of (index_kvs crc c blks ss) \<and>
     blk_bloom hash n cur = Ok (bloom_builder b) \<and> bloom_partitions b = map (blk_bitmap hash n) blks \<and>
     bloom_prefix_extractor_len b = n \<and> block_compression b = c \<and> length ss = length blks"

lemma bb_of_snoc [simp]: "bb_of (kvs @ [(k, v)]) = bb_add k v (bb_of kvs)"
  by (simp add: bb_of_def)

lemma raw_snoc [simp]: "raw (es @ [(k, v)]) = raw es @ [(serialize k, v)]"
  by (simp add: raw_def)

lemma raw_Nil [simp]: "raw [] = []"
  by (simp add: raw_def)

lemma bb_reset_new [simp]: "bb_reset b = new_BlockBuilder"
  by (simp add: bb_reset_def new_BlockBuilder_def)

lemma bb_of_Nil [simp]: "bb_of [] = new_BlockBuilder"
  by (simp add: bb_of_def)

lemma bloom_add_all_append:
  "bloom_add_all hash (xs @ ys) b = and_then (bloom_add_all hash xs b) (bloom_add_all hash ys)"
  by (induction xs arbitrary: b) (auto simp: and_then_def split: sum.splits)

lemma blk_bloom_ok:
  "\<exists>b. blk_bloom hash n blk = Ok b \<and> length (bitmap b) = 1024 \<and>
     (\<forall>e\<in>set blk. bloom_contains hash (bloom_lookup_key (ukey e) n) (bitmap b))"
proof -
  have cap: "bitmap (bloom_with_capacity 1024) \<noteq> []" "bloom_k (bloom_with_capacity 1024) = 7"
      "length (bitmap (bloom_with_capacity 1024)) = 1024"
    by (simp_all add: bloom_with_capacity_def)
  obtain b where b: "blk_bloom hash n blk = Ok b" "length (bitmap b) = 1024"
      "\<And>j. bloom_bit (bitmap b) j \<longleftrightarrow> bloom_bit (bitmap (bloom_with_capacity 1024)) j \<or>
        (\<exists>k\<in>set (map (\<lambda>e. bloom_lookup_key (ukey e) n) blk).
           j \<in> set (bloom_probes 7 (hash k) (bloom_delta (hash k)) (1024 * 8)))"
    using bloom_add_all_bits [OF cap(1,2), of hash "map (\<lambda>e. bloom_lookup_key (ukey e) n) blk"] cap(3)
    unfolding blk_bloom_def by auto
  then have "bitmap b \<noteq> []" by auto
  then have "bloom_contains hash (bloom_lookup_key (ukey e) n) (bitmap b)" if "e \<in> set blk" for e
    using that b by (auto simp: bloom_contains_bits)
  with b show ?thesis by blast
qed

lemma blk_bloom_bitmap: "blk_bloom hash n blk = Ok b \<Longrightarrow> bitmap b = blk_bitmap hash n blk"
  by (simp add: blk_bitmap_def)

lemma length_blk_bitmap [simp]: "length (blk_bitmap hash n blk) = 1024"
  using blk_bloom_ok [of hash n blk] by (auto simp: blk_bitmap_def)

lemma blk_bitmap_contains:
  "e \<in> set blk \<Longrightarrow> bloom_contains hash (bloom_lookup_key (ukey e) n) (blk_bitmap hash n blk)"
  using blk_bloom_ok [of hash n blk] by (auto simp: blk_bitmap_def)

lemma data_file_snoc [simp]:
  "data_file crc c (blks @ [x]) = data_file crc c blks @ blk_out crc c (block_bytes (raw x))"
  by (simp add: data_file_def)

lemma data_file_Nil [simp]: "data_file crc c [] = []"
  by (simp add: data_file_def)

lemma data_file_split:
  "i < length blks \<Longrightarrow> data_file crc c blks = data_file crc c (take i blks) @
     blk_out crc c (block_bytes (raw (blks ! i))) @ data_file crc c (drop (Suc i) blks)"
  by (subst id_take_nth_drop [of i blks]) (simp_all add: data_file_def)

lemma index_kvs_snoc:
  "length ss = length blks \<Longrightarrow> index_kvs crc c (blks @ [x]) (ss @ [s]) =
   index_kvs crc c blks ss @ [(s, index_value (length (data_file crc c blks))
     (length (blk_out crc c (block_bytes (raw x)))))]"
  by (auto simp: index_kvs_def nth_append)

lemma index_kvs_Nil [simp]: "index_kvs crc c [] [] = []"
  by (simp add: index_kvs_def)

lemma new_separator_bytes: "new_separator uk = Ok \<lparr> user_key = uk, encoded_sequence_number = push_bit 8 SEQUENCE_NUMBER_MAX \<rparr>"
  by (simp add: new_separator_def new_InternalKey_def)

lemma probe_key_bytes: "probe_key uk = Ok (sep_bytes uk)"
  by (simp add: probe_key_def new_InternalKey_def sep_bytes_def)

lemma take_serialize [simp]: "take (serialized_size k - 8) (serialize k) = user_key k"
  by (simp add: serialize_def serialized_size_def)

lemma bb_finish_of:
  assumes "list_all kv_small (raw es)" "es \<noteq> []"
  shows "fst (bb_finish (bb_of (raw es))) = (block_bytes (raw es), serialize (fst (last es)))"
proof -
  have "raw es \<noteq> []" "fst (last (raw es)) = serialize (fst (last es))"
    using assms(2) by (auto simp: raw_def last_map split: prod.splits)
  then show ?thesis
    using bb_of_layout [OF assms(1)] by (simp add: block_bytes_def bb_finish_def Let_def)
qed

lemma finish_data_block_inv:
  assumes inv: "sst_inv hash crc c n blks ss cur b" and cur: "cur \<noteq> []" "weight cur < 2 ^ 32 - 4"
  shows "\<exists>b'. finish_data_block crc no_io (serialize k) b = Ok b' \<and>
    sst_inv hash crc c n (blks @ [cur]) (ss @ [blk_sep cur [(k, v)]]) [] b'"
proof -
  have w: "weight cur < 2 ^ 32" using cur(2) by simp
  have len: "length (block_bytes (raw cur)) < 2 ^ 32" using block_bytes_weight [OF w] cur(2) by simp
  have fin: "fst (bb_finish (data_block_builder b)) = (block_bytes (raw cur), serialize (fst (last cur)))"
    using bb_finish_of [OF kv_small_weight [OF w] cur(1)] inv by (simp add: sst_inv_def)
  have bl: "bitmap (bloom_builder b) = blk_bitmap hash n cur"
    using inv by (simp add: sst_inv_def blk_bloom_bitmap)
  obtain f where f: "sst_writer b = Some f" "f = data_file crc c blks" using inv by (simp add: sst_inv_def)
  show ?thesis
    using inv fin bl f(2)
    by (cases "bb_finish (data_block_builder b)")
      (simp add: finish_data_block_def new_separator_bytes write_block_ok [OF len f(1)] Let_def
        finalize_current_bloom_partition_def sst_inv_def blk_bloom_def index_kvs_snoc blk_sep_def sep_bytes_def)
qed

lemma parse_seqno_serialize: "parse_seqno_from_internal_key (serialize k) = Ok (sequence_number k)"
  using decode_serialize(3) [of k]
  by (simp add: parse_seqno_from_internal_key_def sequence_of_internal_key_def split: if_splits)

text \<open>Fields that play no role for the contents of the file.\<close>

lemma sst_inv_bounds [simp]:
  "sst_inv hash crc c n blks ss cur (b \<lparr> sb_smallest_seqno := a1, sb_largest_seqno := a2,
     sb_smallest_key := a3, sb_largest_key := a4 \<rparr>) = sst_inv hash crc c n blks ss cur b"
  by (simp add: sst_inv_def)

lemma sst_inv_add:
  assumes "sst_inv hash crc c n blks ss cur b"
  shows "\<exists>bl. bloom_add hash (bloom_lookup_key (user_key k) n) (bloom_builder b) = Ok bl \<and>
    sst_inv hash crc c n blks ss (cur @ [(k, v)])
      (b \<lparr> data_block_builder := bb_add (serialize k) v (data_block_builder b), bloom_builder := bl \<rparr>)"
proof -
  have "blk_bloom hash n (cur @ [(k, v)]) =
      and_then (blk_bloom hash n cur) (bloom_add hash (bloom_lookup_key (user_key k) n))"
    by (auto simp: blk_bloom_def bloom_add_all_append and_then_def split: sum.splits)
  then show ?thesis
    using assms blk_bloom_ok [of hash n "cur @ [(k, v)]"] by (auto simp: sst_inv_def)
qed

lemma sst_write_inv:
  assumes inv: "sst_inv hash crc c n blks ss cur b" and w: "weight cur < 2 ^ 32 - 4"
  shows "\<exists>b'. sst_write hash crc no_io (serialize k) v b = Ok b' \<and>
    (if bb_should_finish (bb_of (raw cur))
     then sst_inv hash crc c n (blks @ [cur]) (ss @ [blk_sep cur [(k, v)]]) [(k, v)] b'
     else sst_inv hash crc c n blks ss (cur @ [(k, v)]) b')"
proof -
  define b1 where "b1 = b \<lparr> sb_smallest_seqno := Some (case sb_smallest_seqno b of None \<Rightarrow> sequence_number k
        | Some m \<Rightarrow> min m (sequence_number k)),
      sb_largest_seqno := Some (case sb_largest_seqno b of None \<Rightarrow> sequence_number k
        | Some m \<Rightarrow> max m (sequence_number k)),
      sb_smallest_key := (case sb_smallest_key b of None \<Rightarrow> Some (serialize k) | Some k \<Rightarrow> Some k),
      sb_largest_key := Some (serialize k) \<rparr>"
  have i1: "sst_inv hash crc c n blks ss cur b1" using inv by (simp add: b1_def)
  have d1: "data_block_builder b1 = bb_of (raw cur)" using i1 by (simp add: sst_inv_def)
  have keep: "bloom_builder b1 = bloom_builder b" "data_block_builder b1 = data_block_builder b"
    by (simp_all add: b1_def)
  define step where "step = (if bb_should_finish (data_block_builder b1)
    then finish_data_block crc no_io (serialize k) b1 else Ok b1)"
  obtain b2 blks' ss' cur' where b2: "step = Ok b2" "sst_inv hash crc c n blks' ss' cur' b2"
      "(blks', ss', cur') = (if bb_should_finish (bb_of (raw cur))
        then (blks @ [cur], ss @ [blk_sep cur [(k, v)]], []) else (blks, ss, cur))"
  proof (cases "bb_should_finish (bb_of (raw cur))")
    case True
    then have "cur \<noteq> []"
      by (auto simp: bb_should_finish_def bb_len_def new_BlockBuilder_def MAX_BLOCK_SIZE_def)
    then show ?thesis
      using finish_data_block_inv [OF i1 _ w, of k v] True that by (auto simp: step_def d1)
  qed (use i1 that in \<open>auto simp: step_def d1\<close>)
  obtain bl where bl: "bloom_add hash (bloom_lookup_key (user_key k) n) (bloom_builder b2) = Ok bl"
      "sst_inv hash crc c n blks' ss' (cur' @ [(k, v)])
        (b2 \<lparr> data_block_builder := bb_add (serialize k) v (data_block_builder b2), bloom_builder := bl \<rparr>)"
    using sst_inv_add [OF b2(2)] by blast
  have "bloom_prefix_extractor_len b2 = n" using b2(2) by (simp add: sst_inv_def)
  then have "sst_write hash crc no_io (serialize k) v b =
      Ok (b2 \<lparr> data_block_builder := bb_add (serialize k) v (data_block_builder b2), bloom_builder := bl \<rparr>)"
    using b2(1) [unfolded step_def d1] bl(1) inv keep
    by (cases "bb_should_finish (bb_of (raw cur))")
      (simp_all add: sst_write_def parse_seqno_serialize b1_def [symmetric] sst_inv_def)
  then show ?thesis using bl(2) b2(3) by (auto split: if_splits)
qed

definition seps :: "entry list list \<Rightarrow> entry list \<Rightarrow> bytes list" where
  "seps blks cur = map (\<lambda>i. blk_sep (blks ! i) ((blks @ [cur]) ! Suc i)) [0..<length blks]"

lemma length_seps [simp]: "length (seps blks cur) = length blks" by (simp add: seps_def)

lemma seps_close: "seps (blks @ [cur]) [e] = seps blks cur @ [blk_sep cur [e]]"
  by (auto simp: seps_def nth_append intro!: map_cong)

lemma seps_grow: "cur \<noteq> [] \<or> blks = [] \<Longrightarrow> seps blks (cur @ [e]) = seps blks cur"
  by (auto simp: seps_def nth_append blk_sep_def intro!: map_cong)

lemma sst_write_all_inv:
  assumes "sst_inv hash crc c n blks (seps blks cur) cur b" "cur \<noteq> [] \<or> blks = []"
    "weight cur + weight es < 2 ^ 32 - 4" "split_blocks blks cur es = (blks', cur')"
  shows "\<exists>b'. sst_write_all hash crc no_io es b = Ok b' \<and>
    sst_inv hash crc c n blks' (seps blks' cur') cur' b' \<and> (cur' \<noteq> [] \<or> blks' = [])"
  using assms
proof (induction es arbitrary: blks cur b)
  case (Cons e es)
  obtain k v where e: "e = (k, v)" by fastforce
  obtain b1 where b1: "sst_write hash crc no_io (serialize k) v b = Ok b1"
    "if bb_should_finish (bb_of (raw cur))
     then sst_inv hash crc c n (blks @ [cur]) (seps blks cur @ [blk_sep cur [(k, v)]]) [(k, v)] b1
     else sst_inv hash crc c n blks (seps blks cur) (cur @ [(k, v)]) b1"
    using sst_write_inv [OF Cons.prems(1), of k v] Cons.prems(3) by auto
  show ?case
  proof (cases "bb_should_finish (bb_of (raw cur))")
    case True
    then show ?thesis
      using Cons.IH [of "blks @ [cur]" "[e]" b1] b1 Cons.prems by (simp add: e seps_close)
  next
    case False
    then show ?thesis
      using Cons.IH [of blks "cur @ [e]" b1] b1 Cons.prems by (simp add: e seps_grow)
  qed
qed simp

lemma split_blocks_concat:
  "split_blocks blks cur es = (blks', cur') \<Longrightarrow> concat blks' @ cur' = concat blks @ cur @ es"
  by (induction blks cur es rule: split_blocks.induct) (auto split: if_splits)

lemma split_blocks_nonempty:
  "split_blocks blks cur es = (blks', cur') \<Longrightarrow> [] \<notin> set blks \<Longrightarrow> [] \<notin> set blks'"
proof (induction blks cur es rule: split_blocks.induct)
  case (2 blks cur e es)
  have "bb_should_finish (bb_of (raw cur)) \<Longrightarrow> cur \<noteq> []"
    by (auto simp: bb_should_finish_def bb_len_def new_BlockBuilder_def MAX_BLOCK_SIZE_def)
  then show ?case using 2 by (auto split: if_splits)
qed auto

section \<open>The finished file\<close>

text \<open>The blocks that reach the file: the last one is dropped when its entry counter is zero.\<close>

definition kept_blocks :: "entry list list \<Rightarrow> entry list \<Rightarrow> entry list list" where
  "kept_blocks blks cur = (if length cur mod 16 = 0 then blks else blks @ [cur])"

definition kept_seps :: "entry list list \<Rightarrow> entry list \<Rightarrow> bytes list" where
  "kept_seps blks cur =
     (if length cur mod 16 = 0 then seps blks cur else seps blks cur @ [serialize (fst (last cur))])"

definition bloom_section :: "(bytes \<Rightarrow> u64) \<Rightarrow> nat \<Rightarrow> entry list list \<Rightarrow> bytes" where
  "bloom_section hash n blks = encode_partitioned_bloom_section n (map (blk_bitmap hash n) blks)"

definition table_file ::
  "(bytes \<Rightarrow> u64) \<Rightarrow> (bytes \<Rightarrow> u32) \<Rightarrow> SstableBlockCompression \<Rightarrow> nat \<Rightarrow> entry list list \<Rightarrow> bytes list \<Rightarrow> bytes" where
  "table_file hash crc c n blks ss =
     (let data = data_file crc c blks;
          bloom = bloom_section hash n blks;
          idx = blk_out crc c (block_bytes (index_kvs crc c blks ss));
          o1 = encode_varint64 (of_nat (length data));
          o2 = encode_varint64 (of_nat (length data + length bloom))
      in data @ bloom @ idx @ o1 @ o2 @ footer_padding c (40 - (length o1 + length o2)) @ u64_le MAGIC_NUMBER)"

lemma finish_last_block_inv:
  assumes inv: "sst_inv hash crc c n blks (seps blks cur) cur b" and w: "weight cur < 2 ^ 32 - 4"
  shows "\<exists>b'. finish_last_block crc no_io b = Ok b' \<and>
    sst_writer b' = Some (data_file crc c (kept_blocks blks cur)) \<and>
    sst_offset b' = length (data_file crc c (kept_blocks blks cur)) \<and>
    index_block_builder b' = bb_of (index_kvs crc c (kept_blocks blks cur) (kept_seps blks cur)) \<and>
    bloom_partitions b' = map (blk_bitmap hash n) (kept_blocks blks cur) \<and>
    bloom_prefix_extractor_len b' = n \<and> block_compression b' = c"
proof -
  have w': "weight cur < 2 ^ 32" using w by simp
  have len: "length (block_bytes (raw cur)) < 2 ^ 32" using block_bytes_weight [OF w'] w by simp
  have count: "bb_empty (data_block_builder b) \<longleftrightarrow> length cur mod 16 = 0"
    using bb_of_layout [OF kv_small_weight [OF w']] inv by (simp add: bb_empty_def sst_inv_def)
  show ?thesis
  proof (cases "length cur mod 16 = 0")
    case True
    then show ?thesis
      using inv count by (simp add: finish_last_block_def sst_inv_def kept_blocks_def kept_seps_def)
  next
    case False
    then have "cur \<noteq> []" by auto
    then have fin: "fst (bb_finish (data_block_builder b)) = (block_bytes (raw cur), serialize (fst (last cur)))"
      using bb_finish_of [OF kv_small_weight [OF w']] inv by (simp add: sst_inv_def)
    have bl: "bitmap (bloom_builder b) = blk_bitmap hash n cur"
      using inv by (simp add: sst_inv_def blk_bloom_bitmap)
    obtain f where f: "sst_writer b = Some f" "f = data_file crc c blks" using inv by (simp add: sst_inv_def)
    show ?thesis
      using inv fin bl f(2) False count
      by (cases "bb_finish (data_block_builder b)")
        (simp add: finish_last_block_def write_block_ok [OF len f(1)] Let_def finalize_current_bloom_partition_def
          sst_inv_def kept_blocks_def kept_seps_def index_kvs_snoc)
  qed
qed

lemma footer_offsets_fit: "length (encode_varint64 v) + length (encode_varint64 w) \<le> 20"
  using encode_varint64_length_bounds(2) [of v] encode_varint64_length_bounds(2) [of w] by simp

lemma footer_offsets_40: "length (encode_varint64 v) + length (encode_varint64 w) \<le> 40"
  using footer_offsets_fit [of v w] by simp

lemma sst_finish_layout:
  assumes inv: "sst_inv hash crc c n blks (seps blks cur) cur b" and w: "weight cur < 2 ^ 32 - 4"
    and idx: "length (block_bytes (index_kvs crc c (kept_blocks blks cur) (kept_seps blks cur))) < 2 ^ 32"
  shows "\<exists>tp. sst_finish crc no_io b = Ok (tp, table_file hash crc c n (kept_blocks blks cur) (kept_seps blks cur))"
proof -
  obtain b1 where b1: "finish_last_block crc no_io b = Ok b1"
      "sst_writer b1 = Some (data_file crc c (kept_blocks blks cur))"
      "sst_offset b1 = length (data_file crc c (kept_blocks blks cur))"
      "index_block_builder b1 = bb_of (index_kvs crc c (kept_blocks blks cur) (kept_seps blks cur))"
      "bloom_partitions b1 = map (blk_bitmap hash n) (kept_blocks blks cur)"
      "bloom_prefix_extractor_len b1 = n" "block_compression b1 = c"
    using finish_last_block_inv [OF inv w] by blast
  obtain a l r where fin: "bb_finish (index_block_builder b1) = ((a, l), r)"
      "a = block_bytes (index_kvs crc c (kept_blocks blks cur) (kept_seps blks cur))"
    using b1(4) by (cases "bb_finish (index_block_builder b1)") (auto simp: block_bytes_def)
  show ?thesis
    using b1 fin idx
    by (simp add: sst_finish_def writer_write_all_def write_block_ok table_file_def bloom_section_def Let_def
        FOOTER_PADDING_BYTES_def linorder_not_less footer_offsets_40)
qed

section \<open>Opening the finished file\<close>

lemma read_exact_at_middle:
  "f = xs @ ys @ zs \<Longrightarrow> off = length xs \<Longrightarrow> n = length ys \<Longrightarrow> read_exact_at no_io f off n op = Ok ys"
  by (simp add: read_exact_at_def)

lemma length_bloom_index [simp]: "length (bloom_index off ps) = 16 * length ps"
  by (induction ps arbitrary: off) simp_all

lemma parse_bloom_index_layout:
  assumes "\<forall>p\<in>set ps. length p = 1024" "data_start \<le> off" "off + 1024 * length ps \<le> lim" "base + lim < 2 ^ 64"
  shows "parse_bloom_index base lim data_start (length ps) (bloom_index off ps) =
    Ok (map (\<lambda>i. \<lparr> bp_offset = base + off + 1024 * i, bp_size = 1024 \<rparr>) [0..<length ps])"
  using assms
proof (induction ps arbitrary: off)
  case (Cons p ps)
  have o: "unat (of_nat off :: u64) = off" "unat (of_nat 1024 :: u64) = 1024"
    using Cons.prems by (intro unat_of_nat_small, simp)+
  have "map (\<lambda>i. \<lparr> bp_offset = base + off + 1024 * i, bp_size = 1024 \<rparr>) [0..<length (p # ps)] =
      \<lparr> bp_offset = base + off, bp_size = 1024 \<rparr> #
      map (\<lambda>i. \<lparr> bp_offset = base + (off + 1024) + 1024 * i, bp_size = 1024 \<rparr>) [0..<length ps]"
    by (simp add: upt_conv_Cons map_Suc_upt [symmetric] o_def add.assoc del: upt_Suc map_Suc_upt)
  then show ?case
    using Cons.prems Cons.IH [of "off + 1024"] o by (simp add: subslice_def min_def)
qed simp

definition table_parts :: "nat \<Rightarrow> nat \<Rightarrow> BloomPartitionIndexEntry list" where
  "table_parts bloom_offset count =
     map (\<lambda>i. \<lparr> bp_offset = bloom_offset + (11 + 16 * count) + 1024 * i, bp_size = 1024 \<rparr>) [0..<count]"

definition table_index :: "(bytes \<Rightarrow> u32) \<Rightarrow> SstableBlockCompression \<Rightarrow> entry list list \<Rightarrow> bytes list \<Rightarrow> IndexEntry list" where
  "table_index crc c blks ss = map (\<lambda>i. \<lparr> separator = ss ! i,
     block_offset = length (data_file crc c (take i blks)),
     block_size = length (blk_out crc c (block_bytes (raw (blks ! i)))) \<rparr>) [0..<length blks]"

lemma length_concat_const: "\<forall>p\<in>set ps. length p = n \<Longrightarrow> length (concat ps) = n * length ps"
  by (induction ps) simp_all

lemma length_bloom_section: "length (bloom_section hash n blks) = 11 + 1040 * length blks"
  using length_concat_const [of "map (blk_bitmap hash n) blks" 1024]
  by (simp add: bloom_section_def encode_partitioned_bloom_section_def Let_def PARTITIONED_BLOOM_MAGIC_def)

lemma parse_bloom_section:
  assumes f: "f = xs @ bloom_section hash n blks @ zs" and n: "n < 2 ^ 16" and "length blks < 2 ^ 32"
    and sz: "length xs + length (bloom_section hash n blks) < 2 ^ 64"
  shows "parse_partitioned_bloom_filter no_io f (length xs) (length (bloom_section hash n blks)) =
    Ok (Some \<lparr> prefix_extractor_len = n, partitions = table_parts (length xs) (length blks) \<rparr>)"
proof -
  let ?ps = "map (blk_bitmap hash n) blks"
  let ?hd = "PARTITIONED_BLOOM_MAGIC @ [PARTITIONED_BLOOM_VERSION] @ u16_le (of_nat n) @ u32_le (of_nat (length blks))"
  let ?ix = "bloom_index (11 + 16 * length blks) ?ps"
  have sec: "bloom_section hash n blks = ?hd @ ?ix @ concat ?ps"
    by (simp add: bloom_section_def encode_partitioned_bloom_section_def Let_def PARTITIONED_BLOOM_HEADER_SIZE_def
        PARTITIONED_BLOOM_INDEX_ENTRY_SIZE_def)
  have hd: "length ?hd = 11" by (simp add: PARTITIONED_BLOOM_MAGIC_def)
  have r1: "read_exact_at no_io f (length xs) 11 op = Ok ?hd" for op
    using hd by (intro read_exact_at_middle [of _ xs _ "?ix @ concat ?ps @ zs"]) (simp_all add: f sec)
  have r2: "read_exact_at no_io f (length xs + 11) (16 * length blks) op = Ok ?ix" for op
    using hd by (intro read_exact_at_middle [of _ "xs @ ?hd" _ "concat ?ps @ zs"]) (simp_all add: f sec)
  have flds: "take 4 ?hd = PARTITIONED_BLOOM_MAGIC" "?hd ! 4 = PARTITIONED_BLOOM_VERSION"
      "subslice ?hd 5 7 = u16_le (of_nat n)" "subslice ?hd 7 11 = u32_le (of_nat (length blks))"
    by (simp_all add: PARTITIONED_BLOOM_MAGIC_def subslice_def)
  have vals: "unat (of_nat n :: u16) = n" "unat (of_nat (length blks) :: u32) = length blks"
    using n assms(3) by (intro unat_of_nat_small, simp)+
  have "parse_bloom_index (length xs) (length (bloom_section hash n blks)) (11 + 16 * length blks) (length blks) ?ix =
      Ok (table_parts (length xs) (length blks))"
    using parse_bloom_index_layout [of ?ps "11 + 16 * length blks" "11 + 16 * length blks"
        "length (bloom_section hash n blks)" "length xs"] sz
    by (simp add: table_parts_def length_bloom_section)
  then show ?thesis
    using r1 r2 flds vals
    by (simp add: parse_partitioned_bloom_filter_def PARTITIONED_BLOOM_HEADER_SIZE_def
        PARTITIONED_BLOOM_INDEX_ENTRY_SIZE_def Let_def length_bloom_section del: append.simps append_assoc)
qed

lemma index_value_codec: "index_value a b = encode_varint64 (of_nat a) @ encode_varint64 (of_nat b)"
  by (simp add: index_value_def put_varint64_append)

lemma parse_index_layout:
  assumes "length (data_file crc c blks) < 2 ^ 64"
  shows "parse_index_entries (index_kvs crc c blks ss) = Ok (table_index crc c blks ss)"
proof -
  have one: "parse_index_entries ((s, index_value a b) # rest) =
      and_then (parse_index_entries rest) (\<lambda>es. Ok (\<lparr> separator = s, block_offset = a, block_size = b \<rparr> # es))"
    if "a < 2 ^ 64" "b < 2 ^ 64" for s a b rest
  proof -
    have "2 \<le> length (index_value a b)"
      using encode_varint64_length_bounds(1) [of "of_nat a"] encode_varint64_length_bounds(1) [of "of_nat b"]
      by (simp add: index_value_codec)
    moreover have "decode_varint64 (encode_varint64 (of_nat b)) = Ok (of_nat b)"
      using decode_encode_varint64 [of "of_nat b" "[]"] by (simp add: decode_varint64_def)
    ultimately show ?thesis
      using that by (simp add: index_value_codec decode_encode_varint64 unat_of_nat_small)
  qed
  have "parse_index_entries (map (\<lambda>i. (ss ! i, index_value (g i) (h i))) is) =
      Ok (map (\<lambda>i. \<lparr> separator = ss ! i, block_offset = g i, block_size = h i \<rparr>) is)"
    if "\<forall>i\<in>set is. g i < 2 ^ 64 \<and> h i < 2 ^ 64" for g h "is"
    using that by (induction "is") (simp_all add: one del: parse_index_entries.simps(2))
  moreover have "length (data_file crc c (take i blks)) < 2 ^ 64 \<and>
      length (blk_out crc c (block_bytes (raw (blks ! i)))) < 2 ^ 64" if "i < length blks" for i
    using assms by (simp add: data_file_split [OF that, of crc c])
  ultimately show ?thesis by (simp add: index_kvs_def table_index_def)
qed

definition index_fits :: "(bytes \<Rightarrow> u32) \<Rightarrow> SstableBlockCompression \<Rightarrow> entry list list \<Rightarrow> bytes list \<Rightarrow> bool" where
  "index_fits crc c blks ss \<longleftrightarrow> length ss = length blks \<and> sorted ss \<and> length blks < 2 ^ 32 \<and>
     list_all kv_small (index_kvs crc c blks ss) \<and>
     blk_off (index_kvs crc c blks ss) (length blks) < 2 ^ 32 \<and>
     length (block_bytes (index_kvs crc c blks ss)) < 2 ^ 32"

lemma index_kvs_no_padding: "no_padding (index_kvs crc c blks ss)"
proof -
  have "encode_varint64 v \<noteq> []" for v using varint_pos [of v] by auto
  then show ?thesis
    by (simp add: no_padding_def is_padding_def blk_view_def index_kvs_def index_value_codec)
qed

lemma length_index_kvs [simp]: "length (index_kvs crc c blks ss) = length blks"
  by (simp add: index_kvs_def)

lemma sort_table_index: "length ss = length blks \<Longrightarrow> sorted ss \<Longrightarrow> sort_index (table_index crc c blks ss) = table_index crc c blks ss"
proof -
  assume a: "length ss = length blks" "sorted ss"
  have "map separator (table_index crc c blks ss) = ss"
    using a(1) by (intro nth_equalityI) (simp_all add: table_index_def)
  with a(2) show ?thesis by (simp add: sort_index_def sort_key_id_if_sorted)
qed

lemma read_index_layout:
  assumes fits: "index_fits crc c blks ss"
    and f: "f = xs @ blk_out crc c (block_bytes (index_kvs crc c blks ss)) @ zs"
    and foot: "footer_start = length xs + length (blk_out crc c (block_bytes (index_kvs crc c blks ss)))"
    and data: "length (data_file crc c blks) < 2 ^ 64"
  shows "read_index crc no_io f (length xs) footer_start (footer_format_version c) = Ok (table_index crc c blks ss)"
proof -
  let ?kvs = "index_kvs crc c blks ss"
  let ?out = "blk_out crc c (block_bytes ?kvs)"
  have lim: "length (block_bytes ?kvs) < 2 ^ 32" and small: "list_all kv_small ?kvs"
      and off: "blk_off ?kvs (length ?kvs) < 2 ^ 32"
    using fits by (simp_all add: index_fits_def)
  have big: "4 < length ?out"
  proof -
    have "4 \<le> length (block_bytes ?kvs)" using block_bytes_layout [OF small] by simp
    then have "blk_payload c (block_bytes ?kvs) \<noteq> []"
      using decode_blk_payload [OF lim, of c]
      by (auto simp: decode_block_payload_with_format_def footer_format_version_def BLOCK_COMPRESSION_HEADER_SIZE_def
          split: if_splits)
    then show ?thesis by (simp add: blk_out_def)
  qed
  have rd: "read_exact_at no_io f (length xs) (length ?out) op = Ok ?out" for op
    by (rule read_exact_at_middle [OF f]) simp_all
  obtain r where r: "new_BlockReader (block_bytes ?kvs) = Ok r" "reads ?kvs r"
    using new_BlockReader_layout [OF small off index_kvs_no_padding] by blast
  have it: "block_iter r = Ok ?kvs"
    using block_iter_from_layout [OF r(2) index_kvs_no_padding, of 0 "[]"] by (simp add: block_iter_def)
  show ?thesis
    using big rd r(1) it fits length_greater_0_conv [of ?out]
    by (simp del: length_greater_0_conv add: read_index_def foot BLOCK_CHECKSUM_SIZE_def verify_blk_out decode_blk_payload [OF lim]
        parse_index_layout [OF data] sort_table_index index_fits_def)
qed

lemma parse_footer_padding:
  "20 \<le> m \<Longrightarrow> parse_footer_format_version (footer_padding c m) = footer_format_version c"
  by (auto simp: parse_footer_format_version_def footer_padding_def FOOTER_FORMAT_METADATA_SIZE_def
      FOOTER_FORMAT_MARKER_def)

lemma length_footer_padding: "8 \<le> m \<Longrightarrow> length (footer_padding c m) = m"
  by (simp add: footer_padding_def FOOTER_FORMAT_METADATA_SIZE_def FOOTER_FORMAT_MARKER_def)

lemma footer_version_supported: "\<not> SSTABLE_FORMAT_VERSION_CURRENT < footer_format_version c"
  by (cases c) (simp_all add: footer_format_version_def SSTABLE_FORMAT_VERSION_CURRENT_def
      SSTABLE_FORMAT_VERSION_BASELINE_def SSTABLE_FORMAT_VERSION_BLOCK_COMPRESSION_def)

definition table_reader ::
  "(bytes \<Rightarrow> u64) \<Rightarrow> (bytes \<Rightarrow> u32) \<Rightarrow> SstableBlockCompression \<Rightarrow> nat \<Rightarrow> entry list list \<Rightarrow> bytes list \<Rightarrow> SSTableReader" where
  "table_reader hash crc c n blks ss = \<lparr> sst_file = table_file hash crc c n blks ss,
     bloom_filter = Partitioned \<lparr> prefix_extractor_len = n,
       partitions = table_parts (length (data_file crc c blks)) (length blks) \<rparr>,
     index_entries = table_index crc c blks ss, format_version = footer_format_version c \<rparr>"

lemma open_table:
  assumes fits: "index_fits crc c blks ss" and n: "n < 2 ^ 16"
    and total: "length (table_file hash crc c n blks ss) < 2 ^ 64"
  shows "sst_open crc no_io (table_file hash crc c n blks ss) = Ok (table_reader hash crc c n blks ss)"
proof -
  let ?data = "data_file crc c blks" and ?bloom = "bloom_section hash n blks"
  let ?idx = "blk_out crc c (block_bytes (index_kvs crc c blks ss))"
  define o1 where "o1 = encode_varint64 (of_nat (length ?data))"
  define o2 where "o2 = encode_varint64 (of_nat (length ?data + length ?bloom))"
  define pad where "pad = footer_padding c (40 - (length o1 + length o2))"
  let ?foot = "o1 @ o2 @ pad @ u64_le MAGIC_NUMBER"
  let ?f = "table_file hash crc c n blks ss"
  have f: "?f = ?data @ ?bloom @ ?idx @ ?foot"
    by (simp add: table_file_def Let_def o1_def o2_def pad_def)
  have o: "length o1 + length o2 \<le> 20" using footer_offsets_fit by (simp add: o1_def o2_def)
  have lpad: "length pad = 40 - (length o1 + length o2)" using o by (simp add: pad_def length_footer_padding)
  then have lfoot: "length ?foot = 48" using o by simp
  have len: "length ?f = length ?data + length ?bloom + length ?idx + 48"
    using lfoot by (simp add: f)
  have foot: "read_exact_at no_io ?f (length ?f - 48) 48 op = Ok ?foot" for op
    using lfoot by (intro read_exact_at_middle [of _ "?data @ ?bloom @ ?idx" _ "[]"]) (simp_all add: f)
  have magic: "from_le (drop 40 ?foot) = MAGIC_NUMBER"
    using lpad o by simp
  have ver: "subslice ?foot (length o1 + length o2) 40 = pad"
    using subslice_append_exact [of "length o1 + length o2" "o1 @ o2" 40 pad "u64_le MAGIC_NUMBER"] lpad o by simp
  have d1: "decode_varint64_with_length ?foot = Ok (of_nat (length ?data), length o1)"
    unfolding o1_def by (rule decode_encode_varint64)
  have d2: "decode_varint64_with_length (drop (length o1) ?foot) =
      Ok (of_nat (length ?data + length ?bloom), length o2)"
    unfolding o2_def by (simp add: decode_encode_varint64)
  have u: "unat (of_nat (length ?data) :: u64) = length ?data"
      "unat (of_nat (length ?data + length ?bloom) :: u64) = length ?data + length ?bloom"
    using total len by (intro unat_of_nat_small, simp)+
  have bl: "parse_partitioned_bloom_filter no_io ?f (length ?data) (length ?bloom) =
      Ok (Some \<lparr> prefix_extractor_len = n, partitions = table_parts (length ?data) (length blks) \<rparr>)"
    using fits total len by (intro parse_bloom_section [OF f n]) (simp_all add: index_fits_def)
  have ix: "read_index crc no_io ?f (length ?data + length ?bloom) (length ?f - 48) (footer_format_version c) =
      Ok (table_index crc c blks ss)"
    using read_index_layout [OF fits, of ?f "?data @ ?bloom" ?foot] total len by (simp add: f add.assoc)
  have pv: "parse_footer_format_version pad = footer_format_version c"
    using parse_footer_padding o by (simp add: pad_def)
  have ord: "\<not> length ?f < 48" "\<not> length ?f \<le> length ?data" "\<not> length ?f \<le> length ?data + length ?bloom"
      "\<not> length ?data + length ?bloom \<le> length ?data"
    using len by (simp_all add: length_bloom_section)
  have counts: "length (table_parts (length ?data) (length blks)) = length (table_index crc c blks ss)"
    by (simp add: table_parts_def table_index_def)
  show ?thesis
    unfolding sst_open_def FOOTER_SIZE_def Let_def foot
    by (simp only: if_False ord magic d1 d2 ver pv u bl ix footer_version_supported read_bloom_filter_def
        table_reader_def counts add_diff_cancel_left' simp_thms map_err_simps and_then_Ok prod.case option.case
        BloomFilterStorage.case SSTableReader.simps PartitionedBloomFilter.simps foot)
qed

end
