(* ===== verification/Sstable_Table.thy ===== *)
theory Sstable_Table
  imports Sstable_Layout
begin

text \<open>
  What \<open>SSTableReader\<close> answers on a file that \<open>SSTableBuilder\<close> wrote: scans, point lookups
  and lookups at a sequence number, through the index, the filter partitions and the data
  blocks.  The user keys are free of zero bytes; the encoded order of separators does not
  follow the key order otherwise.
\<close>

section \<open>Blocks read back\<close>

definition table_blocks_ok :: "entry list list \<Rightarrow> bool" where
  "table_blocks_ok blks \<longleftrightarrow> (\<forall>b\<in>set blks. weight b < 2 ^ 32 - 4) \<and> [] \<notin> set blks \<and> entries_sorted (concat blks)"

lemma blocks_ok_nth:
  assumes "table_blocks_ok blks" "i < length blks"
  shows "length (block_bytes (raw (blks ! i))) < 2 ^ 32" "blk_ok (blks ! i)" "blks ! i \<noteq> []"
proof -
  have m: "blks ! i \<in> set blks" using assms(2) by simp
  then have w: "weight (blks ! i) < 2 ^ 32 - 4" "blks ! i \<noteq> []"
    using assms(1) unfolding table_blocks_ok_def by (blast, metis)
  have "concat blks = concat (take i blks) @ blks ! i @ concat (drop (Suc i) blks)"
    using arg_cong [OF id_take_nth_drop [OF assms(2)], of concat] by simp
  then have "entries_sorted (blks ! i)" using assms(1) by (simp add: table_blocks_ok_def entries_sorted_append)
  then show "length (block_bytes (raw (blks ! i))) < 2 ^ 32" "blk_ok (blks ! i)" "blks ! i \<noteq> []"
    using w block_bytes_weight [of "blks ! i"] blk_ok_weight [of "blks ! i"] by simp_all
qed

lemma table_file_data: "\<exists>rest. table_file hash crc c n blks ss = data_file crc c blks @ bloom_section hash n blks @ rest"
  by (simp add: table_file_def Let_def)

lemma load_block:
  assumes "table_blocks_ok blks" "i < length blks"
  shows "load_data_block_payload crc no_io (table_reader hash crc c n blks ss) (table_index crc c blks ss ! i) =
    Ok (block_bytes (raw (blks ! i)))"
proof -
  obtain rest where "table_file hash crc c n blks ss = data_file crc c (take i blks) @
      blk_out crc c (block_bytes (raw (blks ! i))) @ data_file crc c (drop (Suc i) blks) @ bloom_section hash n blks @ rest"
    using table_file_data [of hash crc c n blks ss] data_file_split [OF assms(2), of crc c] by auto
  from read_exact_at_middle [OF this refl refl] show ?thesis
    using assms(2)
    by (simp add: load_data_block_payload_def table_reader_def table_index_def verify_blk_out
        decode_blk_payload [OF blocks_ok_nth(1) [OF assms]])
qed

lemma may_contain_block:
  assumes "i < length blks"
  shows "may_contain_for_block hash no_io (table_reader hash crc c n blks ss) uk i =
    Ok (bloom_contains hash (bloom_lookup_key uk n) (blk_bitmap hash n (blks ! i)))"
proof -
  let ?ps = "map (blk_bitmap hash n) blks"
  define hd where "hd = PARTITIONED_BLOOM_MAGIC @ [PARTITIONED_BLOOM_VERSION] @ u16_le (of_nat n) @
    u32_le (of_nat (length blks)) @ bloom_index (11 + 16 * length blks) ?ps"
  have len: "length hd = 11 + 16 * length blks" by (simp add: hd_def PARTITIONED_BLOOM_MAGIC_def)
  have "?ps = take i ?ps @ blk_bitmap hash n (blks ! i) # drop (Suc i) ?ps"
    using id_take_nth_drop [of i ?ps] assms by simp
  from arg_cong [OF this, of concat]
  have "bloom_section hash n blks = hd @ concat (take i ?ps) @ blk_bitmap hash n (blks ! i) @ concat (drop (Suc i) ?ps)"
    by (simp add: bloom_section_def encode_partitioned_bloom_section_def Let_def hd_def
        PARTITIONED_BLOOM_HEADER_SIZE_def PARTITIONED_BLOOM_INDEX_ENTRY_SIZE_def)
  then obtain rest where f: "table_file hash crc c n blks ss = (data_file crc c blks @ hd @ concat (take i ?ps)) @
      blk_bitmap hash n (blks ! i) @ rest"
    using table_file_data [of hash crc c n blks ss] by auto
  have "length (concat (take i ?ps)) = 1024 * i"
    using length_concat_const [of "take i ?ps" 1024] assms by (simp add: take_map)
  then have "read_exact_at no_io (table_file hash crc c n blks ss)
      (length (data_file crc c blks) + (11 + 16 * length blks) + 1024 * i) 1024 op = Ok (blk_bitmap hash n (blks ! i))" for op
    using len by (intro read_exact_at_middle [OF f]) simp_all
  then show ?thesis
    using assms by (simp add: may_contain_for_block_def table_reader_def bloom_may_contain_def table_parts_def)
qed

definition sst_kinds :: "entry list \<Rightarrow> bool" where
  "sst_kinds es \<longleftrightarrow> list_all (\<lambda>e. kind (fst e) = Ok Put \<or> kind (fst e) = Ok Delete) es"

lemma validate_kind: "kind k = Ok Put \<or> kind k = Ok Delete \<Longrightarrow> validate_sstable_internal_key_kind k = Ok ()"
  by (auto simp: validate_sstable_internal_key_kind_def)

lemma sst_decode_serialize:
  "kind k = Ok Put \<or> kind k = Ok Delete \<Longrightarrow> sst_decode_internal_key (serialize k) = Ok k"
  using validate_kind [of k] decode_serialize(2) [of k]
  by (auto simp: sst_decode_internal_key_def decode_internal_key_slice_def Let_def split: if_splits)

lemma decode_entries_raw: "sst_kinds es \<Longrightarrow> decode_entries (raw es) = Ok es"
  by (induction es) (auto simp: sst_kinds_def raw_def sst_decode_serialize)

lemma scan_block_layout:
  assumes ok: "table_blocks_ok blks" and i: "i < length blks" and kinds: "sst_kinds (blks ! i)"
  shows "scan_block crc no_io (table_reader hash crc c n blks ss) (table_index crc c blks ss ! i) = Ok (blks ! i)"
proof -
  obtain r where r: "new_BlockReader (block_bytes (raw (blks ! i))) = Ok r" "built (blks ! i) r"
    using new_BlockReader_built [OF blocks_ok_nth(2) [OF ok i]] by blast
  then have "block_iter r = Ok (raw (blks ! i))"
    using block_iter_from_layout [of "raw (blks ! i)" r 0 "[]"] sorted_no_padding [of "blks ! i"]
    by (simp add: block_iter_def built_def)
  then show ?thesis
    using r(1) by (simp add: scan_block_def load_block [OF ok i] decode_entries_raw [OF kinds])
qed

lemma sst_kinds_concat: "sst_kinds (concat blks) \<longleftrightarrow> list_all sst_kinds blks"
  by (induction blks) (simp_all add: sst_kinds_def)

lemma scan_blocks_each:
  "(\<And>i. i < length xs \<Longrightarrow> scan_block crc io r (xs ! i) = Ok (ys ! i)) \<Longrightarrow> length ys = length xs \<Longrightarrow>
   scan_blocks crc io r xs = Ok (concat ys)"
proof (induction xs arbitrary: ys)
  case (Cons x xs)
  obtain y zs where ys: "ys = y # zs" using Cons.prems(2) by (cases ys) auto
  have "scan_block crc io r (xs ! i) = Ok (zs ! i)" if "i < length xs" for i
    using Cons.prems(1) [of "Suc i"] that by (simp add: ys)
  then have "scan_blocks crc io r xs = Ok (concat zs)"
    using Cons.IH [of zs] Cons.prems(2) by (simp add: ys)
  then show ?case using Cons.prems(1) [of 0] by (simp add: ys)
qed simp

lemma scan_table:
  assumes "table_blocks_ok blks" "sst_kinds (concat blks)"
  shows "scan_all crc no_io (table_reader hash crc c n blks ss) = Ok (concat blks)"
proof -
  have "index_entries (table_reader hash crc c n blks ss) = table_index crc c blks ss" by (simp add: table_reader_def)
  moreover have "sst_kinds (blks ! i)" if "i < length blks" for i
    using assms(2) that by (simp add: sst_kinds_concat list_all_length)
  ultimately show ?thesis
    using scan_block_layout [OF assms(1)]
    by (simp add: scan_all_def, intro scan_blocks_each) (simp_all add: table_index_def)
qed

section \<open>Lookups in one block\<close>

lemma new_BlockReader_data: "new_BlockReader data = Ok r \<Longrightarrow> br_data r = data"
  by (auto simp: new_BlockReader_def with_search_index_def and_then_eq_Ok split: if_splits)

lemma open_data_block_built:
  assumes "blk_ok es"
  shows "\<exists>r. open_data_block (block_bytes (raw es)) = Ok r \<and> built es r \<and> br_data r = block_bytes (raw es)"
proof -
  obtain r where r: "new_BlockReader (block_bytes (raw es)) = Ok r" "built es r"
    using new_BlockReader_built [OF assms] by blast
  then have "open_data_block (block_bytes (raw es)) = Ok r"
    by (auto simp: open_data_block_def new_BlockReader_def and_then_eq_Ok)
  with r show ?thesis by (blast dest: new_BlockReader_data)
qed

lemma pin_rng:
  assumes b: "built es r" and d: "br_data r = payload" and lim: "length payload < 2 ^ 32"
    and k: "sst_kinds es" and j: "j < length es"
  shows "pinned_entry payload (rng es j) = Ok (es ! j)" "checked_pinned_entry payload (rng es j) = Ok (es ! j)"
proof -
  obtain ik off len where rng: "rng es j = (ik, off, len)" by (cases "rng es j") auto
  have ik: "ik = fst (es ! j)" using rng by (simp add: rng_def)
  have v: "off + len \<le> length payload" "Some (ik, subslice payload off (off + len)) = Some (es ! j)"
    using value_of_rng [of es r j] b d j rng
    by (auto simp: built_def value_slice_to_vec_def split: if_splits)
  have "validate_sstable_internal_key_kind ik = Ok ()"
    using k j by (intro validate_kind) (simp add: ik sst_kinds_def list_all_length)
  then show "pinned_entry payload (rng es j) = Ok (es ! j)" "checked_pinned_entry payload (rng es j) = Ok (es ! j)"
    using v lim by (simp_all add: pinned_entry_def checked_pinned_entry_def pin_value_def rng)
qed

lemma visible_find: "visible uk s es = map_option ((!) es) (find (\<lambda>j. ukey (es ! j) = uk \<and> eseq (es ! j) \<le> s) [0..<length es])"
  using find_nth [of es "\<lambda>e. ukey e = uk \<and> eseq e \<le> s"] by (simp add: visible_def)

lemma visible_max: "visible uk SEQUENCE_NUMBER_MAX es = find (\<lambda>e. ukey e = uk) es"
  by (simp add: visible_def sequence_number_le_max)

lemma get_block:
  assumes "blk_ok es" "length (block_bytes (raw es)) < 2 ^ 32" "sst_kinds es"
  shows "\<exists>br. open_data_block (block_bytes (raw es)) = Ok br \<and>
    and_then (get_by_user_key_entry br uk) (\<lambda>found. case found of None \<Rightarrow> Ok None
      | Some vr \<Rightarrow> and_then (checked_pinned_entry (block_bytes (raw es)) vr) (\<lambda>e. Ok (Some e))) =
    Ok (visible uk SEQUENCE_NUMBER_MAX es) \<and>
    (\<exists>any. get_by_user_key_entry br uk = Ok any \<and> (any = None \<longleftrightarrow> (\<forall>e\<in>set es. ukey e \<noteq> uk))) \<and>
    (length (filter (\<lambda>e. ukey e = uk) es) \<le> 16 \<longrightarrow>
      and_then (get_by_user_key_with_value_range_at_seq br uk s) (\<lambda>found. case found of None \<Rightarrow> Ok None
        | Some vr \<Rightarrow> and_then (pinned_entry (block_bytes (raw es)) vr) (\<lambda>e. Ok (Some e))) = Ok (visible uk s es))"
proof -
  obtain br where br: "open_data_block (block_bytes (raw es)) = Ok br" "built es br"
      "br_data br = block_bytes (raw es)"
    using open_data_block_built [OF assms(1)] by blast
  note pin = pin_rng [OF br(2,3) assms(2,3)]
  let ?P = "\<lambda>j. ukey (es ! j) = uk" and ?Q = "\<lambda>j. ukey (es ! j) = uk \<and> eseq (es ! j) \<le> s"
  have find_lt: "find R [0..<length es] = Some j \<Longrightarrow> j < length es" for R j by (auto simp: find_Some_iff)
  have "visible uk SEQUENCE_NUMBER_MAX es = map_option ((!) es) (find ?P [0..<length es])"
    by (simp add: visible_find sequence_number_le_max)
  then have g: "and_then (get_by_user_key_entry br uk) (\<lambda>found. case found of None \<Rightarrow> Ok None
      | Some vr \<Rightarrow> and_then (checked_pinned_entry (block_bytes (raw es)) vr) (\<lambda>e. Ok (Some e))) =
      Ok (visible uk SEQUENCE_NUMBER_MAX es)"
    using get_entry_layout [OF br(2), of uk] pin(2) find_lt [of ?P]
    by (cases "find ?P [0..<length es]") auto
  have any: "(find ?P [0..<length es] = None) \<longleftrightarrow> (\<forall>e\<in>set es. ukey e \<noteq> uk)"
    by (simp add: find_None_iff all_set_conv_all_nth)
  have "and_then (get_by_user_key_with_value_range_at_seq br uk s) (\<lambda>found. case found of None \<Rightarrow> Ok None
        | Some vr \<Rightarrow> and_then (pinned_entry (block_bytes (raw es)) vr) (\<lambda>e. Ok (Some e))) = Ok (visible uk s es)"
    if "length (filter (\<lambda>e. ukey e = uk) es) \<le> 16"
    using get_at_seq_layout [OF br(2) that, of s] pin(1) find_lt [of ?Q] visible_find [of uk s es]
    by (cases "find ?Q [0..<length es]") auto
  then show ?thesis
    using br(1) g any get_entry_layout [OF br(2), of uk] by auto
qed

lemma visible_append:
  "visible uk s (xs @ ys) = (case visible uk s xs of Some e \<Rightarrow> Some e | None \<Rightarrow> visible uk s ys)"
  by (induction xs) (simp_all add: visible_def)

lemma visible_absent: "(\<forall>e\<in>set es. ukey e \<noteq> uk) \<Longrightarrow> visible uk s es = None"
  by (auto simp: visible_None)

section \<open>Finding the block\<close>

lemma index_lower_bound_spec:
  assumes sorted: "sorted (map separator es)"
    and "left \<le> right" "right \<le> length es" "\<forall>i<left. separator (es ! i) < key"
    "\<forall>i. right \<le> i \<longrightarrow> i < length es \<longrightarrow> key \<le> separator (es ! i)"
  shows "(case index_lower_bound es key left right of l \<Rightarrow>
    l \<le> length es \<and> (\<forall>i<l. separator (es ! i) < key) \<and> (\<forall>i. l \<le> i \<longrightarrow> i < length es \<longrightarrow> key \<le> separator (es ! i)))"
  using assms(2-)
proof (induction "right - left" arbitrary: left right rule: less_induct)
  case less
  let ?mid = "(left + right) div 2"
  have mono: "separator (es ! i) \<le> separator (es ! j)" if "i \<le> j" "j < length es" for i j
    using sorted_nth_mono [OF sorted, of i j] that by simp
  show ?case
  proof (cases "left < right")
    case True
    then have mid: "left \<le> ?mid" "?mid < right" by simp_all
    show ?thesis
    proof (cases "separator (es ! ?mid) < key")
      case lt: True
      have below: "separator (es ! i) < key" if "i < ?mid + 1" for i
      proof -
        have "i \<le> ?mid" "?mid < length es" using that mid less.prems(2) by simp_all
        from le_less_trans [OF mono [OF this] lt] show ?thesis .
      qed
      have "case index_lower_bound es key (?mid + 1) right of l \<Rightarrow> l \<le> length es \<and>
          (\<forall>i<l. separator (es ! i) < key) \<and> (\<forall>i. l \<le> i \<longrightarrow> i < length es \<longrightarrow> key \<le> separator (es ! i))"
        by (rule less.hyps) (use mid less.prems below in auto)
      then show ?thesis
        using True lt by (simp add: index_lower_bound.simps [of es key left right] cmp_def)
    next
      case ge: False
      have above: "key \<le> separator (es ! i)" if "?mid \<le> i" "i < length es" for i
        using mono [OF that] ge by simp
      have "case index_lower_bound es key left ?mid of l \<Rightarrow> l \<le> length es \<and>
          (\<forall>i<l. separator (es ! i) < key) \<and> (\<forall>i. l \<le> i \<longrightarrow> i < length es \<longrightarrow> key \<le> separator (es ! i))"
        by (rule less.hyps) (use mid less.prems above in auto)
      moreover have "index_lower_bound es key left right = index_lower_bound es key left ?mid"
        using True ge by (simp add: index_lower_bound.simps [of es key left right] cmp_def Let_def)
      ultimately show ?thesis by simp
    qed
  next
    case False
    then show ?thesis
      using less.prems index_lower_bound.simps [of es key left right] by simp
  qed
qed

definition zero_free :: "entry list \<Rightarrow> bool" where
  "zero_free es \<longleftrightarrow> list_all (\<lambda>e. 0 \<notin> set (ukey e)) es"

lemma sep_tail_val: "NOT (push_bit 8 SEQUENCE_NUMBER_MAX) = (0xFF :: u64)"
  by (simp add: SEQUENCE_NUMBER_MAX_val push_bit_eq_mult)

lemma sep_tail: "\<exists>t. u64_be (NOT (push_bit 8 SEQUENCE_NUMBER_MAX)) = 0 # t"
proof -
  have 8: "8 = Suc 7" by simp
  have "drop_bit (8 * 7) (0xFF :: u64) = 0" by (simp add: drop_bit_eq_div)
  then have "u64_be (0xFF :: u64) = 0 # to_be 7 (0xFF :: u64)"
    unfolding 8 to_be_Suc by (simp only: unsigned_0)
  then show ?thesis unfolding sep_tail_val by (rule exI)
qed

lemma prefix_imp_le: "prefix u s \<Longrightarrow> u \<le> (s :: bytes)"
  by (induction u arbitrary: s) (auto simp: prefix_def)

lemma less_not_prefix: "s < (u :: bytes) \<Longrightarrow> \<not> prefix u s"
  by (metis linorder_not_less prefix_imp_le)

lemma sep_less_serialize:
  assumes "s < user_key k" "0 \<notin> set (user_key k)"
  shows "sep_bytes s < serialize k"
proof (cases "prefix s (user_key k)")
  case True
  then obtain t where t: "user_key k = s @ t" by (auto simp: prefix_def)
  show ?thesis
  proof (cases t)
    case Nil
    then show ?thesis using assms(1) t by simp
  next
    case (Cons x t')
    then have "x \<noteq> 0" using assms(2) t by auto
    then have "0 < x" by (rule word_neq_0_conv [THEN iffD1])
    obtain z where z: "u64_be (NOT (push_bit 8 SEQUENCE_NUMBER_MAX)) = 0 # z" using sep_tail by blast
    have "s @ 0 # z < s @ x # t' @ u64_be (NOT (encoded_sequence_number k))" using \<open>0 < x\<close> by simp
    then show ?thesis
      unfolding sep_bytes_def serialize_def InternalKey.simps z t Cons append_assoc append_Cons .
  qed
next
  case False
  show ?thesis
    unfolding sep_bytes_def serialize_def InternalKey.simps
    using less_append_no_prefix [OF False less_not_prefix [OF assms(1)], THEN iffD2, OF assms(1)] .
qed

lemma sep_bytes_less: "s < u \<Longrightarrow> 0 \<notin> set u \<Longrightarrow> sep_bytes s < sep_bytes u"
  using sep_less_serialize [of s "\<lparr> user_key = u, encoded_sequence_number = push_bit 8 SEQUENCE_NUMBER_MAX \<rparr>"]
  by (simp add: sep_bytes_def)

lemma sep_bytes_mono: "s \<le> u \<Longrightarrow> 0 \<notin> set u \<Longrightarrow> sep_bytes s \<le> sep_bytes u"
  using sep_bytes_less [of s u] by (cases "s = u") (auto simp: less_imp_le)

text \<open>What the lookups need of the separators.\<close>

definition separates :: "bytes \<Rightarrow> entry list list \<Rightarrow> nat \<Rightarrow> bool" where
  "separates s blks i \<longleftrightarrow> 0 \<notin> set s \<and> (\<forall>e\<in>set (blks ! i). ukey e \<le> s) \<and>
     (\<forall>j e. i < j \<longrightarrow> j < length blks \<longrightarrow> e \<in> set (blks ! j) \<longrightarrow>
        s \<le> ukey e \<and> (s = ukey e \<longrightarrow> (\<exists>e'\<in>set (blks ! i). ukey e' = ukey e)))"

lemma separatesD:
  assumes "separates s blks i"
  shows "0 \<notin> set s" "e \<in> set (blks ! i) \<Longrightarrow> ukey e \<le> s"
    "i < j \<Longrightarrow> j < length blks \<Longrightarrow> e \<in> set (blks ! j) \<Longrightarrow> s \<le> ukey e"
    "i < j \<Longrightarrow> j < length blks \<Longrightarrow> e \<in> set (blks ! j) \<Longrightarrow> s = ukey e \<Longrightarrow> \<exists>e'\<in>set (blks ! i). ukey e' = ukey e"
  using assms unfolding separates_def by blast+

definition seps_ok :: "entry list list \<Rightarrow> bytes list \<Rightarrow> bool" where
  "seps_ok blks ss \<longleftrightarrow> length ss = length blks \<and> sorted ss \<and>
     (\<forall>i. Suc i < length blks \<longrightarrow> (\<exists>s. ss ! i = sep_bytes s \<and> separates s blks i))"

lemma table_index_separators:
  "length ss = length blks \<Longrightarrow> map separator (table_index crc c blks ss) = ss"
  by (intro nth_equalityI) (simp_all add: table_index_def)

lemma length_table_index [simp]: "length (table_index crc c blks ss) = length blks"
  by (simp add: table_index_def)

lemma table_index_separator: "i < length blks \<Longrightarrow> separator (table_index crc c blks ss ! i) = ss ! i"
  by (simp add: table_index_def)

lemma find_block_first:
  assumes seps: "seps_ok blks ss" and f: "f < length blks" "uk \<in> ukey ` set (blks ! f)"
    and first: "\<forall>i<f. uk \<notin> ukey ` set (blks ! i)" and zf: "0 \<notin> set uk"
  shows "find_block_index_for_key (table_reader hash crc c n blks ss) (sep_bytes uk) = Some f"
proof -
  let ?es = "table_index crc c blks ss" and ?key = "sep_bytes uk"
  define l where "l = index_lower_bound ?es ?key 0 (length ?es)"
  have len: "length ss = length blks" and sorted: "sorted (map separator ?es)"
    using seps table_index_separators [of ss blks] by (simp_all add: seps_ok_def)
  have l: "l \<le> length blks" "\<And>i. i < l \<Longrightarrow> ss ! i < ?key" "\<And>i. l \<le> i \<Longrightarrow> i < length blks \<Longrightarrow> ?key \<le> ss ! i"
    using index_lower_bound_spec [OF sorted, of 0 "length ?es" ?key] table_index_separator [of _ blks crc c ss]
    by (auto simp: l_def)
  have before: "ss ! i < ?key" if i: "i < f" for i
  proof -
    obtain s where s: "ss ! i = sep_bytes s" "separates s blks i"
      using seps i f(1) unfolding seps_ok_def by (meson Suc_leI le_less_trans)
    obtain e where e: "e \<in> set (blks ! f)" "ukey e = uk" using f(2) by auto
    have "s \<le> ukey e" "s = ukey e \<longrightarrow> (\<exists>e'\<in>set (blks ! i). ukey e' = ukey e)"
      using separatesD(3,4) [OF s(2) i f(1) e(1)] by blast+
    then have "s \<le> uk" "s \<noteq> uk" using e(2) first i by (force, metis image_eqI)
    then show ?thesis using s(1) zf by (simp add: sep_bytes_less)
  qed
  have "?es \<noteq> []" using f(1) length_table_index [of crc c blks ss] by force
  then have fb: "find_block_index_for_key (table_reader hash crc c n blks ss) ?key =
      Some (if l < length blks then l else length blks - 1)"
    by (simp add: find_block_index_for_key_def table_reader_def Let_def l_def)
  have fl: "f \<le> l"
  proof (rule ccontr)
    assume "\<not> f \<le> l"
    then show False using before [of l] l(3) [of l] f(1) by simp
  qed
  show ?thesis
  proof (cases "Suc f < length blks")
    case True
    then obtain s where s: "ss ! f = sep_bytes s" "separates s blks f" using seps by (auto simp: seps_ok_def)
    then have "uk \<le> s" "0 \<notin> set s" using f(2) by (auto simp: separates_def)
    then have "?key \<le> ss ! f" using s(1) by (simp add: sep_bytes_mono)
    then have "l = f" using l(2) [of f] fl by (cases "f < l") auto
    then show ?thesis using f(1) fb by simp
  next
    case False
    then have "f = length blks - 1" using f(1) by simp
    then show ?thesis using fl l(1) f(1) fb by auto
  qed
qed

lemma find_block_range:
  "find_block_index_for_key (table_reader hash crc c n blks ss) key = Some i \<Longrightarrow> i < length blks"
  "find_block_index_for_key (table_reader hash crc c n blks ss) key = None \<longleftrightarrow> blks = []"
  by (auto simp: find_block_index_for_key_def table_reader_def table_index_def Let_def split: if_splits)

section \<open>Lookups in the table\<close>

lemma block_in_concat: "i < length blks \<Longrightarrow> concat blks = concat (take i blks) @ blks ! i @ concat (drop (Suc i) blks)"
  using arg_cong [OF id_take_nth_drop, of i blks concat] by simp

lemma first_block_with:
  assumes "e \<in> set (concat blks)" "ukey e = uk"
  obtains f where "f < length blks" "uk \<in> ukey ` set (blks ! f)" "\<forall>i<f. uk \<notin> ukey ` set (blks ! i)"
proof -
  let ?P = "\<lambda>i. i < length blks \<and> uk \<in> ukey ` set (blks ! i)"
  obtain b where b: "b \<in> set blks" "e \<in> set b" using assms(1) by auto
  then obtain i where i: "i < length blks" "b = blks ! i" by (auto simp: in_set_conv_nth)
  have "?P i" using b(2) assms(2) i by auto
  then have "?P (LEAST i. ?P i)" by (rule LeastI)
  moreover have "\<not> ?P i" if "i < (LEAST i. ?P i)" for i using not_less_Least [OF that] .
  ultimately show thesis using that [of "LEAST i. ?P i"] by (meson less_trans)
qed

lemma visible_from_first:
  assumes "\<forall>i<f. uk \<notin> ukey ` set (blks ! i)" "f \<le> length blks"
  shows "visible uk s (concat blks) = visible uk s (concat (drop f blks))"
proof -
  have "visible uk s (concat (take f blks)) = None"
    using assms by (intro visible_absent) (force simp: in_set_conv_nth)
  then show ?thesis
    using visible_append [of uk s "concat (take f blks)" "concat (drop f blks)"]
    by (simp flip: concat_append)
qed

lemma get_table:
  assumes ok: "table_blocks_ok blks" and seps: "seps_ok blks ss" and kinds: "sst_kinds (concat blks)"
    and zf: "zero_free (concat blks)"
  shows "sst_get_pinned hash crc no_io (table_reader hash crc c n blks ss) uk =
    Ok (visible uk SEQUENCE_NUMBER_MAX (concat blks))"
proof -
  let ?r = "table_reader hash crc c n blks ss"
  have entries: "index_entries ?r = table_index crc c blks ss" by (simp add: table_reader_def)
  show ?thesis
  proof (cases "find_block_index_for_key ?r (sep_bytes uk)")
    case None
    then show ?thesis
      using find_block_range(2) [of hash crc c n blks ss] by (simp add: sst_get_pinned_def probe_key_bytes visible_def)
  next
    case (Some i)
    then have i: "i < length blks" by (rule find_block_range)
    have ki: "sst_kinds (blks ! i)" using kinds i by (simp add: sst_kinds_concat list_all_length)
    have here: "sst_get_pinned hash crc no_io ?r uk = Ok (visible uk SEQUENCE_NUMBER_MAX (blks ! i))"
    proof (cases "bloom_contains hash (bloom_lookup_key uk n) (blk_bitmap hash n (blks ! i))")
      case True
      obtain br where "open_data_block (block_bytes (raw (blks ! i))) = Ok br"
          "and_then (get_by_user_key_entry br uk) (\<lambda>found. case found of None \<Rightarrow> Ok None
            | Some vr \<Rightarrow> and_then (checked_pinned_entry (block_bytes (raw (blks ! i))) vr) (\<lambda>e. Ok (Some e))) =
          Ok (visible uk SEQUENCE_NUMBER_MAX (blks ! i))"
        using get_block [OF blocks_ok_nth(2,1) [OF ok i] ki, of uk 0] by blast
      with True show ?thesis
        by (simp add: sst_get_pinned_def probe_key_bytes Some may_contain_block [OF i] entries load_block [OF ok i])
    next
      case False
      then have "visible uk SEQUENCE_NUMBER_MAX (blks ! i) = None"
        using blk_bitmap_contains [of _ "blks ! i" hash n] by (intro visible_absent) blast
      with False show ?thesis
        by (simp add: sst_get_pinned_def probe_key_bytes Some may_contain_block [OF i])
    qed
    have "visible uk SEQUENCE_NUMBER_MAX (blks ! i) = visible uk SEQUENCE_NUMBER_MAX (concat blks)"
    proof (cases "\<exists>e\<in>set (concat blks). ukey e = uk")
      case True
      then obtain e where e: "e \<in> set (concat blks)" "ukey e = uk" by blast
      then obtain f where f: "f < length blks" "uk \<in> ukey ` set (blks ! f)" "\<forall>i<f. uk \<notin> ukey ` set (blks ! i)"
        by (rule first_block_with)
      have "0 \<notin> set uk" using e zf by (auto simp: zero_free_def list_all_iff)
      then have "i = f" using find_block_first [OF seps f] Some by simp
      have "visible uk SEQUENCE_NUMBER_MAX (blks ! f) \<noteq> None"
        using f(2) sequence_number_le_max by (auto simp: visible_None)
      then show ?thesis
        using visible_from_first [OF f(3), of SEQUENCE_NUMBER_MAX] f(1)
        by (auto simp: \<open>i = f\<close> visible_append Cons_nth_drop_Suc [symmetric])
    next
      case False
      then have "visible uk SEQUENCE_NUMBER_MAX (concat blks) = None" "visible uk SEQUENCE_NUMBER_MAX (blks ! i) = None"
        using i by (auto intro!: visible_absent simp: block_in_concat [OF i])
      then show ?thesis by simp
    qed
    with here show ?thesis by simp
  qed
qed

lemma blocks_ordered:
  assumes ok: "table_blocks_ok blks" and ij: "i < j" "j < length blks" and e: "a \<in> set (blks ! i)" "b \<in> set (blks ! j)"
  shows "epos a < epos b"
proof -
  have "a \<in> set (concat (take j blks))"
    using e(1) ij by (auto simp: in_set_conv_nth intro!: bexI [of _ "take j blks ! i"])
      (metis length_take min.absorb4 nth_mem nth_take)
  then show ?thesis
    using ok e(2) unfolding table_blocks_ok_def block_in_concat [OF ij(2)] entries_sorted_append by auto
qed

lemma at_seq_table:
  assumes ok: "table_blocks_ok blks" and seps: "seps_ok blks ss" and kinds: "sst_kinds (concat blks)"
    and few: "length (filter (\<lambda>e. ukey e = uk) (concat blks)) \<le> 16"
  shows "i \<le> length blks \<Longrightarrow> (seen \<Longrightarrow> \<exists>j<i. uk \<in> ukey ` set (blks ! j)) \<Longrightarrow>
    sst_at_seq_loop hash crc no_io (table_reader hash crc c n blks ss) uk s i (drop i (table_index crc c blks ss)) seen =
    Ok (visible uk s (concat (drop i blks)))"
proof (induction "length blks - i" arbitrary: i seen)
  case 0
  then show ?case by (simp add: visible_def)
next
  case (Suc m)
  then have i: "i < length blks" by simp
  let ?r = "table_reader hash crc c n blks ss" and ?e = "table_index crc c blks ss ! i" and ?b = "blks ! i"
  let ?loop = "\<lambda>i. sst_at_seq_loop hash crc no_io ?r uk s i (drop i (table_index crc c blks ss))"
  have ki: "sst_kinds ?b" using kinds i by (simp add: sst_kinds_concat list_all_length)
  have fi: "length (filter (\<lambda>e. ukey e = uk) ?b) \<le> 16" using few by (simp add: block_in_concat [OF i])
  have d: "drop i (table_index crc c blks ss) = ?e # drop (Suc i) (table_index crc c blks ss)"
    "visible uk s (concat (drop i blks)) =
      (case visible uk s ?b of Some e \<Rightarrow> Some e | None \<Rightarrow> visible uk s (concat (drop (Suc i) blks)))"
    using i by (simp_all add: Cons_nth_drop_Suc [symmetric] visible_append)
  have IH: "?loop (Suc i) seen' = Ok (visible uk s (concat (drop (Suc i) blks)))"
    if "seen' \<Longrightarrow> \<exists>j<Suc i. uk \<in> ukey ` set (blks ! j)" for seen'
    using Suc.hyps(1) [of "Suc i" seen'] Suc.hyps(2) i that by simp
  have IHs: "?loop (Suc i) seen = Ok (visible uk s (concat (drop (Suc i) blks)))"
    using Suc.prems(2) by (intro IH) (meson less_SucI)
  show ?case
  proof (cases "bloom_contains hash (bloom_lookup_key uk n) (blk_bitmap hash n ?b)")
    case False
    then have "visible uk s ?b = None"
      using blk_bitmap_contains [of _ ?b hash n] by (intro visible_absent) blast
    with False show ?thesis using IHs by (simp add: d may_contain_block [OF i])
  next
    case True
    obtain br any where br: "open_data_block (block_bytes (raw ?b)) = Ok br" "get_by_user_key_entry br uk = Ok any"
        "any = None \<longleftrightarrow> (\<forall>e\<in>set ?b. ukey e \<noteq> uk)"
        "and_then (get_by_user_key_with_value_range_at_seq br uk s) (\<lambda>found. case found of None \<Rightarrow> Ok None
          | Some vr \<Rightarrow> and_then (pinned_entry (block_bytes (raw ?b)) vr) (\<lambda>e. Ok (Some e))) = Ok (visible uk s ?b)"
      using get_block [OF blocks_ok_nth(2,1) [OF ok i] ki, of uk s] fi by blast
    obtain found where found: "get_by_user_key_with_value_range_at_seq br uk s = Ok found"
      using br(4) by (auto simp: and_then_eq_Ok)
    note run = d may_contain_block [OF i] True load_block [OF ok i] br(1,2) found
    show ?thesis
    proof (cases found)
      case (Some vr)
      then show ?thesis using br(4) found by (auto simp: run and_then_eq_Ok split: option.splits)
    next
      case None
      then have vb: "visible uk s ?b = None" using br(4) found by simp
      have rest: "visible uk s (concat (drop (Suc i) blks)) = None"
        if later: "\<And>j e. i < j \<Longrightarrow> j < length blks \<Longrightarrow> e \<in> set (blks ! j) \<Longrightarrow> uk < ukey e"
      proof (intro visible_absent ballI)
        fix e assume "e \<in> set (concat (drop (Suc i) blks))"
        then obtain b where "b \<in> set (drop (Suc i) blks)" "e \<in> set b" by auto
        moreover from this(1) obtain k where "k < length (drop (Suc i) blks)" "drop (Suc i) blks ! k = b"
          by (auto simp only: in_set_conv_nth)
        ultimately have "Suc i + k < length blks" "e \<in> set (blks ! (Suc i + k))" by auto
        then show "ukey e \<noteq> uk" using later [of "Suc i + k" e] by auto
      qed
      show ?thesis
      proof (cases any)
        case Some: (Some x)
        then have "uk \<in> ukey ` set ?b" using br(3) by auto
        then have "?loop (Suc i) True = Ok (visible uk s (concat (drop (Suc i) blks)))" by (intro IH) blast
        then show ?thesis using None vb Some by (cases x) (simp add: run)
      next
        case absent: None
        let ?stop = "case user_key_of_internal_key (separator ?e) of Some sk \<Rightarrow> uk < sk | None \<Rightarrow> False"
        have "visible uk s (concat (drop (Suc i) blks)) = None" if was: seen
        proof (rule rest)
          fix j e assume j: "i < j" "j < length blks" "e \<in> set (blks ! j)"
          obtain k where k: "k < i" "uk \<in> ukey ` set (blks ! k)" using Suc.prems(2) [OF was] by blast
          obtain x where x: "x \<in> set ?b" using blocks_ok_nth(3) [OF ok i] by (cases ?b) auto
          obtain y where y: "y \<in> set (blks ! k)" "ukey y = uk" using k(2) by auto
          have "uk \<le> ukey x" using blocks_ordered [OF ok k(1) i y(1) x] y(2) by (auto simp: epos_less)
          then have "uk < ukey x" using absent br(3) x by (auto simp: order_less_le)
          with blocks_ordered [OF ok j(1,2) x j(3)] show "uk < ukey e" by (auto simp: epos_less)
        qed
        moreover have "visible uk s (concat (drop (Suc i) blks)) = None" if ?stop
        proof (cases "Suc i < length blks")
          case True
          then obtain t where t: "ss ! i = sep_bytes t" "separates t blks i" using seps by (auto simp: seps_ok_def)
          have "uk < t" using that t(1) i by (simp add: table_index_separator sep_bytes_def)
          then show ?thesis
            using t(2) unfolding separates_def by (intro rest) (meson less_le_trans)
        qed (simp add: visible_def)
        ultimately show ?thesis using IHs None vb absent by (auto simp: run)
      qed
    qed
  qed
qed

lemma visible_drop_absent:
  assumes "\<forall>e\<in>set (concat blks). ukey e \<noteq> uk"
  shows "visible uk s (concat (drop i blks)) = visible uk s (concat blks)"
proof -
  have "set (concat (drop i blks)) \<subseteq> set (concat blks)" by (auto dest: in_set_dropD)
  then have "visible uk s (concat (drop i blks)) = None" using assms by (intro visible_absent) blast
  moreover have "visible uk s (concat blks) = None" using assms by (rule visible_absent)
  ultimately show ?thesis by simp
qed

lemma get_at_seq_table:
  assumes ok: "table_blocks_ok blks" and seps: "seps_ok blks ss" and kinds: "sst_kinds (concat blks)"
    and zf: "zero_free (concat blks)" and few: "length (filter (\<lambda>e. ukey e = uk) (concat blks)) \<le> 16"
  shows "sst_get_pinned_at_seq hash crc no_io (table_reader hash crc c n blks ss) uk s = Ok (visible uk s (concat blks))"
proof -
  let ?r = "table_reader hash crc c n blks ss"
  have ent: "index_entries ?r = table_index crc c blks ss" by (simp add: table_reader_def)
  show ?thesis
  proof (cases "find_block_index_for_key ?r (sep_bytes uk)")
    case None
    then show ?thesis
      using find_block_range(2) [of hash crc c n blks ss]
      by (simp add: sst_get_pinned_at_seq_def probe_key_bytes visible_def)
  next
    case (Some i)
    then have i: "i < length blks" by (rule find_block_range)
    have "visible uk s (concat (drop i blks)) = visible uk s (concat blks)"
    proof (cases "\<exists>e\<in>set (concat blks). ukey e = uk")
      case True
      then obtain e where e: "e \<in> set (concat blks)" "ukey e = uk" by blast
      then obtain f where f: "f < length blks" "uk \<in> ukey ` set (blks ! f)" "\<forall>i<f. uk \<notin> ukey ` set (blks ! i)"
        by (rule first_block_with)
      have "0 \<notin> set uk" using e zf by (auto simp: zero_free_def list_all_iff)
      then have "i = f" using find_block_first [OF seps f] Some by simp
      then show ?thesis using visible_from_first [OF f(3)] f(1) by simp
    next
      case False
      then show ?thesis by (intro visible_drop_absent) blast
    qed
    then show ?thesis
      using at_seq_table [OF ok seps kinds few, of i False] i
      by (simp add: sst_get_pinned_at_seq_def probe_key_bytes Some ent)
  qed
qed

section \<open>The separators of a written table\<close>

lemma separates_next:
  assumes ok: "table_blocks_ok A" and zf: "zero_free (concat A)" and i: "Suc i < length A"
  shows "separates (compute_separator (ukey (last (A ! i))) (ukey (hd (A ! Suc i)))) A i"
proof -
  let ?l = "last (A ! i)" and ?h = "hd (A ! Suc i)"
  let ?s = "compute_separator (ukey ?l) (ukey ?h)"
  have i': "i < length A" using i by simp
  have l: "?l \<in> set (A ! i)" and h: "?h \<in> set (A ! Suc i)"
    using blocks_ok_nth(3) [OF ok i'] blocks_ok_nth(3) [OF ok i] by simp_all
  have "0 \<notin> set (ukey ?l)"
    using zf l i' by (auto simp: zero_free_def list_all_iff block_in_concat [OF i'])
  then have z: "0 \<notin> set ?s" using compute_separator_bounds [of "ukey ?l" "ukey ?h"] by blast
  have lh: "ukey ?l \<le> ukey ?h" using blocks_ordered [OF ok _ i l h] by (auto simp: epos_less)
  have below: "ukey e \<le> ?s" if e: "e \<in> set (A ! i)" for e
  proof -
    obtain k where k: "k < length (A ! i)" "e = A ! i ! k" using e by (auto simp: in_set_conv_nth)
    have "entries_sorted (A ! i)" using blocks_ok_nth(2) [OF ok i'] by (simp add: blk_ok_def)
    from ukey_mono [OF this, of k "length (A ! i) - 1"] k have "ukey e \<le> ukey ?l"
      using blocks_ok_nth(3) [OF ok i'] by (simp add: last_conv_nth)
    then show ?thesis using compute_separator_bounds [of "ukey ?l" "ukey ?h"] by force
  qed
  have above: "?s \<le> ukey e \<and> (?s = ukey e \<longrightarrow> (\<exists>e'\<in>set (A ! i). ukey e' = ukey e))"
    if j: "i < j" "j < length A" "e \<in> set (A ! j)" for j e
  proof -
    have he: "ukey ?h \<le> ukey e"
    proof (cases "j = Suc i")
      case True
      obtain k where k: "k < length (A ! j)" "e = A ! j ! k" using j(3) by (auto simp: in_set_conv_nth)
      have "entries_sorted (A ! j)" using blocks_ok_nth(2) [OF ok j(2)] by (simp add: blk_ok_def)
      from ukey_mono [OF this, of 0 k] k True show ?thesis
        using blocks_ok_nth(3) [OF ok i] by (simp add: hd_conv_nth)
    next
      case False
      then show ?thesis using blocks_ordered [OF ok _ j(2) h j(3)] j(1) by (auto simp: epos_less)
    qed
    show ?thesis
    proof (cases "ukey ?l = ukey ?h")
      case True
      then have "?s = ukey ?l" using compute_separator_bounds [of "ukey ?l" "ukey ?l"] by simp
      then show ?thesis using he True l by auto
    next
      case False
      then have "?s < ukey ?h" using compute_separator_bounds [of "ukey ?l" "ukey ?h"] lh by auto
      then show ?thesis using he by auto
    qed
  qed
  show ?thesis unfolding separates_def using z below above by blast
qed

lemma separates_take: "separates s A i \<Longrightarrow> i < m \<Longrightarrow> m \<le> length A \<Longrightarrow> separates s (take m A) i"
  by (auto simp: separates_def)

lemma sep_le_serialize:
  assumes "s \<le> user_key k" "0 \<notin> set (user_key k)" "s = user_key k \<Longrightarrow> sequence_number k < SEQUENCE_NUMBER_MAX"
  shows "sep_bytes s \<le> serialize k"
proof (cases "s = user_key k")
  case True
  have "encoded_sequence_number k < push_bit 8 SEQUENCE_NUMBER_MAX"
  proof (rule ccontr)
    assume "\<not> encoded_sequence_number k < push_bit 8 SEQUENCE_NUMBER_MAX"
    then have "unat (push_bit 8 SEQUENCE_NUMBER_MAX :: u64) \<le> unat (encoded_sequence_number k)"
      by (simp add: word_le_nat_alt linorder_not_less)
    then have "unat (push_bit 8 SEQUENCE_NUMBER_MAX :: u64) div 256 \<le> unat (encoded_sequence_number k) div 256"
      by (rule div_le_mono)
    then show False
      using assms(3) [OF True] unat_drop_bit [of 8 "encoded_sequence_number k"]
      by (simp add: sequence_number_def word_less_nat_alt SEQUENCE_NUMBER_MAX_val push_bit_eq_mult)
  qed
  then show ?thesis
    using True by (simp add: sep_bytes_def serialize_def u64_be_less_iff less_imp_le)
next
  case False
  then show ?thesis using sep_less_serialize [of s k] assms(1,2) by (intro less_imp_le) simp
qed

section \<open>A table written from entries\<close>

text \<open>
  Entries as a memtable or a compaction hands them to the builder, with user keys free of
  zero bytes and a total size that the 32-bit lengths of the format can hold.
\<close>

definition table_entries :: "entry list \<Rightarrow> bool" where
  "table_entries es \<longleftrightarrow> entries_sorted es \<and> zero_free es \<and> sst_kinds es \<and> weight es < 2 ^ 32 - 4"

definition last_block :: "entry list \<Rightarrow> entry list" where
  "last_block es = snd (split_blocks [] [] es)"

lemma seps_nth: "i < length blks \<Longrightarrow> seps blks cur ! i =
    sep_bytes (compute_separator (ukey (last ((blks @ [cur]) ! i))) (ukey (hd ((blks @ [cur]) ! Suc i))))"
  by (simp add: seps_def blk_sep_def nth_append)

lemma concat_nth_mem: "i < length A \<Longrightarrow> e \<in> set (A ! i) \<Longrightarrow> e \<in> set (concat A)"
  by auto

lemma kept_seps_sorted:
  assumes ok: "table_blocks_ok (blks @ [cur])" and zf: "zero_free (concat (blks @ [cur]))"
  shows "sorted (kept_seps blks cur)"
proof -
  let ?A = "blks @ [cur]"
  let ?s = "\<lambda>i. compute_separator (ukey (last (?A ! i))) (ukey (hd (?A ! Suc i)))"
  have sep: "separates (?s i) ?A i" if "i < length blks" for i
    using separates_next [OF ok zf, of i] that by simp
  have mem: "last (?A ! i) \<in> set (?A ! i)" if "i < length ?A" for i
    using blocks_ok_nth(3) [OF ok that] by simp
  have s1: "seps blks cur ! i \<le> seps blks cur ! j" if "i < j" "j < length blks" for i j
  proof -
    have m: "last (?A ! j) \<in> set (?A ! j)" using mem that by simp
    have "?s i \<le> ukey (last (?A ! j))" using separatesD(3) [OF sep _ _ m, of i] that by simp
    also have "\<dots> \<le> ?s j" using separatesD(2) [OF sep m] that by simp
    finally show ?thesis
      using separatesD(1) [OF sep, of j] that by (simp add: seps_nth sep_bytes_mono)
  qed
  have s2: "seps blks cur ! i \<le> serialize (fst (last cur))" if i: "i < length blks" for i
  proof -
    have m: "last cur \<in> set (?A ! length blks)" using mem [of "length blks"] by simp
    have "0 \<notin> set (ukey (last cur))"
      using zf m by (auto simp: zero_free_def list_all_iff)
    moreover have "?s i \<le> ukey (last cur)"
        "?s i = ukey (last cur) \<longrightarrow> (\<exists>e'\<in>set (?A ! i). ukey e' = ukey (last cur))"
      using separatesD(3,4) [OF sep [OF i] _ _ m] i by simp_all
    moreover have "eseq (last cur) < SEQUENCE_NUMBER_MAX" if "e' \<in> set (?A ! i)" "ukey e' = ukey (last cur)" for e'
      using blocks_ordered [OF ok i _ that(1) m] that(2) sequence_number_le_max [of "fst e'"]
      by (simp add: epos_less order_less_le_trans)
    ultimately show ?thesis using i by (auto simp: seps_nth intro!: sep_le_serialize)
  qed
  show ?thesis
    using s1 s2 by (auto simp: kept_seps_def sorted_iff_nth_mono_less nth_append less_Suc_eq)
qed

lemma kept_take: "kept_blocks blks cur = take (length (kept_blocks blks cur)) (blks @ [cur])"
  by (simp add: kept_blocks_def)

lemma table_blocks_take: "table_blocks_ok A \<Longrightarrow> table_blocks_ok (take m A)"
proof -
  assume ok: "table_blocks_ok A"
  have "concat A = concat (take m A) @ concat (drop m A)" by (simp flip: concat_append)
  then show ?thesis
    using ok by (auto simp: table_blocks_ok_def entries_sorted_append dest: in_set_takeD)
qed

lemma kept_seps_ok:
  assumes ok: "table_blocks_ok (blks @ [cur])" and zf: "zero_free (concat (blks @ [cur]))"
  shows "seps_ok (kept_blocks blks cur) (kept_seps blks cur)"
proof -
  let ?m = "length (kept_blocks blks cur)"
  have "\<exists>s. kept_seps blks cur ! i = sep_bytes s \<and> separates s (kept_blocks blks cur) i" if i: "Suc i < ?m" for i
  proof -
    have i': "i < length blks" using i by (simp add: kept_blocks_def split: if_splits)
    have "separates (compute_separator (ukey (last ((blks @ [cur]) ! i))) (ukey (hd ((blks @ [cur]) ! Suc i))))
        (take ?m (blks @ [cur])) i"
      using separates_next [OF ok zf, of i] i i' by (intro separates_take) (simp_all add: kept_blocks_def)
    moreover have "kept_seps blks cur ! i = seps blks cur ! i"
      using i' by (simp add: kept_seps_def nth_append)
    ultimately show ?thesis using i' kept_take [of blks cur] by (metis seps_nth)
  qed
  then show ?thesis
    using kept_seps_sorted [OF ok zf] by (auto simp: seps_ok_def kept_seps_def kept_blocks_def)
qed

section \<open>Sizes of a written table\<close>

lemma kept_sep_length:
  assumes "i < length (kept_blocks blks cur)"
  shows "length (kept_seps blks cur ! i) \<le> 8 + length (ukey (last (kept_blocks blks cur ! i)))"
proof (cases "i < length blks")
  case True
  then show ?thesis
    using compute_separator_bounds [of "ukey (last (blks ! i))" "ukey (hd ((blks @ [cur]) ! Suc i))"]
    by (simp add: kept_seps_def kept_blocks_def nth_append seps_nth sep_bytes_def serialized_size_def)
next
  case False
  then show ?thesis
    using assms by (auto simp: kept_seps_def kept_blocks_def nth_append serialized_size_def split: if_splits)
qed

lemma index_value_length: "length (index_value a b) \<le> 20"
  using encode_varint64_length_bounds(2) [of "of_nat a"] encode_varint64_length_bounds(2) [of "of_nat b"]
  by (simp add: index_value_codec)

lemma weight_last: "b \<noteq> [] \<Longrightarrow> 64 + length (ukey (last b)) \<le> weight b"
  using entry_weight_le [of "last b" b] by (simp add: entry_weight_def)

lemma index_kvs_nth: "i < length blks \<Longrightarrow> index_kvs crc c blks ss ! i = (ss ! i,
    index_value (length (data_file crc c (take i blks))) (length (blk_out crc c (block_bytes (raw (blks ! i))))))"
  by (simp add: index_kvs_def)

lemma sum_weight_nth: "sum_list (map (\<lambda>i. weight (blks ! i)) [0..<length blks]) = weight (concat blks)"
  by (simp add: weight_concat map_nth [of blks] flip: map_map [unfolded o_def])

lemma index_block_size:
  assumes ok: "table_blocks_ok blks" and w: "weight (concat blks) < 2 ^ 32 - 4"
    and ss: "\<And>i. i < length blks \<Longrightarrow> length (ss ! i) \<le> 8 + length (ukey (last (blks ! i)))"
  shows "list_all kv_small (index_kvs crc c blks ss)"
    "blk_off (index_kvs crc c blks ss) (length blks) + 6 * length blks \<le> weight (concat blks)"
    "length (block_bytes (index_kvs crc c blks ss)) \<le> weight (concat blks) + 4"
proof -
  let ?kvs = "index_kvs crc c blks ss"
  have each: "36 + length (fst (?kvs ! i)) + length (snd (?kvs ! i)) \<le> weight (blks ! i)" if "i < length blks" for i
    using ss [OF that] weight_last [OF blocks_ok_nth(3) [OF ok that]]
      index_value_length [of "length (data_file crc c (take i blks))" "length (blk_out crc c (block_bytes (raw (blks ! i))))"]
    by (simp add: index_kvs_nth [OF that])
  have le: "weight (blks ! i) \<le> weight (concat blks)" if "i < length blks" for i
    by (simp add: block_in_concat [OF that])
  show small: "list_all kv_small ?kvs"
    using each le w by (fastforce simp: list_all_length kv_small_def)
  have "sum_list (map (\<lambda>i. 36 + length (fst (?kvs ! i)) + length (snd (?kvs ! i))) [0..<length blks]) \<le>
      sum_list (map (\<lambda>i. weight (blks ! i)) [0..<length blks])"
    by (rule sum_list_mono) (use each in simp)
  moreover have "sum_list (map (\<lambda>i. 36 + length (fst (?kvs ! i)) + length (snd (?kvs ! i))) [0..<length blks]) =
      sum_list (map (\<lambda>i. 30 + length (fst (?kvs ! i)) + length (snd (?kvs ! i))) [0..<length blks]) + 6 * length blks"
    by (induction "length blks") (simp_all add: sum_list_addf sum_list_triv)
  ultimately show off: "blk_off ?kvs (length blks) + 6 * length blks \<le> weight (concat blks)"
    using blk_off_sum [of ?kvs "length blks"] by (simp only: sum_weight_nth)
  show "length (block_bytes ?kvs) \<le> weight (concat blks) + 4"
    using block_bytes_layout [OF small] off by (simp add: blk_restarts_def blk_off_def)
qed

lemma data_file_size:
  assumes "table_blocks_ok blks"
  shows "length (data_file crc c blks) \<le> weight (concat blks) + 13 * length blks"
  using assms
proof (induction blks rule: rev_induct)
  case (snoc b blks)
  have ok: "table_blocks_ok blks" using table_blocks_take [OF snoc.prems, of "length blks"] by simp
  have w: "weight b < 2 ^ 32 - 4" using snoc.prems by (simp add: table_blocks_ok_def)
  then have "length (block_bytes (raw b)) \<le> weight b + 4" using block_bytes_weight [of b] by simp
  then have "length (blk_out crc c (block_bytes (raw b))) \<le> weight b + 13"
    using length_blk_out [of "block_bytes (raw b)" crc c] w by simp
  then show ?case using snoc.IH [OF ok] by simp
qed simp

lemma blocks_le_weight: "table_blocks_ok blks \<Longrightarrow> 64 * length blks \<le> weight (concat blks)"
proof (induction blks rule: rev_induct)
  case (snoc b blks)
  have "table_blocks_ok blks" using table_blocks_take [OF snoc.prems, of "length blks"] by simp
  moreover have "64 \<le> weight b" using weight_last [of b] snoc.prems by (fastforce simp: table_blocks_ok_def)
  ultimately show ?case using snoc.IH by simp
qed simp

lemma table_fits:
  assumes ok: "table_blocks_ok blks" and w: "weight (concat blks) < 2 ^ 32 - 4" and s: "seps_ok blks ss"
    and ss: "\<And>i. i < length blks \<Longrightarrow> length (ss ! i) \<le> 8 + length (ukey (last (blks ! i)))"
  shows "index_fits crc c blks ss" "length (table_file hash crc c n blks ss) < 2 ^ 64"
proof -
  note ix = index_block_size [OF ok w ss, of crc c]
  have count: "64 * length blks \<le> weight (concat blks)" by (rule blocks_le_weight [OF ok])
  show "index_fits crc c blks ss"
    using ix s w count by (simp add: index_fits_def seps_ok_def)
  define p where "p = length (encode_varint64 (of_nat (length (data_file crc c blks))))"
  define q where "q = length (encode_varint64 (of_nat (length (data_file crc c blks) + length (bloom_section hash n blks))))"
  have fit: "p + q \<le> 20" unfolding p_def q_def by (rule footer_offsets_fit)
  have "length (table_file hash crc c n blks ss) = length (data_file crc c blks) + length (bloom_section hash n blks) +
      length (blk_out crc c (block_bytes (index_kvs crc c blks ss))) + p + q + length (footer_padding c (40 - (p + q))) + 8"
    by (simp add: table_file_def Let_def p_def q_def)
  moreover have "length (footer_padding c (40 - (p + q))) = 40 - (p + q)"
    using fit by (intro length_footer_padding) simp
  moreover have "length (blk_out crc c (block_bytes (index_kvs crc c blks ss))) \<le> weight (concat blks) + 13"
    using length_blk_out [of "block_bytes (index_kvs crc c blks ss)" crc c] ix(3) w by simp
  ultimately have "length (table_file hash crc c n blks ss) \<le>
      (weight (concat blks) + 13 * length blks) + (11 + 1040 * length blks) + (weight (concat blks) + 13) + 48"
    using data_file_size [OF ok, of crc c] length_bloom_section [of hash n blks] fit by linarith
  then show "length (table_file hash crc c n blks ss) < 2 ^ 64" using w count by simp
qed

section \<open>From entries to answers\<close>

text \<open>The entries that reach the file.\<close>

definition kept_entries :: "entry list \<Rightarrow> entry list" where
  "kept_entries es = (if length (last_block es) mod 16 = 0 then take (length es - length (last_block es)) es else es)"

lemma sst_inv_new:
  "\<exists>b. new_SSTableBuilder no_io n c = Ok b \<and> sst_inv hash crc c (min n 65535) [] (seps [] []) [] b"
  by (simp add: new_SSTableBuilder_def sst_inv_def seps_def blk_bloom_def)

lemma split_es:
  assumes "split_blocks [] [] es = (blks, cur)"
  shows "concat blks @ cur = es" "concat (kept_blocks blks cur) = kept_entries es" "last_block es = cur"
proof -
  show es: "concat blks @ cur = es" using split_blocks_concat [OF assms] by simp
  show lb: "last_block es = cur" using assms by (simp add: last_block_def)
  have "length es - length cur = length (concat blks)" using es by auto
  then show "concat (kept_blocks blks cur) = kept_entries es"
    unfolding kept_entries_def lb kept_blocks_def using es by (auto simp del: length_concat)
qed

lemma kept_table_ok:
  assumes es: "table_entries es" and sp: "split_blocks [] [] es = (blks, cur)" and cur: "cur \<noteq> [] \<or> blks = []"
  shows "table_blocks_ok (kept_blocks blks cur)" "seps_ok (kept_blocks blks cur) (kept_seps blks cur)"
proof -
  note se = split_es [OF sp]
  have "table_blocks_ok (kept_blocks blks cur) \<and> seps_ok (kept_blocks blks cur) (kept_seps blks cur)"
  proof (cases "cur = []")
    case True
    then show ?thesis
      using cur by (simp add: kept_blocks_def kept_seps_def table_blocks_ok_def seps_ok_def seps_def entries_sorted_def)
  next
    case False
    have "[] \<notin> set blks" using split_blocks_nonempty [OF sp] by simp
    moreover have "weight x < 2 ^ 32 - 4" if "x \<in> set (blks @ [cur])" for x
    proof -
      have "weight x \<le> weight (concat (blks @ [cur]))"
        using member_le_sum_list [of "weight x" "map weight (blks @ [cur])"] that by (auto simp: weight_concat)
      then show ?thesis using es se(1) by (simp add: table_entries_def)
    qed
    ultimately have A: "table_blocks_ok (blks @ [cur])"
      using es se(1) False by (auto simp: table_blocks_ok_def table_entries_def)
    have "zero_free (concat (blks @ [cur]))" using es se(1) by (simp add: table_entries_def)
    from kept_seps_ok [OF A this] table_blocks_take [OF A] kept_take [of blks cur] show ?thesis by metis
  qed
  then show "table_blocks_ok (kept_blocks blks cur)" "seps_ok (kept_blocks blks cur) (kept_seps blks cur)" by blast+
qed

lemma sst_table:
  assumes es: "table_entries es"
  shows "\<exists>tp f r. sst_build hash crc no_io n c es = Ok (tp, f) \<and> sst_open crc no_io f = Ok r \<and>
    scan_all crc no_io r = Ok (kept_entries es) \<and>
    (\<forall>uk. sst_get_pinned hash crc no_io r uk = Ok (visible uk SEQUENCE_NUMBER_MAX (kept_entries es))) \<and>
    (\<forall>uk s. length (filter (\<lambda>e. ukey e = uk) es) \<le> 16 \<longrightarrow>
       sst_get_pinned_at_seq hash crc no_io r uk s = Ok (visible uk s (kept_entries es)))"
proof -
  obtain blks cur where sp: "split_blocks [] [] es = (blks, cur)" by fastforce
  note se = split_es [OF sp]
  let ?B = "kept_blocks blks cur" and ?S = "kept_seps blks cur" and ?n = "min n 65535"
  obtain b0 where b0: "new_SSTableBuilder no_io n c = Ok b0" "sst_inv hash crc c ?n [] (seps [] []) [] b0"
    using sst_inv_new by blast
  obtain b where b: "sst_write_all hash crc no_io es b0 = Ok b"
      "sst_inv hash crc c ?n blks (seps blks cur) cur b" "cur \<noteq> [] \<or> blks = []"
    using sst_write_all_inv [OF b0(2) _ _ sp] es by (auto simp: table_entries_def)
  note kept = kept_table_ok [OF es sp b(3)]
  have w: "weight (concat ?B) < 2 ^ 32 - 4" "weight cur < 2 ^ 32 - 4" and kz: "sst_kinds (concat ?B)" "zero_free (concat ?B)"
    and few: "length (filter P (concat ?B)) \<le> length (filter P es)" for P
    using es se(1) by (auto simp: table_entries_def kept_blocks_def sst_kinds_def zero_free_def)
  note fits = table_fits [OF kept(1) w(1) kept(2) kept_sep_length]
  have "length (block_bytes (index_kvs crc c ?B ?S)) < 2 ^ 32" using fits(1) by (simp add: index_fits_def)
  then obtain tp where fin: "sst_finish crc no_io b = Ok (tp, table_file hash crc c ?n ?B ?S)"
    using sst_finish_layout [OF b(2) w(2)] by blast
  have op: "sst_open crc no_io (table_file hash crc c ?n ?B ?S) = Ok (table_reader hash crc c ?n ?B ?S)"
    using open_table [OF fits(1) _ fits(2)] by simp
  have "sst_build hash crc no_io n c es = Ok (tp, table_file hash crc c ?n ?B ?S)"
    using b0(1) b(1) fin by (simp add: sst_build_def)
  then show ?thesis
    unfolding se(2) [symmetric]
    by (intro exI conjI allI impI, assumption)
      (rule op, rule scan_table [OF kept(1) kz(1)], rule get_table [OF kept kz],
        rule get_at_seq_table [OF kept kz order_trans [OF few]])
qed

lemma small_no_finish: "weight cur < 4096 \<Longrightarrow> \<not> bb_should_finish (bb_of (raw cur))"
  using bb_of_layout [OF kv_small_weight [of cur]] blk_off_weight [of cur]
  by (simp add: bb_should_finish_def bb_len_def MAX_BLOCK_SIZE_def blk_off_def)

lemma last_block_small: "weight es < 4096 \<Longrightarrow> last_block es = es"
proof -
  have "weight (cur @ es) < 4096 \<Longrightarrow> split_blocks [] cur es = ([], cur @ es)" for cur
    by (induction es arbitrary: cur) (simp_all add: small_no_finish)
  then show "weight es < 4096 \<Longrightarrow> last_block es = es" by (simp add: last_block_def)
qed

text \<open>
  (C5) A table written by \<open>SSTableBuilder\<close> opens, and the reader returns its entries: a scan
  yields exactly them in order, a point lookup the newest version of a user key (or nothing),
  and a lookup at a sequence number the newest version visible there, for keys with at most
  sixteen versions.  This holds for every checksum and hash function, prefix length and codec.
  The entries must be sorted, with valid kind bytes and less than \<open>2 ^ 32 - 4\<close> bytes in all; no
  user key may contain a zero byte, because the search of the index block compares serialized
  separators; and the last data block must not hold a multiple of sixteen entries, because the
  builder drops such a block.
\<close>

theorem sstable_roundtrip:
  assumes "entries_sorted es" "sst_kinds es" "weight es < 2 ^ 32 - 4"
    and "zero_free es" "length (last_block es) mod 16 \<noteq> 0"
  shows "\<exists>tp f r. sst_build hash crc (\<lambda>_. False) n c es = Ok (tp, f) \<and> sst_open crc (\<lambda>_. False) f = Ok r \<and>
    scan_all crc (\<lambda>_. False) r = Ok es \<and>
    (\<forall>uk. sst_get_pinned hash crc (\<lambda>_. False) r uk = Ok (visible uk SEQUENCE_NUMBER_MAX es)) \<and>
    (\<forall>uk s. length (filter (\<lambda>e. ukey e = uk) es) \<le> 16 \<longrightarrow>
       sst_get_pinned_at_seq hash crc (\<lambda>_. False) r uk s = Ok (visible uk s es))"
proof -
  have "table_entries es" using assms(1-4) by (simp add: table_entries_def)
  from sst_table [OF this, of hash crc n c] assms(5) show ?thesis by (simp add: kept_entries_def)
qed

lemma two_entries_table: "table_entries two_entries"
  using two_entries_ok
  by (simp add: table_entries_def blk_ok_def two_entries_def zero_free_def sst_kinds_def kind_def kind_try_from_def
      entry_weight_def)

theorem sstable_roundtrip_witness:
  "entries_sorted two_entries \<and> sst_kinds two_entries \<and> weight two_entries < 2 ^ 32 - 4 \<and> zero_free two_entries \<and>
   length (last_block two_entries) mod 16 \<noteq> 0 \<and>
   (\<exists>tp f r. sst_build (\<lambda>k. of_nat (length k)) (\<lambda>_. 0) (\<lambda>_. False) 0 Rle two_entries = Ok (tp, f) \<and>
      sst_open (\<lambda>_. 0) (\<lambda>_. False) f = Ok r \<and> scan_all (\<lambda>_. 0) (\<lambda>_. False) r = Ok two_entries)"
proof -
  note t = two_entries_table [unfolded table_entries_def]
  have "last_block two_entries = two_entries"
    by (rule last_block_small) (simp add: two_entries_def entry_weight_def)
  then have "length (last_block two_entries) mod 16 \<noteq> 0" by (simp add: two_entries_def)
  then show ?thesis
    using sstable_roundtrip [of two_entries "\<lambda>k. of_nat (length k)" "\<lambda>_. 0" 0 Rle] t by blast
qed

text \<open>
  (C14) A table whose last data block holds a multiple of sixteen entries is written without
  that block: \<open>BlockBuilder::empty\<close> looks at the entry counter, which is reset at every
  restart point, so \<open>finish\<close> takes the full block for an empty one.  The file opens without an
  error, the entries are not in it, and a key that is only in that block is reported absent.
\<close>

theorem sstable_loses_last_block:
  assumes "table_entries es" and "length (last_block es) mod 16 = 0"
  shows "\<exists>tp f r. sst_build hash crc (\<lambda>_. False) n c es = Ok (tp, f) \<and> sst_open crc (\<lambda>_. False) f = Ok r \<and>
    scan_all crc (\<lambda>_. False) r = Ok (take (length es - length (last_block es)) es) \<and>
    (\<forall>uk. uk \<notin> ukey ` set (take (length es - length (last_block es)) es) \<longrightarrow>
       sst_get_pinned hash crc (\<lambda>_. False) r uk = Ok None)"
proof -
  let ?k = "take (length es - length (last_block es)) es"
  have k: "kept_entries es = ?k" using assms(2) by (simp add: kept_entries_def)
  have "visible uk SEQUENCE_NUMBER_MAX ?k = None" if "uk \<notin> ukey ` set ?k" for uk
    using that by (intro visible_absent) blast
  then show ?thesis
    using sst_table [OF assms(1), of hash crc n c] unfolding k by metis
qed

definition sixteen_entries :: "entry list" where
  "sixteen_entries = map (\<lambda>i. (\<lparr> user_key = [of_nat (97 + i)], encoded_sequence_number = 0x100 \<rparr>, [7])) [0..<16]"

lemma sixteen_entries_table: "table_entries sixteen_entries"
proof -
  have le: "unat (of_nat (97 + i) :: u8) = 97 + i" if "i < 16" for i
    using that by (intro unat_of_nat_small) simp
  have "entries_sorted sixteen_entries"
    unfolding entries_sorted_def sorted_wrt_iff_nth_less
    using le by (auto simp: sixteen_entries_def ik_pos_def word_less_nat_alt)
  moreover have "zero_free sixteen_entries"
    using le by (force simp: zero_free_def sixteen_entries_def list_all_iff word_unat_eq_iff)
  moreover have "sst_kinds sixteen_entries"
    by (simp add: sst_kinds_def sixteen_entries_def list_all_iff kind_def kind_try_from_def)
  moreover have "weight sixteen_entries = 16 * 66"
    by (simp add: weight_def sixteen_entries_def o_def entry_weight_def sum_list_triv)
  ultimately show ?thesis by (simp add: table_entries_def)
qed

theorem sstable_loses_last_block_witness:
  "table_entries sixteen_entries \<and> length (last_block sixteen_entries) mod 16 = 0 \<and>
   (\<exists>tp f r. sst_build (\<lambda>_. 0) (\<lambda>_. 0) (\<lambda>_. False) 0 NoCompression sixteen_entries = Ok (tp, f) \<and>
      sst_open (\<lambda>_. 0) (\<lambda>_. False) f = Ok r \<and> scan_all (\<lambda>_. 0) (\<lambda>_. False) r = Ok [])"
proof -
  have lb: "last_block sixteen_entries = sixteen_entries"
    by (rule last_block_small) (simp add: weight_def sixteen_entries_def o_def entry_weight_def sum_list_triv)
  have len: "length sixteen_entries mod 16 = 0" by (simp add: sixteen_entries_def)
  show ?thesis
    using sstable_loses_last_block [OF sixteen_entries_table, of "\<lambda>_. 0" "\<lambda>_. 0" 0 NoCompression]
      sixteen_entries_table len unfolding lb by auto
qed

end
