(* ===== verification/Version_Reads.thy ===== *)
theory Version_Reads
  imports Sstable_Table Version_Edit
begin

text \<open>
  \<open>metadata/file_metadata.rs\<close> and \<open>metadata/version.rs\<close>: an immutable snapshot of the table
  files of every level and its reads.  The table files are a store \<open>st\<close> from file number to
  contents.  The lookups take the read of one file as an argument, so that the search through the
  levels is separate from the table it ends in; \<open>table_reads\<close> is the contract of that read.
\<close>

record FileMetadata =
  fm_file_id :: u64
  fm_props :: TableProperties

definition from_new_file :: "NewFile \<Rightarrow> FileMetadata" where
  "from_new_file nf = \<lparr> fm_file_id = nf_file_id nf, fm_props = nf_props nf \<rparr>"

abbreviation fm_smallest :: "FileMetadata \<Rightarrow> bytes" where "fm_smallest f \<equiv> tp_smallest_key (fm_props f)"
abbreviation fm_largest :: "FileMetadata \<Rightarrow> bytes" where "fm_largest f \<equiv> tp_largest_key (fm_props f)"
abbreviation fm_size :: "FileMetadata \<Rightarrow> u64" where "fm_size f \<equiv> tp_file_size (fm_props f)"

definition user_part :: "bytes \<Rightarrow> bytes" where "user_part k = take (length k - 8) k"

definition smallest_user_key :: "FileMetadata \<Rightarrow> bytes result" where
  "smallest_user_key f = (if length (fm_smallest f) < 8 then Err (Panic ''smallest_user_key'') else Ok (user_part (fm_smallest f)))"

definition largest_user_key :: "FileMetadata \<Rightarrow> bytes result" where
  "largest_user_key f = (if length (fm_largest f) < 8 then Err (Panic ''largest_user_key'') else Ok (user_part (fm_largest f)))"

record Version =
  v_files :: "FileMetadata list list"
  level_size_bytes :: "u64 list"
  creation_seqno :: u64

definition new_Version :: "nat \<Rightarrow> Version" where
  "new_Version num_levels = \<lparr> v_files = replicate num_levels [], level_size_bytes = replicate num_levels 0,
     creation_seqno = 0 \<rparr>"

definition from_files :: "FileMetadata list list \<Rightarrow> u64 \<Rightarrow> Version" where
  "from_files fs seqno = \<lparr> v_files = fs, level_size_bytes = map (\<lambda>l. sum_list (map fm_size l)) fs,
     creation_seqno = seqno \<rparr>"

definition get_files :: "Version \<Rightarrow> nat \<Rightarrow> FileMetadata list" where
  "get_files v level = (if length (v_files v) \<le> level then [] else v_files v ! level)"

definition num_levels :: "Version \<Rightarrow> nat" where "num_levels v = length (v_files v)"

definition get_level_size :: "Version \<Rightarrow> nat \<Rightarrow> u64" where
  "get_level_size v level = (if length (level_size_bytes v) \<le> level then 0 else level_size_bytes v ! level)"

definition all_files :: "Version \<Rightarrow> (nat \<times> FileMetadata) list" where
  "all_files v = concat (map (\<lambda>(level, fs). map (\<lambda>f. (level, f)) fs) (enumerate 0 (v_files v)))"

definition all_file_ids :: "Version \<Rightarrow> u64 list" where
  "all_file_ids v = remdups (concat (map (map fm_file_id) (v_files v)))"

definition needs_compaction :: "Version \<Rightarrow> u64 list \<Rightarrow> bool result" where
  "needs_compaction v targets =
     (case v_files v of
        [] \<Rightarrow> Err (Panic ''index out of bounds'')
      | l0 # _ \<Rightarrow>
          Ok (4 < length l0 \<or>
              list_ex (\<lambda>(level, target). level < length (level_size_bytes v) \<and> target < level_size_bytes v ! level)
                (drop 1 (enumerate 0 targets))))"

section \<open>Reading one table\<close>

type_synonym table_store = "u64 \<Rightarrow> bytes option"

fun map_sstable_open_err :: "Error \<Rightarrow> Error" where
  "map_sstable_open_err (NotFound _ _) = NotFound ''sstable'' ''missing during open''"
| "map_sstable_open_err (Corruption _ _) = Corruption ''sstable_open'' ''''"
| "map_sstable_open_err (Panic p) = Panic p"
| "map_sstable_open_err _ = Internal ''sstable_open'' ''failed to open sstable''"

fun map_sstable_read_err :: "Error \<Rightarrow> Error" where
  "map_sstable_read_err (NotFound _ _) = NotFound ''sstable'' ''missing during read''"
| "map_sstable_read_err (Corruption _ _) = Corruption ''sstable_read'' ''''"
| "map_sstable_read_err (Panic p) = Panic p"
| "map_sstable_read_err _ = Internal ''sstable_read'' ''failed to read sstable''"

definition open_sstable_reader ::
    "(bytes \<Rightarrow> u32) \<Rightarrow> (string \<Rightarrow> bool) \<Rightarrow> table_store \<Rightarrow> FileMetadata \<Rightarrow> SSTableReader result" where
  "open_sstable_reader crc io st f =
     (case st (fm_file_id f) of
        None \<Rightarrow> Err (NotFound ''sstable'' ''missing during open'')
      | Some bs \<Rightarrow> map_err map_sstable_open_err (sst_open crc io bs))"

definition file_get ::
    "(bytes \<Rightarrow> u64) \<Rightarrow> (bytes \<Rightarrow> u32) \<Rightarrow> (string \<Rightarrow> bool) \<Rightarrow> table_store \<Rightarrow> FileMetadata \<Rightarrow> bytes \<Rightarrow> entry option result" where
  "file_get hash crc io st f key =
     and_then (open_sstable_reader crc io st f) (\<lambda>r. map_err map_sstable_read_err (sst_get_pinned hash crc io r key))"

definition file_get_at_seq ::
    "(bytes \<Rightarrow> u64) \<Rightarrow> (bytes \<Rightarrow> u32) \<Rightarrow> (string \<Rightarrow> bool) \<Rightarrow> table_store \<Rightarrow> FileMetadata \<Rightarrow> bytes \<Rightarrow> u64
       \<Rightarrow> entry option result" where
  "file_get_at_seq hash crc io st f key read_seq =
     and_then (open_sstable_reader crc io st f) (\<lambda>r.
       map_err map_sstable_read_err
         (if tp_largest_seqno (fm_props f) \<le> read_seq then sst_get_pinned hash crc io r key
          else sst_get_pinned_at_seq hash crc io r key read_seq))"

definition file_scan ::
    "(bytes \<Rightarrow> u32) \<Rightarrow> (string \<Rightarrow> bool) \<Rightarrow> table_store \<Rightarrow> FileMetadata \<Rightarrow> entry list result" where
  "file_scan crc io st f =
     and_then (open_sstable_reader crc io st f) (\<lambda>r. map_err map_sstable_read_err (scan_all crc io r))"

section \<open>Searching the levels\<close>

definition in_user_range :: "FileMetadata \<Rightarrow> bytes \<Rightarrow> bool result" where
  "in_user_range f key =
     and_then (smallest_user_key f) (\<lambda>s. if key < s then Ok False
       else and_then (largest_user_key f) (\<lambda>l. Ok (key \<le> l)))"

function search_files :: "FileMetadata list \<Rightarrow> bytes \<Rightarrow> nat \<Rightarrow> nat \<Rightarrow> FileMetadata option result" where
  "search_files fs key left right =
     (if left < right then
        let mid = left + (right - left) div 2; f = fs ! mid in
        case smallest_user_key f of
          Inl e \<Rightarrow> Err e
        | Inr s \<Rightarrow>
            if key < s then search_files fs key left mid
            else (case largest_user_key f of
                Inl e \<Rightarrow> Err e
              | Inr l \<Rightarrow> if l < key then search_files fs key (mid + 1) right else Ok (Some f))
      else Ok None)"
  by pat_completeness auto
termination by (relation "measure (\<lambda>(fs, key, left, right). right - left)") auto

declare search_files.simps [simp del]

definition search_level_files :: "FileMetadata list \<Rightarrow> bytes \<Rightarrow> FileMetadata option result" where
  "search_level_files fs key = search_files fs key 0 (length fs)"

fun load_level0 :: "(FileMetadata \<Rightarrow> entry option result) \<Rightarrow> bytes \<Rightarrow> FileMetadata list \<Rightarrow> entry option result" where
  "load_level0 get key [] = Ok None"
| "load_level0 get key (f # fs) =
     and_then (in_user_range f key) (\<lambda>inside.
       if inside then and_then (get f) (\<lambda>found. case found of Some e \<Rightarrow> Ok (Some e) | None \<Rightarrow> load_level0 get key fs)
       else load_level0 get key fs)"

fun load_levels :: "(FileMetadata \<Rightarrow> entry option result) \<Rightarrow> bytes \<Rightarrow> FileMetadata list list \<Rightarrow> entry option result" where
  "load_levels get key [] = Ok None"
| "load_levels get key (fs # levels) =
     and_then (search_level_files fs key) (\<lambda>found.
       case found of Some f \<Rightarrow> get f | None \<Rightarrow> load_levels get key levels)"

definition load_from_sstables_pinned :: "(FileMetadata \<Rightarrow> bytes \<Rightarrow> entry option result) \<Rightarrow> Version \<Rightarrow> bytes \<Rightarrow> entry option result" where
  "load_from_sstables_pinned get v key =
     (case v_files v of
        [] \<Rightarrow> Err (Panic ''index out of bounds'')
      | l0 # levels \<Rightarrow>
          and_then (load_level0 (\<lambda>f. get f key) key (rev l0)) (\<lambda>found.
            case found of Some e \<Rightarrow> Ok (Some e) | None \<Rightarrow> load_levels (\<lambda>f. get f key) key levels))"

fun load_level0_at_seq ::
    "(FileMetadata \<Rightarrow> entry option result) \<Rightarrow> bytes \<Rightarrow> u64 \<Rightarrow> FileMetadata list \<Rightarrow> entry option result" where
  "load_level0_at_seq get key read_seq [] = Ok None"
| "load_level0_at_seq get key read_seq (f # fs) =
     (if read_seq < tp_smallest_seqno (fm_props f) then load_level0_at_seq get key read_seq fs
      else and_then (in_user_range f key) (\<lambda>inside.
        if inside then and_then (get f)
          (\<lambda>found. case found of Some e \<Rightarrow> Ok (Some e) | None \<Rightarrow> load_level0_at_seq get key read_seq fs)
        else load_level0_at_seq get key read_seq fs))"

fun load_levels_at_seq ::
    "(FileMetadata \<Rightarrow> entry option result) \<Rightarrow> bytes \<Rightarrow> u64 \<Rightarrow> FileMetadata list list \<Rightarrow> entry option result" where
  "load_levels_at_seq get key read_seq [] = Ok None"
| "load_levels_at_seq get key read_seq (fs # levels) =
     and_then (search_level_files fs key) (\<lambda>found.
       case found of
         None \<Rightarrow> load_levels_at_seq get key read_seq levels
       | Some f \<Rightarrow>
           if read_seq < tp_smallest_seqno (fm_props f) then load_levels_at_seq get key read_seq levels
           else and_then (get f)
             (\<lambda>found. case found of Some e \<Rightarrow> Ok (Some e) | None \<Rightarrow> load_levels_at_seq get key read_seq levels))"

definition load_from_sstables_pinned_at_seq ::
    "(FileMetadata \<Rightarrow> bytes \<Rightarrow> u64 \<Rightarrow> entry option result) \<Rightarrow> Version \<Rightarrow> bytes \<Rightarrow> u64 \<Rightarrow> entry option result" where
  "load_from_sstables_pinned_at_seq get v key read_seq =
     (case v_files v of
        [] \<Rightarrow> Err (Panic ''index out of bounds'')
      | l0 # levels \<Rightarrow>
          and_then (load_level0_at_seq (\<lambda>f. get f key read_seq) key read_seq (rev l0)) (\<lambda>found.
            case found of Some e \<Rightarrow> Ok (Some e)
            | None \<Rightarrow> load_levels_at_seq (\<lambda>f. get f key read_seq) key read_seq levels))"

fun scan_files :: "(FileMetadata \<Rightarrow> entry list result) \<Rightarrow> FileMetadata list \<Rightarrow> entry list result" where
  "scan_files scan [] = Ok []"
| "scan_files scan (f # fs) = and_then (scan f) (\<lambda>es. and_then (scan_files scan fs) (\<lambda>rest. Ok (es @ rest)))"

definition scan_all_entries :: "(FileMetadata \<Rightarrow> entry list result) \<Rightarrow> Version \<Rightarrow> entry list result" where
  "scan_all_entries scan v = scan_files scan (concat (v_files v))"

definition get_overlapping_files :: "Version \<Rightarrow> nat \<Rightarrow> bytes \<Rightarrow> bytes \<Rightarrow> FileMetadata list" where
  "get_overlapping_files v level smallest largest =
     (if length (v_files v) \<le> level then []
      else if level = 0 then filter (\<lambda>f. fm_smallest f \<le> largest \<and> smallest \<le> fm_largest f) (v_files v ! level)
      else filter (\<lambda>f. \<not> fm_largest f < smallest)
        (takeWhile (\<lambda>f. fm_largest f < smallest \<or> \<not> largest < fm_smallest f) (v_files v ! level)))"

section \<open>Newest entry first\<close>

text \<open>A list whose entries of one user key stand in decreasing order of sequence number.\<close>

definition newest_first :: "entry list \<Rightarrow> bool" where
  "newest_first es \<longleftrightarrow> sorted_wrt (\<lambda>a b. ukey a = ukey b \<longrightarrow> eseq b < eseq a) es"

lemma entries_sorted_newest_first: "entries_sorted es \<Longrightarrow> newest_first es"
  unfolding entries_sorted_def newest_first_def
  by (erule sorted_wrt_mono_rel [rotated]) (auto simp: epos_less)

lemma visible_newest_first:
  assumes "newest_first es"
  shows "visible uk s es = Some e \<longleftrightarrow> is_visible uk s (set es) e"
  using assms
proof (induction es)
  case (Cons x es)
  show ?case
  proof (cases "ukey x = uk \<and> eseq x \<le> s")
    case True
    then have "is_visible uk s (set (x # es)) e \<longleftrightarrow> e = x"
      using Cons.prems by (fastforce simp: is_visible_def newest_first_def)
    then show ?thesis using True by (auto simp: visible_def)
  next
    case False
    then have "is_visible uk s (set (x # es)) e \<longleftrightarrow> is_visible uk s (set es) e"
      by (auto simp: is_visible_def)
    then show ?thesis using Cons False by (auto simp: visible_def newest_first_def)
  qed
qed (simp add: visible_def is_visible_def)

section \<open>Binary search\<close>

definition ranged :: "FileMetadata \<Rightarrow> bool" where
  "ranged f \<longleftrightarrow> 8 \<le> length (fm_smallest f) \<and> 8 \<le> length (fm_largest f)"

abbreviation lo :: "FileMetadata \<Rightarrow> bytes" where "lo f \<equiv> user_part (fm_smallest f)"
abbreviation hi :: "FileMetadata \<Rightarrow> bytes" where "hi f \<equiv> user_part (fm_largest f)"

lemma ranged_user_keys: "ranged f \<Longrightarrow> smallest_user_key f = Ok (lo f) \<and> largest_user_key f = Ok (hi f)"
  by (auto simp: ranged_def smallest_user_key_def largest_user_key_def)

lemma in_user_range_ranged: "ranged f \<Longrightarrow> in_user_range f key = Ok (lo f \<le> key \<and> key \<le> hi f)"
  by (auto simp: in_user_range_def ranged_user_keys)

text \<open>A level whose files follow each other without common user keys.\<close>

definition level_disjoint :: "FileMetadata list \<Rightarrow> bool" where
  "level_disjoint fs \<longleftrightarrow> list_all ranged fs \<and> list_all (\<lambda>f. lo f \<le> hi f) fs \<and> sorted_wrt (\<lambda>a b. hi a < lo b) fs"
lemma search_files_step:
  assumes "left < right" "m = left + (right - left) div 2" "ranged (fs ! m)"
  shows "search_files fs key left right =
     (if key < lo (fs ! m) then search_files fs key left m
      else if hi (fs ! m) < key then search_files fs key (m + 1) right
      else Ok (Some (fs ! m)))"
  by (subst search_files.simps) (use assms in \<open>simp add: ranged_user_keys Let_def\<close>)

lemma search_files_spec:
  assumes lvl: "level_disjoint fs"
    and "right \<le> length fs" "\<forall>i<left. hi (fs ! i) < key" "\<forall>i<length fs. right \<le> i \<longrightarrow> key < lo (fs ! i)"
  shows "\<exists>found. search_files fs key left right = Ok found \<and>
      (case found of None \<Rightarrow> \<forall>f\<in>set fs. \<not> (lo f \<le> key \<and> key \<le> hi f)
       | Some f \<Rightarrow> f \<in> set fs \<and> lo f \<le> key \<and> key \<le> hi f)"
  using assms(2-4)
proof (induction "right - left" arbitrary: left right rule: less_induct)
  case less
  show ?case
  proof (cases "left < right")
    case True
    define m where "m = left + (right - left) div 2"
    have m: "m < right" "left \<le> m" "m < length fs" using True less.prems(1) by (auto simp: m_def)
    have r: "ranged (fs ! m)" using lvl m(3) by (simp add: level_disjoint_def list_all_length)
    have ord: "hi (fs ! i) < lo (fs ! j)" if "i < j" "j < length fs" for i j
      using that lvl sorted_wrt_nth_less [of "\<lambda>a b. hi a < lo b" fs] by (auto simp: level_disjoint_def)
    have own: "lo (fs ! i) \<le> hi (fs ! i)" if "i < length fs" for i
      using that lvl by (simp add: level_disjoint_def list_all_length)
    consider (below) "key < lo (fs ! m)" | (above) "\<not> key < lo (fs ! m)" "hi (fs ! m) < key"
      | (inside) "\<not> key < lo (fs ! m)" "\<not> hi (fs ! m) < key" by blast
    then show ?thesis
    proof cases
      case below
      have "key < lo (fs ! i)" if "m \<le> i" "i < length fs" for i
        using below ord [of m i] own [OF m(3)] that by (cases "i = m") auto
      then show ?thesis
        using below less.hyps [of m left] m less.prems by (simp add: search_files_step [OF True m_def r])
    next
      case above
      have "hi (fs ! i) < key" if "i < m + 1" for i
        using above ord [of i m] own [OF m(3)] that m by (cases "i = m") auto
      then show ?thesis
        using above less.hyps [of right "m + 1"] m less.prems by (simp add: search_files_step [OF True m_def r])
    next
      case inside
      then show ?thesis using m by (simp only: search_files_step [OF True m_def r] if_False) (auto simp: not_less)
    qed
  next
    case False
    have "\<not> (lo f \<le> key \<and> key \<le> hi f)" if "f \<in> set fs" for f
    proof -
      obtain i where "i < length fs" "f = fs ! i" using \<open>f \<in> set fs\<close> by (auto simp: in_set_conv_nth)
      then show ?thesis using less.prems False by (cases "i < left") auto
    qed
    then show ?thesis using False by (subst search_files.simps) auto
  qed
qed

lemma search_level_files_cases:
  assumes "level_disjoint fs"
  obtains (outside) "search_level_files fs key = Ok None" "\<And>f. f \<in> set fs \<Longrightarrow> \<not> (lo f \<le> key \<and> key \<le> hi f)"
  | (inside) f as bs where "search_level_files fs key = Ok (Some f)" "fs = as @ f # bs" "lo f \<le> key" "key \<le> hi f"
      "\<And>g. g \<in> set (as @ bs) \<Longrightarrow> \<not> (lo g \<le> key \<and> key \<le> hi g)"
proof -
  obtain found where r: "search_level_files fs key = Ok found"
    "case found of None \<Rightarrow> \<forall>f\<in>set fs. \<not> (lo f \<le> key \<and> key \<le> hi f)
       | Some f \<Rightarrow> f \<in> set fs \<and> lo f \<le> key \<and> key \<le> hi f"
    using search_files_spec [OF assms, of "length fs" 0 key] by (auto simp: search_level_files_def)
  show thesis
  proof (cases found)
    case None
    then show ?thesis using r outside by auto
  next
    case (Some f)
    then obtain as bs where sp: "fs = as @ f # bs" using r by (auto dest: split_list)
    have "\<not> (lo g \<le> key \<and> key \<le> hi g)" if "g \<in> set (as @ bs)" for g
    proof -
      have "hi g < lo f \<or> hi f < lo g" using assms that by (auto simp: level_disjoint_def sp sorted_wrt_append)
      then show ?thesis using r(2) Some by auto
    qed
    then show ?thesis using r Some sp inside by auto
  qed
qed

section \<open>The contract of a table and the reads over it\<close>

lemma find_append: "find P (xs @ ys) = (case find P xs of None \<Rightarrow> find P ys | Some x \<Rightarrow> Some x)"
  by (induction xs) auto

definition entries_of :: "(FileMetadata \<Rightarrow> entry list) \<Rightarrow> FileMetadata list \<Rightarrow> entry list" where
  "entries_of content fs = concat (map content fs)"

lemma entries_of_simps [simp]:
  "entries_of content [] = []" "entries_of content (f # fs) = content f @ entries_of content fs"
  "entries_of content (fs @ gs) = entries_of content fs @ entries_of content gs"
  by (simp_all add: entries_of_def)

lemma visible_Nil [simp]: "visible key s [] = None"
  by (simp add: visible_def)

text \<open>
  What the searches rely on: the reads of a file return the visible entry of its contents, and
  the properties recorded for the file bound its user keys and sequence numbers.
\<close>

locale table_reads =
  fixes good :: "FileMetadata \<Rightarrow> bool"
    and content :: "FileMetadata \<Rightarrow> entry list"
    and get :: "FileMetadata \<Rightarrow> bytes \<Rightarrow> entry option result"
    and get_at :: "FileMetadata \<Rightarrow> bytes \<Rightarrow> u64 \<Rightarrow> entry option result"
    and scan :: "FileMetadata \<Rightarrow> entry list result"
  assumes get_visible: "good f \<Longrightarrow> get f key = Ok (visible key SEQUENCE_NUMBER_MAX (content f))"
    and get_at_visible: "good f \<Longrightarrow> get_at f key s = Ok (visible key s (content f))"
    and scan_content: "good f \<Longrightarrow> scan f = Ok (content f)"
    and good_ranged: "good f \<Longrightarrow> ranged f"
    and good_bounds: "good f \<Longrightarrow> e \<in> set (content f) \<Longrightarrow>
      lo f \<le> ukey e \<and> ukey e \<le> hi f \<and> tp_smallest_seqno (fm_props f) \<le> eseq e"
begin

lemma outside_absent: "good f \<Longrightarrow> \<not> (lo f \<le> key \<and> key \<le> hi f) \<Longrightarrow> visible key s (content f) = None"
  using good_bounds by (intro visible_absent) blast

lemma young_absent: "good f \<Longrightarrow> s < tp_smallest_seqno (fm_props f) \<Longrightarrow> visible key s (content f) = None"
  using good_bounds by (fastforce simp: visible_None)

lemma others_absent:
  "list_all good fs \<Longrightarrow> (\<And>g. g \<in> set fs \<Longrightarrow> \<not> (lo g \<le> key \<and> key \<le> hi g)) \<Longrightarrow> visible key s (entries_of content fs) = None"
  by (induction fs) (auto simp: visible_append outside_absent)

lemma load_level0_visible:
  "list_all good fs \<Longrightarrow> load_level0 (\<lambda>f. get f key) key fs = Ok (visible key SEQUENCE_NUMBER_MAX (entries_of content fs))"
  by (induction fs) (auto simp: in_user_range_ranged good_ranged get_visible visible_append outside_absent
      split: option.splits)

lemma load_level0_at_seq_visible:
  "list_all good fs \<Longrightarrow> load_level0_at_seq (\<lambda>f. get_at f key s) key s fs = Ok (visible key s (entries_of content fs))"
  by (induction fs) (auto simp: in_user_range_ranged good_ranged get_at_visible visible_append outside_absent
      young_absent split: option.splits)

lemma level_visible:
  assumes "list_all good (as @ f # bs)" "\<And>g. g \<in> set (as @ bs) \<Longrightarrow> \<not> (lo g \<le> key \<and> key \<le> hi g)"
  shows "visible key s (entries_of content (as @ f # bs)) = visible key s (content f)"
  using assms others_absent [of as key s] others_absent [of bs key s]
  by (simp add: visible_append split: option.splits)

lemma load_levels_at_seq_visible:
  assumes "list_all (list_all good) levels" "list_all level_disjoint levels"
  shows "load_levels_at_seq (\<lambda>f. get_at f key s) key s levels = Ok (visible key s (entries_of content (concat levels)))"
  using assms
proof (induction levels)
  case (Cons fs levels)
  from Cons.prems have fs: "list_all good fs" and d: "level_disjoint fs" by simp_all
  from d show ?case
  proof (cases rule: search_level_files_cases [where key = key])
    case outside
    then show ?thesis using Cons fs by (simp add: visible_append others_absent)
  next
    case (inside f as bs)
    then have "good f" using fs by simp
    moreover have "visible key s (entries_of content fs) = visible key s (content f)"
      unfolding inside(2) by (rule level_visible) (use fs inside in simp_all)
    ultimately show ?thesis
      using Cons inside by (auto simp: visible_append get_at_visible young_absent split: option.splits)
  qed
qed simp

lemma load_levels_visible:
  assumes "list_all (list_all good) levels" "list_all level_disjoint levels"
  shows "load_levels (\<lambda>f. get f key) key levels =
     Ok (case find (\<lambda>f. lo f \<le> key \<and> key \<le> hi f) (concat levels) of
           None \<Rightarrow> None | Some f \<Rightarrow> visible key SEQUENCE_NUMBER_MAX (content f))"
  using assms
proof (induction levels)
  case (Cons fs levels)
  from Cons.prems have fs: "list_all good fs" and d: "level_disjoint fs" by simp_all
  from d show ?case
  proof (cases rule: search_level_files_cases [where key = key])
    case outside
    then have "find (\<lambda>f. lo f \<le> key \<and> key \<le> hi f) fs = None" by (auto simp: find_None_iff)
    then show ?thesis using Cons outside by (simp add: find_append)
  next
    case (inside f as bs)
    then have "good f" using fs by simp
    moreover have "find (\<lambda>f. lo f \<le> key \<and> key \<le> hi f) as = None" using inside(5) by (auto simp: find_None_iff)
    ultimately show ?thesis using inside by (simp add: find_append get_visible)
  qed
qed simp

end

definition version_entries :: "(FileMetadata \<Rightarrow> entry list) \<Rightarrow> Version \<Rightarrow> entry list" where
  "version_entries content v =
     entries_of content (rev (hd (v_files v))) @ entries_of content (concat (tl (v_files v)))"

definition version_good :: "(FileMetadata \<Rightarrow> bool) \<Rightarrow> Version \<Rightarrow> bool" where
  "version_good good v \<longleftrightarrow> v_files v \<noteq> [] \<and> list_all (list_all good) (v_files v) \<and> list_all level_disjoint (tl (v_files v))"

lemma version_goodE:
  assumes "version_good good v"
  obtains l0 levels where "v_files v = l0 # levels" "list_all good (rev l0)" "list_all (list_all good) levels"
    "list_all level_disjoint levels"
  using assms by (cases "v_files v") (auto simp: version_good_def)

lemma version_entries_set: "v_files v \<noteq> [] \<Longrightarrow> set (version_entries content v) = set (entries_of content (concat (v_files v)))"
  by (cases "v_files v") (auto simp: version_entries_def entries_of_def)

context table_reads
begin

lemma version_read_at_seq:
  assumes "version_good good v"
  shows "load_from_sstables_pinned_at_seq get_at v key s = Ok (visible key s (version_entries content v))"
  using assms
  by (rule version_goodE) (simp add: load_from_sstables_pinned_at_seq_def version_entries_def
      load_level0_at_seq_visible load_levels_at_seq_visible visible_append split: option.splits)

lemma version_read:
  assumes "version_good good v"
  shows "load_from_sstables_pinned get v key =
     Ok (case visible key SEQUENCE_NUMBER_MAX (entries_of content (rev (hd (v_files v)))) of
           Some e \<Rightarrow> Some e
         | None \<Rightarrow> case find (\<lambda>f. lo f \<le> key \<and> key \<le> hi f) (concat (tl (v_files v))) of
             None \<Rightarrow> None | Some f \<Rightarrow> visible key SEQUENCE_NUMBER_MAX (content f))"
  using assms
  by (rule version_goodE) (simp add: load_from_sstables_pinned_def load_level0_visible load_levels_visible
      split: option.splits)

lemma scan_files_content: "list_all good fs \<Longrightarrow> scan_files scan fs = Ok (entries_of content fs)"
  by (induction fs) (simp_all add: scan_content)

lemma version_scan:
  "version_good good v \<Longrightarrow> scan_all_entries scan v = Ok (entries_of content (concat (v_files v)))"
  by (simp add: scan_all_entries_def version_good_def scan_files_content list_all_iff)

end

section \<open>The properties a builder records\<close>

definition sb_bounds :: "SSTableBuilder \<Rightarrow> (bytes option \<times> bytes option) \<times> u64 option \<times> u64 option" where
  "sb_bounds b = ((sb_smallest_key b, sb_largest_key b), sb_smallest_seqno b, sb_largest_seqno b)"

lemma writer_write_all_bounds: "writer_write_all io op bs b = Ok b' \<Longrightarrow> sb_bounds b' = sb_bounds b"
  by (auto simp: writer_write_all_def sb_bounds_def split: option.splits if_splits)

lemma write_block_bounds: "write_block_with_checksum crc io bs op b = Ok (n, b') \<Longrightarrow> sb_bounds b' = sb_bounds b"
  by (auto simp: write_block_with_checksum_def and_then_eq_Ok Let_def sb_bounds_def
      dest!: writer_write_all_bounds)

lemma finish_data_block_bounds: "finish_data_block crc io key b = Ok b' \<Longrightarrow> sb_bounds b' = sb_bounds b"
  by (auto simp: finish_data_block_def finalize_current_bloom_partition_def and_then_eq_Ok Let_def sb_bounds_def
      split: prod.splits dest!: write_block_bounds)

lemma finish_last_block_bounds: "finish_last_block crc io b = Ok b' \<Longrightarrow> sb_bounds b' = sb_bounds b"
  by (auto simp: finish_last_block_def finalize_current_bloom_partition_def and_then_eq_Ok Let_def sb_bounds_def
      split: prod.splits if_splits dest!: write_block_bounds)

lemma and_thenE: "and_then r f = Ok y \<Longrightarrow> (\<And>x. r = Ok x \<Longrightarrow> f x = Ok y \<Longrightarrow> P) \<Longrightarrow> P"
  by (auto simp: and_then_eq_Ok)

lemma sst_finish_props:
  assumes "sst_finish crc io b = Ok (tp, bs)"
  shows "tp_smallest_key tp = (case sb_smallest_key b of None \<Rightarrow> [] | Some k \<Rightarrow> k) \<and>
     tp_largest_key tp = (case sb_largest_key b of None \<Rightarrow> [] | Some k \<Rightarrow> k) \<and>
     tp_smallest_seqno tp = (case sb_smallest_seqno b of None \<Rightarrow> 0 | Some s \<Rightarrow> s) \<and>
     tp_largest_seqno tp = (case sb_largest_seqno b of None \<Rightarrow> 0 | Some s \<Rightarrow> s)"
proof -
  have upd: "sb_bounds (b \<lparr> sst_offset := n \<rparr>) = sb_bounds b" for b n by (simp add: sb_bounds_def)
  have "\<exists>b'. sb_bounds b' = sb_bounds b \<and>
     tp_smallest_key tp = (case sb_smallest_key b' of None \<Rightarrow> [] | Some k \<Rightarrow> k) \<and>
     tp_largest_key tp = (case sb_largest_key b' of None \<Rightarrow> [] | Some k \<Rightarrow> k) \<and>
     tp_smallest_seqno tp = (case sb_smallest_seqno b' of None \<Rightarrow> 0 | Some s \<Rightarrow> s) \<and>
     tp_largest_seqno tp = (case sb_largest_seqno b' of None \<Rightarrow> 0 | Some s \<Rightarrow> s)"
    using assms unfolding sst_finish_def Let_def split_beta
    apply (elim and_thenE)
    apply (simp only: split: if_splits)
     apply simp
    apply (elim and_thenE)
    subgoal for b1 b2 x b5 b6 b7 b8
      apply (rule exI [of _ b8], rule conjI)
      subgoal
        apply (drule finish_last_block_bounds, drule write_block_bounds [of _ _ _ _ _ "fst x" "snd x", simplified])
        apply (drule writer_write_all_bounds)+
        apply (simp only: upd)
        done
      subgoal premises prems
        using prems(9) by (cases "sst_writer b8") (auto split: if_splits)
      done
    done
  then show ?thesis by (auto simp: sb_bounds_def)
qed

lemma sst_write_bounds:
  "sst_write hash crc io (serialize k) v b = Ok b' \<Longrightarrow> sb_bounds b' =
     ((case sb_smallest_key b of None \<Rightarrow> Some (serialize k) | Some k \<Rightarrow> Some k, Some (serialize k)),
      Some (case sb_smallest_seqno b of None \<Rightarrow> sequence_number k | Some cur \<Rightarrow> min cur (sequence_number k)),
      Some (case sb_largest_seqno b of None \<Rightarrow> sequence_number k | Some cur \<Rightarrow> max cur (sequence_number k)))"
  by (auto simp: sst_write_def and_then_eq_Ok Let_def parse_seqno_serialize sb_bounds_def split: if_splits
      dest!: finish_data_block_bounds)

lemma sst_write_all_props:
  assumes "sst_write_all hash crc io es b = Ok b'" "es \<noteq> []"
  shows "sb_smallest_key b' = Some (case sb_smallest_key b of None \<Rightarrow> serialize (fst (hd es)) | Some k \<Rightarrow> k) \<and>
     sb_largest_key b' = Some (serialize (fst (last es))) \<and>
     (\<exists>m n. sb_smallest_seqno b' = Some m \<and> sb_largest_seqno b' = Some n \<and>
        (\<forall>e\<in>set es. m \<le> eseq e \<and> eseq e \<le> n) \<and>
        (\<forall>s. sb_smallest_seqno b = Some s \<longrightarrow> m \<le> s) \<and> (\<forall>s. sb_largest_seqno b = Some s \<longrightarrow> s \<le> n))"
  using assms
proof (induction es arbitrary: b)
  case (Cons e es)
  obtain k v where e: "e = (k, v)" by (cases e)
  from Cons.prems(1) obtain b1 where b1: "sst_write hash crc io (serialize k) v b = Ok b1"
      "sst_write_all hash crc io es b1 = Ok b'"
    by (auto simp: e and_then_eq_Ok)
  note w = sst_write_bounds [OF b1(1), unfolded sb_bounds_def]
  show ?case
  proof (cases "es = []")
    case True
    then show ?thesis using w b1(2) by (auto simp: e split: option.splits)
  next
    case False
    then show ?thesis using Cons.IH [OF b1(2) False] w by (auto simp: e split: option.splits)
  qed
qed simp

lemma sst_build_props:
  assumes "sst_build hash crc io n c es = Ok (tp, bs)" "es \<noteq> []"
  shows "tp_smallest_key tp = serialize (fst (hd es))" "tp_largest_key tp = serialize (fst (last es))"
    and "e \<in> set es \<Longrightarrow> tp_smallest_seqno tp \<le> eseq e \<and> eseq e \<le> tp_largest_seqno tp"
proof -
  obtain b0 b where b: "new_SSTableBuilder io n c = Ok b0" "sst_write_all hash crc io es b0 = Ok b"
      "sst_finish crc io b = Ok (tp, bs)"
    using assms(1) by (auto simp: sst_build_def and_then_eq_Ok)
  have "sb_bounds b0 = ((None, None), None, None)"
    using b(1) by (auto simp: new_SSTableBuilder_def sb_bounds_def split: if_splits)
  with sst_write_all_props [OF b(2) assms(2)] sst_finish_props [OF b(3)]
  show "tp_smallest_key tp = serialize (fst (hd es))" "tp_largest_key tp = serialize (fst (last es))"
    "e \<in> set es \<Longrightarrow> tp_smallest_seqno tp \<le> eseq e \<and> eseq e \<le> tp_largest_seqno tp"
    by (auto simp: sb_bounds_def)
qed

section \<open>The table reader meets the contract\<close>

text \<open>
  A good file: its contents are what the builder wrote for some entries, and its properties what
  the builder returned.  The entries are within what the table format handles: sorted and not too
  large (\<open>table_entries\<close>), with user keys free of zero bytes, a last data block that does not hold
  a multiple of sixteen entries, and at most sixteen versions of a user key.
\<close>

definition file_content :: "(bytes \<Rightarrow> u32) \<Rightarrow> table_store \<Rightarrow> FileMetadata \<Rightarrow> entry list" where
  "file_content crc st f = (case file_scan crc no_io st f of Inl _ \<Rightarrow> [] | Inr es \<Rightarrow> es)"

definition built_from :: "(bytes \<Rightarrow> u64) \<Rightarrow> (bytes \<Rightarrow> u32) \<Rightarrow> table_store \<Rightarrow> FileMetadata \<Rightarrow> entry list \<Rightarrow> bool" where
  "built_from hash crc st f es \<longleftrightarrow>
     es \<noteq> [] \<and> table_entries es \<and> length (last_block es) mod 16 \<noteq> 0 \<and>
     (\<forall>uk. length (filter (\<lambda>e. ukey e = uk) es) \<le> 16) \<and>
     (\<exists>n c bs. sst_build hash crc no_io n c es = Ok (fm_props f, bs) \<and> st (fm_file_id f) = Some bs)"

definition file_good :: "(bytes \<Rightarrow> u64) \<Rightarrow> (bytes \<Rightarrow> u32) \<Rightarrow> table_store \<Rightarrow> FileMetadata \<Rightarrow> bool" where
  "file_good hash crc st f \<longleftrightarrow> (\<exists>es. built_from hash crc st f es)"

lemma user_part_serialize [simp]: "user_part (serialize k) = user_key k"
  by (simp add: user_part_def take_serialize length_serialize)

lemma entries_sorted_hd_last:
  assumes "entries_sorted es" "e \<in> set es"
  shows "ukey (hd es) \<le> ukey e \<and> ukey e \<le> ukey (last es)"
proof -
  obtain i where i: "i < length es" "e = es ! i" using assms(2) by (auto simp: in_set_conv_nth)
  have "ukey (es ! a) \<le> ukey (es ! b)" if "a \<le> b" "b < length es" for a b
    using that sorted_wrt_nth_less [OF assms(1) [unfolded entries_sorted_def], of a b] by (cases "a = b") (auto simp: epos_less)
  from this [of 0 i] this [of i "length es - 1"] i show ?thesis
    by (cases es) (auto simp: hd_conv_nth last_conv_nth)
qed

lemma built_reads:
  assumes "built_from hash crc st f es"
  shows "file_get hash crc no_io st f key = Ok (visible key SEQUENCE_NUMBER_MAX es)"
    and "file_get_at_seq hash crc no_io st f key s = Ok (visible key s es)"
    and "file_scan crc no_io st f = Ok es" and "file_content crc st f = es"
    and "ranged f" and "lo f = ukey (hd es)" and "hi f = ukey (last es)"
    and "e \<in> set es \<Longrightarrow> tp_smallest_seqno (fm_props f) \<le> eseq e \<and> eseq e \<le> tp_largest_seqno (fm_props f)"
proof -
  obtain n c bs where es: "es \<noteq> []" "table_entries es" "length (last_block es) mod 16 \<noteq> 0"
      "\<And>uk. length (filter (\<lambda>e. ukey e = uk) es) \<le> 16"
    and b: "sst_build hash crc no_io n c es = Ok (fm_props f, bs)" "st (fm_file_id f) = Some bs"
    using assms by (auto simp: built_from_def)
  obtain r where r: "sst_open crc no_io bs = Ok r" "scan_all crc no_io r = Ok es"
      "\<And>uk. sst_get_pinned hash crc no_io r uk = Ok (visible uk SEQUENCE_NUMBER_MAX es)"
      "\<And>uk s. sst_get_pinned_at_seq hash crc no_io r uk s = Ok (visible uk s es)"
    using sst_table [OF es(2), of hash crc n c] b(1) es(3,4) by (auto simp: kept_entries_def)
  note p = sst_build_props [OF b(1) es(1)]
  show seq: "e \<in> set es \<Longrightarrow> tp_smallest_seqno (fm_props f) \<le> eseq e \<and> eseq e \<le> tp_largest_seqno (fm_props f)" for e
    by (rule p(3))
  have op: "open_sstable_reader crc no_io st f = Ok r" by (simp add: open_sstable_reader_def b(2) r(1))
  show "file_get hash crc no_io st f key = Ok (visible key SEQUENCE_NUMBER_MAX es)"
    by (simp add: file_get_def op r(3))
  have "visible key SEQUENCE_NUMBER_MAX es = visible key s es" if "tp_largest_seqno (fm_props f) \<le> s"
    using seq that by (force simp: visible_def sequence_number_le_max intro: find_cong)
  then show "file_get_at_seq hash crc no_io st f key s = Ok (visible key s es)"
    by (simp add: file_get_at_seq_def op r(3,4))
  show "file_scan crc no_io st f = Ok es" by (simp add: file_scan_def op r(2))
  then show "file_content crc st f = es" by (simp add: file_content_def)
  show "ranged f" "lo f = ukey (hd es)" "hi f = ukey (last es)"
    by (simp_all add: ranged_def p(1,2) length_serialize serialized_size_def)
qed

interpretation sst_reads: table_reads "file_good hash crc st" "file_content crc st" "file_get hash crc no_io st"
  "file_get_at_seq hash crc no_io st" "file_scan crc no_io st" for hash crc st
proof
  fix f assume "file_good hash crc st f"
  then obtain es where es: "built_from hash crc st f es" by (auto simp: file_good_def)
  note b = built_reads [OF es]
  show "file_get hash crc no_io st f key = Ok (visible key SEQUENCE_NUMBER_MAX (file_content crc st f))" for key
    by (simp add: b)
  show "file_get_at_seq hash crc no_io st f key s = Ok (visible key s (file_content crc st f))" for key s
    by (simp add: b)
  show "file_scan crc no_io st f = Ok (file_content crc st f)" by (simp add: b)
  show "ranged f" by (rule b)
  have "entries_sorted es" using es by (simp add: built_from_def table_entries_def)
  then show "lo f \<le> ukey e \<and> ukey e \<le> hi f \<and> tp_smallest_seqno (fm_props f) \<le> eseq e"
    if "e \<in> set (file_content crc st f)" for e
    using that entries_sorted_hd_last [of es e] b(8) [of e] by (simp add: b(4,6,7))
qed

section \<open>Properties\<close>

lemma small_table:
  assumes "table_entries es" "es \<noteq> []" "length es < 16" "weight es < 4096"
  shows "\<exists>tp bs. \<forall>st f. fm_props f = tp \<longrightarrow> st (fm_file_id f) = Some bs \<longrightarrow> built_from hash crc st f es"
proof -
  obtain tp bs where "sst_build hash crc no_io 0 NoCompression es = Ok (tp, bs)"
    using sst_table [OF assms(1)] by blast
  moreover have "length (filter P es) \<le> 16" for P using assms(3) length_filter_le [of P es] by linarith
  moreover have "length (last_block es) mod 16 \<noteq> 0" using assms by (simp add: last_block_small)
  ultimately show ?thesis using assms(1,2) by (auto simp: built_from_def)
qed

lemma built_version:
  assumes "v_files v \<noteq> []" "list_all level_disjoint (tl (v_files v))"
    and built: "\<forall>f\<in>set (concat (v_files v)). built_from hash crc st f (content f)"
  shows "version_good (file_good hash crc st) v" "f \<in> set (concat (v_files v)) \<Longrightarrow> file_content crc st f = content f"
    "entries_of (file_content crc st) (concat (tl (v_files v))) = entries_of content (concat (tl (v_files v)))"
    "entries_of (file_content crc st) (rev (hd (v_files v))) = entries_of content (rev (hd (v_files v)))"
    "version_entries (file_content crc st) v = version_entries content v"
    "entries_of (file_content crc st) (concat (v_files v)) = entries_of content (concat (v_files v))"
proof -
  show "version_good (file_good hash crc st) v"
    using assms by (auto simp: version_good_def file_good_def list_all_iff)
  show eq: "file_content crc st f = content f" if "f \<in> set (concat (v_files v))" for f
    using built built_reads(4) that by blast
  then have cong: "set fs \<subseteq> set (concat (v_files v)) \<Longrightarrow> entries_of (file_content crc st) fs = entries_of content fs" for fs
    unfolding entries_of_def by (intro arg_cong [where f = concat] map_cong) auto
  obtain l0 levels where v: "v_files v = l0 # levels" using assms(1) by (cases "v_files v") auto
  show tl: "entries_of (file_content crc st) (concat (tl (v_files v))) = entries_of content (concat (tl (v_files v)))"
    and hd: "entries_of (file_content crc st) (rev (hd (v_files v))) = entries_of content (rev (hd (v_files v)))"
    and "entries_of (file_content crc st) (concat (v_files v)) = entries_of content (concat (v_files v))"
    by (rule cong; auto simp: v)+
  show "version_entries (file_content crc st) v = version_entries content v" by (simp add: version_entries_def tl hd)
qed

lemma built_from_content:
  assumes "content f \<noteq> [] \<and>
       (\<exists>n c bs. sst_build hash crc no_io n c (content f) = Ok (fm_props f, bs) \<and> st (fm_file_id f) = Some bs)"
    and "entries_sorted (content f) \<and> sst_kinds (content f) \<and> weight (content f) < 2 ^ 32 - 4"
    and "zero_free (content f) \<and> length (last_block (content f)) mod 16 \<noteq> 0 \<and>
       (\<forall>uk. length (filter (\<lambda>e. ukey e = uk) (content f)) \<le> 16)"
  shows "built_from hash crc st f (content f)"
  using assms by (simp add: built_from_def table_entries_def)

text \<open>
  (C11) Reads of a version at a sequence number are right, if all of its files are within what
  the table format handles.  The hypotheses are: every file holds what \<open>SSTableBuilder\<close> wrote for
  some sorted entries, of less than \<open>2 ^ 32 - 4\<close> bytes; no user key in it contains a zero byte,
  its last data block does not hold a multiple of sixteen entries, and no user key has more than
  sixteen versions in it; the files of every level below level 0 are disjoint and in order; and
  newer versions of a key come before older ones in the search order.  Then the read returns
  the newest version of the key that is visible at the sequence number among all entries of all
  files, or nothing when there is none; and the scan of the version returns exactly these entries.
\<close>

theorem version_read_at_seq_newest:
  assumes "v_files v \<noteq> []" "list_all level_disjoint (tl (v_files v))"
    and "\<forall>f\<in>set (concat (v_files v)). content f \<noteq> [] \<and>
       (\<exists>n c bs. sst_build hash crc (\<lambda>_. False) n c (content f) = Ok (fm_props f, bs) \<and> st (fm_file_id f) = Some bs)"
    and "\<forall>f\<in>set (concat (v_files v)). entries_sorted (content f) \<and> sst_kinds (content f) \<and> weight (content f) < 2 ^ 32 - 4"
    and "\<forall>f\<in>set (concat (v_files v)). zero_free (content f) \<and> length (last_block (content f)) mod 16 \<noteq> 0 \<and>
       (\<forall>uk. length (filter (\<lambda>e. ukey e = uk) (content f)) \<le> 16)"
    and "newest_first (version_entries content v)"
    and "E = set (entries_of content (concat (v_files v)))"
  shows "(\<exists>r. load_from_sstables_pinned_at_seq (file_get_at_seq hash crc (\<lambda>_. False) st) v key s = Ok r \<and>
       (\<forall>e. r = Some e \<longleftrightarrow> is_visible key s E e)) \<and>
     (\<exists>es. scan_all_entries (file_scan crc (\<lambda>_. False) st) v = Ok es \<and> set es = E)"
proof -
  have "\<forall>f\<in>set (concat (v_files v)). built_from hash crc st f (content f)"
    using assms(3-5) built_from_content by blast
  note b = built_version [OF assms(1,2) this]
  show ?thesis
    using version_entries_set [OF assms(1), of content] visible_newest_first [OF assms(6)] assms(7)
      sst_reads.version_read_at_seq [OF b(1)] sst_reads.version_scan [OF b(1)] by (simp add: b(5,6))
qed

text \<open>
  One user key in level 2, below a level 1 file whose range covers the key but which does not
  hold it.
\<close>

definition outer_entries :: "entry list" where
  "outer_entries = [(\<lparr> user_key = [97], encoded_sequence_number = 0x201 \<rparr>, [1]),
     (\<lparr> user_key = [99], encoded_sequence_number = 0x301 \<rparr>, [2])]"

definition inner_entries :: "entry list" where
  "inner_entries = [(\<lparr> user_key = [98], encoded_sequence_number = 0x101 \<rparr>, [3])]"

lemma sample_tables: "table_entries outer_entries" "table_entries inner_entries"
  by (simp_all add: table_entries_def outer_entries_def inner_entries_def zero_free_def sst_kinds_def kind_def
      kind_try_from_def entry_weight_def entries_sorted_def ik_pos_def)

lemma sample_version:
  "\<exists>st v. version_good (file_good hash crc st) v \<and>
     (\<exists>f g. v_files v = [[], [f], [g]] \<and> built_from hash crc st f outer_entries \<and> built_from hash crc st g inner_entries)"
proof -
  obtain tp bs where f: "\<And>st f. fm_props f = tp \<Longrightarrow> st (fm_file_id f) = Some bs \<Longrightarrow> built_from hash crc st f outer_entries"
    using small_table [OF sample_tables(1), of hash crc] by (auto simp: outer_entries_def entry_weight_def)
  obtain tp' bs' where g: "\<And>st f. fm_props f = tp' \<Longrightarrow> st (fm_file_id f) = Some bs' \<Longrightarrow> built_from hash crc st f inner_entries"
    using small_table [OF sample_tables(2), of hash crc] by (auto simp: inner_entries_def entry_weight_def)
  let ?st = "[1 \<mapsto> bs, 2 \<mapsto> bs'] :: table_store"
  let ?f = "\<lparr> fm_file_id = 1, fm_props = tp \<rparr>" and ?g = "\<lparr> fm_file_id = 2, fm_props = tp' \<rparr>"
  have b: "built_from hash crc ?st ?f outer_entries" "built_from hash crc ?st ?g inner_entries"
    by (rule f; simp) (rule g; simp)
  have "level_disjoint [?f]" "level_disjoint [?g]"
    using built_reads(5-7) [OF b(1)] built_reads(5-7) [OF b(2)]
    by (simp_all add: level_disjoint_def outer_entries_def inner_entries_def)
  then have "version_good (file_good hash crc ?st) (from_files [[], [?f], [?g]] 3)"
    using b by (auto simp: version_good_def file_good_def from_files_def level_disjoint_def)
  then show ?thesis using b by (intro exI [of _ ?st] exI [of _ "from_files [[], [?f], [?g]] 3"]) (auto simp: from_files_def)
qed

lemma sample_version_content:
  assumes "v_files v = [[], [f], [g]]" "built_from hash crc st f outer_entries" "built_from hash crc st g inner_entries"
  shows "\<forall>h\<in>set (concat (v_files v)). file_content crc st h \<noteq> [] \<and>
       (\<exists>n c bs. sst_build hash crc no_io n c (file_content crc st h) = Ok (fm_props h, bs) \<and> st (fm_file_id h) = Some bs)"
    and "\<forall>h\<in>set (concat (v_files v)). entries_sorted (file_content crc st h) \<and> sst_kinds (file_content crc st h) \<and>
       weight (file_content crc st h) < 2 ^ 32 - 4"
    and "\<forall>h\<in>set (concat (v_files v)). zero_free (file_content crc st h) \<and> length (last_block (file_content crc st h)) mod 16 \<noteq> 0 \<and>
       (\<forall>uk. length (filter (\<lambda>e. ukey e = uk) (file_content crc st h)) \<le> 16)"
  using assms(2,3) built_reads(4) [OF assms(2)] built_reads(4) [OF assms(3)]
  by (simp_all add: assms(1) built_from_def table_entries_def)

theorem version_read_at_seq_newest_witness:
  "\<exists>st v. v_files v \<noteq> [] \<and> newest_first (version_entries (file_content (\<lambda>_. 0) st) v) \<and>
     load_from_sstables_pinned_at_seq (file_get_at_seq (\<lambda>_. 0) (\<lambda>_. 0) (\<lambda>_. False) st) v [98] 2
       = Ok (Some (hd inner_entries))"
proof -
  obtain st v f g where v: "version_good (file_good (\<lambda>_. 0) (\<lambda>_. 0) st) v" "v_files v = [[], [f], [g]]"
      "built_from (\<lambda>_. 0) (\<lambda>_. 0) st f outer_entries" "built_from (\<lambda>_. 0) (\<lambda>_. 0) st g inner_entries"
    using sample_version by blast
  let ?c = "file_content (\<lambda>_. 0) st"
  have n: "newest_first (version_entries ?c v)"
    by (simp add: version_entries_def v(2) built_reads(4) [OF v(3)] built_reads(4) [OF v(4)] newest_first_def
        outer_entries_def inner_entries_def)
  have d: "v_files v \<noteq> []" "list_all level_disjoint (tl (v_files v))" using v(1) by (simp_all add: version_good_def)
  note s = sample_version_content [OF v(2,3,4)]
  obtain r where r: "load_from_sstables_pinned_at_seq (file_get_at_seq (\<lambda>_. 0) (\<lambda>_. 0) (\<lambda>_. False) st) v [98] 2 = Ok r"
      "\<forall>e. r = Some e \<longleftrightarrow> is_visible [98] 2 (set (entries_of ?c (concat (v_files v)))) e"
    using version_read_at_seq_newest [OF d s n refl, of "[98]" 2] by blast
  have "is_visible [98] 2 (set (entries_of ?c (concat (v_files v)))) (hd inner_entries)"
    by (simp add: v(2) built_reads(4) [OF v(3)] built_reads(4) [OF v(4)] is_visible_def outer_entries_def inner_entries_def
        sequence_number_def)
  with r have "r = Some (hd inner_entries)" by blast
  with r(1) n d(1) show ?thesis by blast
qed

text \<open>
  (C16) Plain reads below level 0 stop at the first file whose key range covers the key.  In a
  version of the kind described before, if no file of level 0 holds the key, and the first file of
  the deeper levels whose range covers the key does not hold it either, then
  \<open>load_from_sstables_pinned\<close> reports the key as absent, whatever the levels below hold.  The read
  at a sequence number goes on: it returns the newest version visible there among all files below
  level 0.
\<close>

theorem version_get_stops_early:
  assumes "v_files v \<noteq> []" "list_all level_disjoint (tl (v_files v))"
    and "\<forall>f\<in>set (concat (v_files v)). content f \<noteq> [] \<and>
       (\<exists>n c bs. sst_build hash crc (\<lambda>_. False) n c (content f) = Ok (fm_props f, bs) \<and> st (fm_file_id f) = Some bs)"
    and "\<forall>f\<in>set (concat (v_files v)). entries_sorted (content f) \<and> sst_kinds (content f) \<and> weight (content f) < 2 ^ 32 - 4"
    and "\<forall>f\<in>set (concat (v_files v)). zero_free (content f) \<and> length (last_block (content f)) mod 16 \<noteq> 0 \<and>
       (\<forall>uk. length (filter (\<lambda>e. ukey e = uk) (content f)) \<le> 16)"
    and "key \<notin> ukey ` set (entries_of content (hd (v_files v)))"
    and "find (\<lambda>f. lo f \<le> key \<and> key \<le> hi f) (concat (tl (v_files v))) = Some f"
    and "key \<notin> ukey ` set (content f)"
  shows "load_from_sstables_pinned (file_get hash crc (\<lambda>_. False) st) v key = Ok None \<and>
     load_from_sstables_pinned_at_seq (file_get_at_seq hash crc (\<lambda>_. False) st) v key s =
       Ok (visible key s (entries_of content (concat (tl (v_files v)))))"
proof -
  have "\<forall>f\<in>set (concat (v_files v)). built_from hash crc st f (content f)"
    using assms(3-5) built_from_content by blast
  note b = built_version [OF assms(1,2) this]
  have absent: "key \<notin> ukey ` set es \<Longrightarrow> visible key s es = None" for s es by (rule visible_absent) blast
  have "set (entries_of content (rev (hd (v_files v)))) = set (entries_of content (hd (v_files v)))"
    by (simp add: entries_of_def)
  then have l0: "visible key s (entries_of content (rev (hd (v_files v)))) = None" for s
    using assms(6) by (intro absent) simp
  have "f \<in> set (concat (tl (v_files v)))" using assms(7) unfolding find_Some_iff by (metis nth_mem)
  then have "f \<in> set (concat (v_files v))" using assms(1) by (cases "v_files v") auto
  then have "file_content crc st f = content f" by (rule b(2))
  then show ?thesis
    using sst_reads.version_read [OF b(1)] sst_reads.version_read_at_seq [OF b(1)] absent [OF assms(8)]
    by (simp add: b(3-5) l0 assms(7) version_entries_def visible_append)
qed

theorem version_get_stops_early_witness:
  "\<exists>st v e. e \<in> set (version_entries (file_content (\<lambda>_. 0) st) v) \<and>
     load_from_sstables_pinned (file_get (\<lambda>_. 0) (\<lambda>_. 0) (\<lambda>_. False) st) v (ukey e) = Ok None \<and>
     load_from_sstables_pinned_at_seq (file_get_at_seq (\<lambda>_. 0) (\<lambda>_. 0) (\<lambda>_. False) st) v (ukey e) SEQUENCE_NUMBER_MAX = Ok (Some e)"
proof -
  obtain st v f g where v: "version_good (file_good (\<lambda>_. 0) (\<lambda>_. 0) st) v" "v_files v = [[], [f], [g]]"
      "built_from (\<lambda>_. 0) (\<lambda>_. 0) st f outer_entries" "built_from (\<lambda>_. 0) (\<lambda>_. 0) st g inner_entries"
    using sample_version by blast
  let ?c = "file_content (\<lambda>_. 0) st" and ?e = "hd inner_entries"
  note c = built_reads(4) [OF v(3)] built_reads(4) [OF v(4)]
  have d: "v_files v \<noteq> []" "list_all level_disjoint (tl (v_files v))" using v(1) by (simp_all add: version_good_def)
  note s = sample_version_content [OF v(2,3,4)]
  have cov: "lo f \<le> ukey ?e \<and> ukey ?e \<le> hi f"
    using built_reads(6,7) [OF v(3)] by (simp add: outer_entries_def inner_entries_def)
  have "visible (ukey ?e) SEQUENCE_NUMBER_MAX (outer_entries @ inner_entries) = Some ?e"
    by (simp add: visible_max outer_entries_def inner_entries_def)
  moreover have "?e \<in> set (version_entries ?c v)" by (simp add: version_entries_def v(2) c inner_entries_def)
  moreover have "ukey ?e \<notin> ukey ` set (entries_of ?c (hd (v_files v)))" by (simp add: v(2))
  moreover have "find (\<lambda>f. lo f \<le> ukey ?e \<and> ukey ?e \<le> hi f) (concat (tl (v_files v))) = Some f"
    using cov by (simp add: v(2))
  moreover have "ukey ?e \<notin> ukey ` set (?c f)" by (simp add: c inner_entries_def outer_entries_def)
  ultimately show ?thesis
    using version_get_stops_early [OF d s, of "ukey ?e" f SEQUENCE_NUMBER_MAX]
    by (intro exI [of _ st] exI [of _ v] exI [of _ ?e]) (simp add: v(2) c)
qed

end
