(* ===== verification/Version_Set.thy ===== *)
theory Version_Set
  imports Manifest Version_Reads "HOL-Library.Multiset"
begin

text \<open>
  \<open>metadata/version_set.rs\<close>: the mutable owner of the versions.  It validates an edit, writes it
  to the manifest, installs the next version, rewrites the manifest from time to time, and
  recovers all of this from the directory.  The cleanup tasks sent for obsolete tables are the
  list \<open>obsolete_sent\<close>; the caches of the table files are left out.
\<close>

record VersionSetOptions =
  max_versions :: nat
  manifest_max_size :: u64
  manifest_rewrite_edit_count :: nat
  opt_num_levels :: nat

definition default_VersionSetOptions :: VersionSetOptions where
  "default_VersionSetOptions = \<lparr> max_versions = 10, manifest_max_size = 32 * 1024 * 1024,
     manifest_rewrite_edit_count = 10000, opt_num_levels = 7 \<rparr>"

record VersionSet =
  vs_versions :: "Version list"
  vs_current :: Version
  manifest_writer :: "ManifestWriter option"
  manifest_format_version :: u32
  manifest_file_number :: u64
  manifest_edit_count :: nat
  vs_log_number :: u64
  vs_next_file_number :: u64
  vs_last_sequence :: u64
  compact_pointers :: "bytes option list"
  obsolete_sent :: "u64 list"
  vs_options :: VersionSetOptions

definition new_with_options :: "VersionSetOptions \<Rightarrow> VersionSet" where
  "new_with_options opts =
     \<lparr> vs_versions = [], vs_current = new_Version (opt_num_levels opts), manifest_writer = None,
       manifest_format_version = MANIFEST_FORMAT_VERSION_LEGACY, manifest_file_number = 0, manifest_edit_count = 0,
       vs_log_number = 0, vs_next_file_number = 1, vs_last_sequence = 0,
       compact_pointers = replicate (opt_num_levels opts) None, obsolete_sent = [], vs_options = opts \<rparr>"

section \<open>Validation\<close>

definition contains_file :: "Version \<Rightarrow> nat \<Rightarrow> u64 \<Rightarrow> bool" where
  "contains_file v level file_id = list_ex (\<lambda>f. fm_file_id f = file_id) (get_files v level)"

definition contains_file_any_level :: "Version \<Rightarrow> u64 \<Rightarrow> bool" where
  "contains_file_any_level v file_id = list_ex (\<lambda>level. contains_file v level file_id) [0..<num_levels v]"

definition contains_file_in_files :: "FileMetadata list list \<Rightarrow> nat \<Rightarrow> u64 \<Rightarrow> bool" where
  "contains_file_in_files fs level file_id =
     (if level < length fs then list_ex (\<lambda>f. fm_file_id f = file_id) (fs ! level) else False)"

definition contains_file_any_level_in_files :: "FileMetadata list list \<Rightarrow> u64 \<Rightarrow> bool" where
  "contains_file_any_level_in_files fs file_id = list_ex (list_ex (\<lambda>f. fm_file_id f = file_id)) fs"

fun check_new_files ::
    "nat \<Rightarrow> (u64 \<Rightarrow> bool) \<Rightarrow> (nat \<times> u64) list \<Rightarrow> u64 list \<Rightarrow> (nat \<times> NewFile) list \<Rightarrow> unit result" where
  "check_new_files nlevels has_any deleted seen [] = Ok ()"
| "check_new_files nlevels has_any deleted seen ((level, nf) # rest) =
     (if nf_file_id nf \<in> set seen then Err (Conflict ''version_edit'' ''Duplicate new file id'')
      else if nlevels \<le> level then Err (Conflict ''version_edit'' ''Invalid level'')
      else if has_any (nf_file_id nf) \<and> \<not> list_ex (\<lambda>(_, deleted_id). deleted_id = nf_file_id nf) deleted
        then Err (Conflict ''version_edit'' ''File ID already exists'')
      else if tp_largest_key (nf_props nf) < tp_smallest_key (nf_props nf)
        then Err (Conflict ''version_edit'' ''Invalid key range: smallest > largest'')
      else check_new_files nlevels has_any deleted (nf_file_id nf # seen) rest)"

definition check_edit :: "nat \<Rightarrow> (nat \<Rightarrow> u64 \<Rightarrow> bool) \<Rightarrow> (u64 \<Rightarrow> bool) \<Rightarrow> VersionEdit \<Rightarrow> unit result" where
  "check_edit nlevels has has_any e =
     (if list_ex (\<lambda>(level, file_num). \<not> has level file_num) (deleted_files e)
        then Err (Conflict ''version_edit'' ''Trying to delete non-existent file'')
      else and_then (check_new_files nlevels has_any (deleted_files e) [] (new_files e)) (\<lambda>_.
        if list_ex (\<lambda>(level, _). nlevels \<le> level) (edit_compact_pointers e)
          then Err (Conflict ''version_edit'' ''Invalid compact pointer level'')
        else Ok ()))"

definition validate_edit :: "VersionSet \<Rightarrow> VersionEdit \<Rightarrow> unit result" where
  "validate_edit vs e =
     check_edit (opt_num_levels (vs_options vs)) (contains_file (vs_current vs)) (contains_file_any_level (vs_current vs)) e"

definition validate_edit_for_files :: "VersionSet \<Rightarrow> VersionEdit \<Rightarrow> FileMetadata list list \<Rightarrow> unit result" where
  "validate_edit_for_files vs e fs =
     check_edit (opt_num_levels (vs_options vs)) (contains_file_in_files fs) (contains_file_any_level_in_files fs) e"

definition validate_manifest_format_version :: "VersionEdit \<Rightarrow> unit result" where
  "validate_manifest_format_version e =
     (let version = (case edit_format_version e of None \<Rightarrow> MANIFEST_FORMAT_VERSION_LEGACY | Some v \<Rightarrow> v) in
      if MANIFEST_FORMAT_VERSION_CURRENT < version
        then Err (Corruption ''manifest_format'' ''unsupported manifest format version'') else Ok ())"

section \<open>The next version\<close>

definition remove_deleted :: "nat \<times> u64 \<Rightarrow> FileMetadata list list \<Rightarrow> FileMetadata list list" where
  "remove_deleted = (\<lambda>(level, file_num) fs.
     if level < length fs then fs[level := filter (\<lambda>f. fm_file_id f \<noteq> file_num) (fs ! level)] else fs)"

definition push_new :: "nat \<times> NewFile \<Rightarrow> FileMetadata list list \<Rightarrow> FileMetadata list list" where
  "push_new = (\<lambda>(level, nf) fs.
     let fs = (if length fs \<le> level then fs @ replicate (level + 1 - length fs) [] else fs)
     in fs[level := fs ! level @ [from_new_file nf]])"

definition apply_files :: "VersionEdit \<Rightarrow> FileMetadata list list \<Rightarrow> FileMetadata list list" where
  "apply_files e fs = fold push_new (new_files e) (fold remove_deleted (deleted_files e) fs)"

fun sort_level_files :: "FileMetadata list list \<Rightarrow> FileMetadata list list" where
  "sort_level_files [] = []"
| "sort_level_files (l0 # levels) = l0 # map (sort_key fm_smallest) levels"

definition create_new_version :: "VersionSet \<Rightarrow> VersionEdit \<Rightarrow> Version" where
  "create_new_version vs e =
     from_files (sort_level_files (apply_files e (v_files (vs_current vs)))) (vs_last_sequence vs)"

fun apply_compact_pointers :: "(nat \<times> bytes) list \<Rightarrow> bytes option list \<Rightarrow> (unit result \<times> bytes option list)" where
  "apply_compact_pointers [] cps = (Ok (), cps)"
| "apply_compact_pointers ((level, key) # rest) cps =
     (if length cps \<le> level then (Err (Conflict ''version_edit'' ''Invalid compact pointer level''), cps)
      else apply_compact_pointers rest (cps[level := Some key]))"

text \<open>The global numbers an edit carries.\<close>

definition apply_numbers :: "VersionEdit \<Rightarrow> VersionSet \<Rightarrow> VersionSet" where
  "apply_numbers e vs = vs \<lparr>
     vs_log_number := (case edit_log_number e of None \<Rightarrow> vs_log_number vs | Some n \<Rightarrow> n),
     vs_next_file_number := (case edit_next_file_number e of None \<Rightarrow> vs_next_file_number vs
        | Some n \<Rightarrow> max (vs_next_file_number vs) n),
     vs_last_sequence := (case edit_last_sequence e of None \<Rightarrow> vs_last_sequence vs | Some s \<Rightarrow> s),
     manifest_format_version := (case edit_format_version e of None \<Rightarrow> manifest_format_version vs | Some v \<Rightarrow> v) \<rparr>"

definition collect_live_file_ids :: "VersionSet \<Rightarrow> u64 list" where
  "collect_live_file_ids vs = all_file_ids (vs_current vs) @ concat (map all_file_ids (vs_versions vs))"

definition enqueue_obsolete_files :: "Version \<Rightarrow> VersionSet \<Rightarrow> VersionSet" where
  "enqueue_obsolete_files dropped vs =
     vs \<lparr> obsolete_sent := obsolete_sent vs @
       filter (\<lambda>id. id \<notin> set (collect_live_file_ids vs)) (all_file_ids dropped) \<rparr>"

definition append_old_version :: "Version \<Rightarrow> VersionSet \<Rightarrow> VersionSet" where
  "append_old_version v vs =
     (let versions = vs_versions vs @ [v] in
      if max_versions (vs_options vs) < length versions
      then enqueue_obsolete_files (hd versions) (vs \<lparr> vs_versions := tl versions \<rparr>)
      else vs \<lparr> vs_versions := versions \<rparr>)"

section \<open>Rewriting the manifest\<close>

definition should_rewrite_manifest :: "VersionSet \<Rightarrow> bool" where
  "should_rewrite_manifest vs \<longleftrightarrow>
     (let opts = vs_options vs in
      (0 < manifest_rewrite_edit_count opts \<and> manifest_rewrite_edit_count opts \<le> manifest_edit_count vs) \<or>
      (0 < manifest_max_size opts \<and>
        (case manifest_writer vs of None \<Rightarrow> False | Some w \<Rightarrow> manifest_max_size opts \<le> mw_current_size w)))"

definition pointer_list :: "bytes option list \<Rightarrow> (nat \<times> bytes) list" where
  "pointer_list cps = List.map_filter (\<lambda>(level, key). map_option (\<lambda>k. (level, k)) key) (enumerate 0 cps)"

definition build_snapshot_edit :: "VersionSet \<Rightarrow> VersionEdit" where
  "build_snapshot_edit vs =
     \<lparr> edit_format_version = Some MANIFEST_FORMAT_VERSION_CURRENT, comparator_name = None,
       edit_log_number = Some (vs_log_number vs), edit_next_file_number = Some (vs_next_file_number vs),
       edit_last_sequence = Some (vs_last_sequence vs), edit_compact_pointers = pointer_list (compact_pointers vs),
       deleted_files = [],
       new_files = map (\<lambda>(level, f). (level, \<lparr> nf_file_id = fm_file_id f, nf_props = fm_props f \<rparr>))
         (all_files (vs_current vs)) \<rparr>"

definition sat_incr :: "u64 \<Rightarrow> u64" where "sat_incr n = (if n = - 1 then n else n + 1)"

text \<open>A dropped \<open>BufWriter\<close> writes out its buffer and ignores errors.\<close>

definition drop_writer :: "io_script \<Rightarrow> ManifestWriter \<Rightarrow> ManifestDir \<Rightarrow> ManifestDir" where
  "drop_writer io w d = snd (snd (flush_buf io ''drop'' w d))"

definition maybe_rewrite_manifest :: "io_script \<Rightarrow> VersionSet \<Rightarrow> ManifestDir \<Rightarrow> unit result \<times> VersionSet \<times> ManifestDir" where
  "maybe_rewrite_manifest io vs d =
     (if \<not> should_rewrite_manifest vs then (Ok (), vs, d)
      else let number = sat_incr (manifest_file_number vs); name = manifest_name number in
        case manifest_create io name d of
          (Inl e, d) \<Rightarrow> (Err e, vs, d)
        | (Inr _, d) \<Rightarrow>
          (case open_for_append io name number d of
             (Inl e, d) \<Rightarrow> (Err e, vs, d)
           | (Inr w, d) \<Rightarrow>
             (case append_edit io (build_snapshot_edit vs) w d of
                (Inl e, w, d) \<Rightarrow> (Err e, vs, drop_writer io w d)
              | (Inr _, w, d) \<Rightarrow>
                (case manifest_sync io w d of
                   (Inl e, w, d) \<Rightarrow> (Err e, vs, drop_writer io w d)
                 | (Inr _, w, d) \<Rightarrow>
                   (case write_current io name d of
                      (Inl e, d) \<Rightarrow> (Err e, vs, drop_writer io w d)
                    | (Inr _, d) \<Rightarrow>
                        (Ok (), vs \<lparr> manifest_writer := Some w, manifest_file_number := number,
                           manifest_edit_count := 1 \<rparr>, d))))))"

section \<open>Applying an edit\<close>

definition install_edit :: "VersionEdit \<Rightarrow> VersionSet \<Rightarrow> unit result \<times> VersionSet" where
  "install_edit e vs =
     (let vs = apply_numbers e vs in
      case apply_compact_pointers (edit_compact_pointers e) (compact_pointers vs) of
        (Inl err, cps) \<Rightarrow> (Err err, vs \<lparr> compact_pointers := cps \<rparr>)
      | (Inr _, cps) \<Rightarrow>
          let vs = vs \<lparr> compact_pointers := cps \<rparr>; old = vs_current vs in
          (Ok (), append_old_version old (vs \<lparr> vs_current := create_new_version vs e \<rparr>)))"

definition stamp_format :: "VersionEdit \<Rightarrow> VersionEdit" where
  "stamp_format e =
     (if edit_format_version e = None then e \<lparr> edit_format_version := Some MANIFEST_FORMAT_VERSION_CURRENT \<rparr> else e)"

text \<open>The script \<open>io\<close> is for the append to the current manifest, \<open>io'\<close> for a rewrite after it.\<close>

definition apply_edit ::
    "io_script \<Rightarrow> io_script \<Rightarrow> VersionEdit \<Rightarrow> VersionSet \<Rightarrow> ManifestDir \<Rightarrow> unit result \<times> VersionSet \<times> ManifestDir" where
  "apply_edit io io' edit vs d =
     (let e = stamp_format edit in
      case validate_manifest_format_version e of
        Inl err \<Rightarrow> (Err err, vs, d)
      | Inr _ \<Rightarrow>
        (case validate_edit vs e of
           Inl err \<Rightarrow> (Err err, vs, d)
         | Inr _ \<Rightarrow>
           (case manifest_writer vs of
              None \<Rightarrow> (Err (Internal ''version_set'' ''manifest writer not initialized''), vs, d)
            | Some w \<Rightarrow>
              (case append_edit io e w d of
                 (Inl err, w, d) \<Rightarrow> (Err err, vs \<lparr> manifest_writer := Some w \<rparr>, d)
               | (Inr _, w, d) \<Rightarrow>
                 (case manifest_sync io w d of
                    (Inl err, w, d) \<Rightarrow> (Err err, vs \<lparr> manifest_writer := Some w \<rparr>, d)
                  | (Inr _, w, d) \<Rightarrow>
                      let vs = vs \<lparr> manifest_writer := Some w,
                        manifest_edit_count := min (manifest_edit_count vs + 1) (2 ^ 64 - 1) \<rparr> in
                      (case install_edit e vs of
                         (Inl err, vs) \<Rightarrow> (Err err, vs, d)
                       | (Inr _, vs) \<Rightarrow> maybe_rewrite_manifest io' vs d))))))"

definition allocate_file_number :: "VersionSet \<Rightarrow> u64 \<times> VersionSet" where
  "allocate_file_number vs = (vs_next_file_number vs, vs \<lparr> vs_next_file_number := vs_next_file_number vs + 1 \<rparr>)"

definition allocate_log_number :: "VersionSet \<Rightarrow> u64 \<times> VersionSet" where
  "allocate_log_number vs = (vs_log_number vs + 1, vs \<lparr> vs_log_number := vs_log_number vs + 1 \<rparr>)"

definition compact_pointer :: "VersionSet \<Rightarrow> nat \<Rightarrow> bytes option" where
  "compact_pointer vs level = (if level < length (compact_pointers vs) then compact_pointers vs ! level else None)"

section \<open>Recovery\<close>

definition parse_manifest_number :: "bytes \<Rightarrow> u64 option" where
  "parse_manifest_number name =
     (case strip_prefix manifest_prefix name of None \<Rightarrow> None | Some rest \<Rightarrow> parse_u64 rest)"

definition is_manifest_name_valid :: "bytes \<Rightarrow> ManifestDir \<Rightarrow> bool" where
  "is_manifest_name_valid name d \<longleftrightarrow> parse_manifest_number name \<noteq> None \<and> map_of (dir_files d) name \<noteq> None"

definition create_initial_manifest :: "io_script \<Rightarrow> ManifestDir \<Rightarrow> bytes result \<times> ManifestDir" where
  "create_initial_manifest io d =
     (case manifest_create io INIT_MANIFEST_FILE_NAME d of
        (Inl e, d) \<Rightarrow> (Err e, d)
      | (Inr _, d) \<Rightarrow>
        (case write_current io INIT_MANIFEST_FILE_NAME d of
           (Inl e, d) \<Rightarrow> (Err e, d)
         | (Inr _, d) \<Rightarrow> (Ok INIT_MANIFEST_FILE_NAME, d)))"

text \<open>Both places where the newest manifest replaces the one named by \<open>CURRENT\<close>.\<close>

definition fall_back_manifest :: "io_script \<Rightarrow> ManifestDir \<Rightarrow> bytes result \<times> ManifestDir" where
  "fall_back_manifest io d =
     (case find_latest_manifest io d of
        Inl e \<Rightarrow> (Err e, d)
      | Inr None \<Rightarrow> create_initial_manifest io d
      | Inr (Some latest) \<Rightarrow>
          (case write_current io latest d of (Inl e, d) \<Rightarrow> (Err e, d) | (Inr _, d) \<Rightarrow> (Ok latest, d)))"

definition resolve_manifest :: "io_script \<Rightarrow> ManifestDir \<Rightarrow> bytes result \<times> ManifestDir" where
  "resolve_manifest io d =
     (case (case read_current io d of
              Inl e \<Rightarrow> (Err e, d)
            | Inr (Some name) \<Rightarrow> (Ok name, d)
            | Inr None \<Rightarrow> fall_back_manifest io d) of
        (Inl e, d) \<Rightarrow> (Err e, d)
      | (Inr name, d) \<Rightarrow>
          (case (if is_manifest_name_valid name d then (Ok name, d) else fall_back_manifest io d) of
             (Inl e, d) \<Rightarrow> (Err e, d)
           | (Inr name, d) \<Rightarrow>
               if is_manifest_name_valid name d then (Ok name, d) else (Err (NotFound ''manifest'' ''''), d)))"

definition apply_edit_in_place ::
    "VersionEdit \<Rightarrow> VersionSet \<times> FileMetadata list list \<Rightarrow> unit result \<times> VersionSet \<times> FileMetadata list list" where
  "apply_edit_in_place e = (\<lambda>(vs, fs).
     case validate_manifest_format_version e of
       Inl err \<Rightarrow> (Err err, vs, fs)
     | Inr _ \<Rightarrow>
       (case validate_edit_for_files vs e fs of
          Inl err \<Rightarrow> (Err err, vs, fs)
        | Inr _ \<Rightarrow>
            let vs = apply_numbers e vs in
            (case apply_compact_pointers (edit_compact_pointers e) (compact_pointers vs) of
               (Inl err, cps) \<Rightarrow> (Err err, vs \<lparr> compact_pointers := cps \<rparr>, fs)
             | (Inr _, cps) \<Rightarrow> (Ok (), vs \<lparr> compact_pointers := cps \<rparr>, apply_files e fs))))"

fun error_text :: "Error \<Rightarrow> Error" where
  "error_text (Panic p) = Panic p"
| "error_text _ = Corruption ''manifest_recovery'' ''''"

fun replay_edits ::
    "VersionEdit list \<Rightarrow> VersionSet \<times> FileMetadata list list \<Rightarrow> unit result \<times> VersionSet \<times> FileMetadata list list" where
  "replay_edits [] s = (Ok (), s)"
| "replay_edits (e # es) s =
     (case apply_edit_in_place e s of
        (Inl err, s) \<Rightarrow> (Err (error_text err), s)
      | (Inr _, s) \<Rightarrow> replay_edits es s)"

definition apply_edits_for_recovery :: "VersionEdit list \<Rightarrow> VersionSet \<Rightarrow> unit result \<times> VersionSet" where
  "apply_edits_for_recovery es vs =
     (case replay_edits es (vs \<lparr> vs_versions := [] \<rparr>, v_files (vs_current vs)) of
        (Inl err, vs, _) \<Rightarrow> (Err err, vs)
      | (Inr _, vs, fs) \<Rightarrow> (Ok (), vs \<lparr> vs_current := from_files (sort_level_files fs) (vs_last_sequence vs) \<rparr>))"

definition ensure_next_file_number :: "VersionSet \<Rightarrow> VersionSet" where
  "ensure_next_file_number vs =
     (let max_file_id = fold max (all_file_ids (vs_current vs)) 0 in
      if vs_next_file_number vs \<le> max_file_id then vs \<lparr> vs_next_file_number := max_file_id + 1 \<rparr> else vs)"

definition recover_manifest :: "io_script \<Rightarrow> VersionSet \<Rightarrow> ManifestDir \<Rightarrow> unit result \<times> VersionSet \<times> ManifestDir" where
  "recover_manifest io vs d =
     (case resolve_manifest io d of
        (Inl e, d) \<Rightarrow> (Err e, vs, d)
      | (Inr name, d) \<Rightarrow>
        (case new_ManifestReader io (dir_content d name) of
           Inl e \<Rightarrow> (Err e, vs, d)
         | Inr r \<Rightarrow>
           (case read_all_edits io r of
              (Inl e, r) \<Rightarrow> (Err e, vs, dir_put name (mr_file r) d)
            | (Inr edits, r) \<Rightarrow>
              let d = dir_put name (mr_file r) d in
              (case apply_edits_for_recovery edits vs of
                 (Inl e, vs) \<Rightarrow> (Err e, vs, d)
               | (Inr _, vs) \<Rightarrow>
                 let vs = ensure_next_file_number vs;
                     number = (case parse_manifest_number name of None \<Rightarrow> 0 | Some n \<Rightarrow> n) in
                 (case open_for_append io name number d of
                    (Inl e, d) \<Rightarrow> (Err e, vs, d)
                  | (Inr w, d) \<Rightarrow> (Ok (), vs \<lparr> manifest_writer := Some w, manifest_file_number := number,
                       manifest_edit_count := length edits \<rparr>, d))))))"

fun validate_files ::
    "(bytes \<Rightarrow> u32) \<Rightarrow> (string \<Rightarrow> bool) \<Rightarrow> table_store \<Rightarrow> u64 list \<Rightarrow> FileMetadata list \<Rightarrow> u64 list result" where
  "validate_files crc io st seen [] = Ok seen"
| "validate_files crc io st seen (f # fs) =
     (if fm_file_id f \<in> set seen then Err (Corruption ''version_recovery'' ''Duplicate file id detected'')
      else if fm_largest f < fm_smallest f then Err (Corruption ''version_recovery'' ''Invalid key range'')
      else case st (fm_file_id f) of
        None \<Rightarrow> Err (NotFound ''sstable'' '''')
      | Some bs \<Rightarrow>
          if io ''validate_recovery_sstable_metadata'' then Err (Io ''validate_recovery_sstable_metadata'')
          else if length bs < unat (fm_size f)
            then Err (Corruption ''version_recovery'' ''SSTable size smaller than manifest'')
          else case sst_open crc io bs of
            Inl (Panic p) \<Rightarrow> Err (Panic p)
          | Inl _ \<Rightarrow> Err (Corruption ''version_recovery'' ''Invalid SSTable'')
          | Inr _ \<Rightarrow> validate_files crc io st (fm_file_id f # seen) fs)"

fun windows_overlap :: "FileMetadata list \<Rightarrow> bool" where
  "windows_overlap (a # b # rest) \<longleftrightarrow> fm_smallest b \<le> fm_largest a \<or> windows_overlap (b # rest)"
| "windows_overlap _ \<longleftrightarrow> False"

text \<open>The orphans are the table files that no level names; \<open>stuck\<close> holds those that cannot be removed.\<close>

definition validate_recovery ::
    "(bytes \<Rightarrow> u32) \<Rightarrow> (string \<Rightarrow> bool) \<Rightarrow> (u64 \<Rightarrow> bool) \<Rightarrow> VersionSet \<Rightarrow> table_store \<Rightarrow> unit result \<times> table_store" where
  "validate_recovery crc io stuck vs st =
     (let v = vs_current vs in
      case validate_files crc io st [] (map snd (all_files v)) of
        Inl e \<Rightarrow> (Err e, st)
      | Inr seen \<Rightarrow>
          if list_ex windows_overlap (tl (v_files v))
            then (Err (Corruption ''version_recovery'' ''Overlapping SSTables''), st)
          else if vs_last_sequence vs < creation_seqno v
            then (Err (Corruption ''version_recovery'' ''last_sequence is behind current version''), st)
          else if io ''list_sstable_dir'' then (Err (Io ''list_sstable_dir''), st)
          else (Ok (), \<lambda>id. if id \<in> set seen \<or> stuck id then st id else None))"

definition open_VersionSet ::
    "(bytes \<Rightarrow> u32) \<Rightarrow> (string \<Rightarrow> bool) \<Rightarrow> (u64 \<Rightarrow> bool) \<Rightarrow> io_script \<Rightarrow> VersionSetOptions \<Rightarrow> ManifestDir \<Rightarrow> table_store
       \<Rightarrow> VersionSet result \<times> ManifestDir \<times> table_store" where
  "open_VersionSet crc io stuck mio opts d st =
     (case recover_manifest mio (new_with_options opts) d of
        (Inl e, vs, d) \<Rightarrow> (Err e, d, st)
      | (Inr _, vs, d) \<Rightarrow>
        (case validate_recovery crc io stuck vs st of
           (Inl e, st) \<Rightarrow> (Err e, d, st)
         | (Inr _, st) \<Rightarrow> (Ok vs, d, st)))"

section \<open>Levels of files\<close>

lemma length_remove_deleted [simp]: "length (remove_deleted x fs) = length fs"
  by (simp add: remove_deleted_def split: prod.splits)

lemma fold_remove_deleted:
  "length (fold remove_deleted ds fs) = length fs \<and>
     (\<forall>l<length fs. fold remove_deleted ds fs ! l = filter (\<lambda>f. (l, fm_file_id f) \<notin> set ds) (fs ! l))"
proof (induction ds arbitrary: fs)
  case (Cons x ds)
  obtain level n where x: "x = (level, n)" by (cases x)
  have "remove_deleted x fs ! l = filter (\<lambda>f. (l, fm_file_id f) \<noteq> x) (fs ! l)" if "l < length fs" for l
    using that by (auto simp: remove_deleted_def x nth_list_update intro: filter_cong)
  then show ?case using Cons [of "remove_deleted x fs"] by (auto intro!: filter_cong)
qed simp

definition added :: "nat \<Rightarrow> (nat \<times> NewFile) list \<Rightarrow> FileMetadata list" where
  "added l nfs = map (from_new_file \<circ> snd) (filter (\<lambda>x. fst x = l) nfs)"

lemma fold_push_new:
  "list_all (\<lambda>(level, _). level < length fs) nfs \<Longrightarrow> length (fold push_new nfs fs) = length fs \<and>
     (\<forall>l<length fs. fold push_new nfs fs ! l = fs ! l @ added l nfs)"
proof (induction nfs arbitrary: fs)
  case (Cons x nfs)
  obtain level nf where x: "x = (level, nf)" by (cases x)
  have len: "length (push_new x fs) = length fs" using Cons.prems by (simp add: push_new_def x)
  have "push_new x fs ! l = fs ! l @ added l [x]" if "l < length fs" for l
    using Cons.prems that by (simp add: push_new_def x added_def)
  then show ?case using Cons.IH [of "push_new x fs"] Cons.prems len by (auto simp: added_def)
qed (simp add: added_def)

definition next_level :: "VersionEdit \<Rightarrow> nat \<Rightarrow> FileMetadata list \<Rightarrow> FileMetadata list" where
  "next_level e l fs = filter (\<lambda>f. (l, fm_file_id f) \<notin> set (deleted_files e)) fs @ added l (new_files e)"

lemma apply_files_nth:
  assumes "list_all (\<lambda>(level, _). level < length fs) (new_files e)"
  shows "length (apply_files e fs) = length fs" "l < length fs \<Longrightarrow> apply_files e fs ! l = next_level e l (fs ! l)"
  using fold_push_new [of "fold remove_deleted (deleted_files e) fs" "new_files e"]
    fold_remove_deleted [of "deleted_files e" fs] assms
  by (simp_all add: apply_files_def next_level_def)

lemma sort_level_files_nth:
  "length (sort_level_files fs) = length fs"
  "l < length fs \<Longrightarrow> sort_level_files fs ! l = (if l = 0 then fs ! l else sort_key fm_smallest (fs ! l))"
  by (cases fs; cases l; simp)+

lemma sort_key_append_sort:
  fixes f :: "'a \<Rightarrow> 'b::linorder"
  shows "sort_key f (sort_key f xs @ ys) = sort_key f (xs @ ys)"
proof -
  have "filter (\<lambda>x. f k = f x) (sort_key f zs) = filter (\<lambda>x. f k = f x) zs" for k zs
    using sort_key_stable [of f "f k" zs] by (simp add: eq_commute [of "f k"])
  then show ?thesis by (intro properties_for_sort_key [symmetric]) simp_all
qed

lemma sort_apply_files:
  assumes "list_all (\<lambda>(level, _). level < length fs) (new_files e)"
  shows "sort_level_files (apply_files e (sort_level_files fs)) = sort_level_files (apply_files e fs)"
proof (rule nth_equalityI)
  have a: "list_all (\<lambda>(level, _). level < length (sort_level_files fs)) (new_files e)"
    using assms by (simp add: sort_level_files_nth)
  note n = apply_files_nth [OF assms] apply_files_nth [OF a]
  show "length (sort_level_files (apply_files e (sort_level_files fs))) = length (sort_level_files (apply_files e fs))"
    by (simp add: sort_level_files_nth n)
  fix l assume "l < length (sort_level_files (apply_files e (sort_level_files fs)))"
  then have l: "l < length fs" by (simp add: sort_level_files_nth n)
  show "sort_level_files (apply_files e (sort_level_files fs)) ! l = sort_level_files (apply_files e fs) ! l"
    by (cases "l = 0") (use l in \<open>simp_all add: sort_level_files_nth n next_level_def filter_sort sort_key_append_sort\<close>)
qed

lemma set_sort_level: "l < length fs \<Longrightarrow> set (sort_level_files fs ! l) = set (fs ! l)"
  by (simp add: sort_level_files_nth)

lemma contains_sorted [simp]:
  "contains_file_in_files (sort_level_files fs) = contains_file_in_files fs"
  "contains_file_any_level_in_files (sort_level_files fs) = contains_file_any_level_in_files fs"
   apply (auto simp: fun_eq_iff contains_file_in_files_def sort_level_files_nth(1) list_ex_iff set_sort_level)[1]
  by (cases fs) (auto simp: fun_eq_iff contains_file_any_level_in_files_def list_ex_iff)

lemma contains_current:
  "contains_file v = contains_file_in_files (v_files v)"
  "contains_file_any_level v = contains_file_any_level_in_files (v_files v)"
  by (simp_all add: contains_file_def contains_file_in_files_def contains_file_any_level_def get_files_def num_levels_def
      contains_file_any_level_in_files_def list_ex_iff fun_eq_iff Ball_def all_set_conv_all_nth)
    (metis in_set_conv_nth atLeastLessThan_iff zero_le not_le)

lemma check_edit_levels:
  assumes "check_edit n has has_any e = Ok ()"
  shows "list_all (\<lambda>(level, _). level < n) (new_files e)" "list_all (\<lambda>(level, _). level < n) (edit_compact_pointers e)"
    "list_all (\<lambda>(level, i). has level i) (deleted_files e)"
proof -
  have "list_all (\<lambda>(level, _). level < n) nfs" if "check_new_files n has_any ds seen nfs = Ok ()" for ds seen nfs
    using that by (induction n has_any ds seen nfs rule: check_new_files.induct) (auto split: if_splits)
  then show "list_all (\<lambda>(level, _). level < n) (new_files e)" "list_all (\<lambda>(level, _). level < n) (edit_compact_pointers e)"
    "list_all (\<lambda>(level, i). has level i) (deleted_files e)"
    using assms by (auto simp: check_edit_def and_then_eq_Ok list_ex_iff list_all_iff split: if_splits)
qed

section \<open>The invariant of the version set\<close>

text \<open>The file numbers of the levels are distinct, and every file has a key range.\<close>

definition levels_ok :: "FileMetadata list list \<Rightarrow> bool" where
  "levels_ok fs \<longleftrightarrow> distinct (map fm_file_id (concat fs)) \<and> list_all (\<lambda>f. fm_smallest f \<le> fm_largest f) (concat fs)"

lemma check_new_files_ok:
  assumes "check_new_files n has_any ds seen nfs = Ok ()"
  shows "distinct (map (nf_file_id \<circ> snd) nfs) \<and> set (map (nf_file_id \<circ> snd) nfs) \<inter> set seen = {} \<and>
     list_all (\<lambda>x. tp_smallest_key (nf_props (snd x)) \<le> tp_largest_key (nf_props (snd x)) \<and>
       (has_any (nf_file_id (snd x)) \<longrightarrow> (\<exists>l. (l, nf_file_id (snd x)) \<in> set ds))) nfs"
  using assms
  by (induction n has_any ds seen nfs rule: check_new_files.induct)
    (auto simp: not_less list_ex_iff split: if_splits)

lemma concat_push: "l < length fs \<Longrightarrow> mset (concat (fs[l := fs ! l @ ys])) = mset (concat fs) + mset ys"
  by (induction fs arbitrary: l) (auto split: nat.splits)

lemma mset_push_new:
  assumes "list_all (\<lambda>(level, _). level < length fs) nfs"
  shows "mset (concat (fold push_new nfs fs)) = mset (concat fs) + mset (map (from_new_file \<circ> snd) nfs)"
  using assms
proof (induction nfs arbitrary: fs)
  case (Cons x nfs)
  obtain level nf where x: "x = (level, nf)" by (cases x)
  have l: "level < length fs" using Cons.prems by (simp add: x)
  have "push_new x fs = fs[level := fs ! level @ [from_new_file nf]]" using l by (simp add: push_new_def x)
  then show ?case using Cons concat_push [OF l, of "[from_new_file nf]"] by (simp add: x)
qed simp

lemma set_concat_nth: "f \<in> set (concat fs) \<longleftrightarrow> (\<exists>l<length fs. f \<in> set (fs ! l))"
  by (metis in_set_conv_nth set_concat UN_iff)

lemma distinct_concat_same:
  assumes "distinct (map g (concat fs))" "l < length fs" "l' < length fs" "f \<in> set (fs ! l)" "f' \<in> set (fs ! l')" "g f = g f'"
  shows "l = l'"
  using assms
proof (induction fs arbitrary: l l')
  case (Cons x fs)
  have apart: "g a \<noteq> g b" if "a \<in> set x" "b \<in> set (fs ! n)" "n < length fs" for a b n
    using that Cons.prems(1) nth_mem [of n fs] by (fastforce simp: image_iff)
  show ?case
  proof (cases l; cases l')
    fix n assume "l = 0" "l' = Suc n"
    then show ?thesis using Cons.prems apart [of f f' n] by simp
  next
    fix n assume "l = Suc n" "l' = 0"
    then show ?thesis using Cons.prems apart [of f' f n] by simp
  next
    fix n m assume "l = Suc n" "l' = Suc m"
    then show ?thesis using Cons.prems Cons.IH [of n m] by simp
  qed simp
qed simp

lemma mset_concat_mono:
  "list_all2 (\<lambda>a b. mset a \<subseteq># mset b) gs fs \<Longrightarrow> mset (concat gs) \<subseteq># mset (concat fs)"
  by (induction rule: list_all2_induct) (auto intro: subset_mset.add_mono)

lemma distinct_mset_mono:
  assumes "mset xs \<subseteq># mset ys" "distinct ys"
  shows "distinct xs"
  using assms by (metis mset_subset_eq_exists_conv distinct_append ex_mset mset_append mset_eq_imp_distinct_iff)

lemma levels_ok_apply:
  assumes ok: "levels_ok fs" and chk: "check_edit (length fs) (contains_file_in_files fs) (contains_file_any_level_in_files fs) e = Ok ()"
  shows "levels_ok (apply_files e fs)"
proof -
  let ?fs = "fold remove_deleted (deleted_files e) fs"
  have rem: "length ?fs = length fs" "\<And>l. l < length fs \<Longrightarrow> ?fs ! l = filter (\<lambda>f. (l, fm_file_id f) \<notin> set (deleted_files e)) (fs ! l)"
    using fold_remove_deleted by auto
  have lev: "list_all (\<lambda>(level, _). level < length ?fs) (new_files e)"
    using check_edit_levels(1) [OF chk] rem(1) by simp
  have new: "distinct (map (nf_file_id \<circ> snd) (new_files e))"
    "\<And>x. x \<in> set (new_files e) \<Longrightarrow> tp_smallest_key (nf_props (snd x)) \<le> tp_largest_key (nf_props (snd x)) \<and>
       (contains_file_any_level_in_files fs (nf_file_id (snd x)) \<longrightarrow> (\<exists>l. (l, nf_file_id (snd x)) \<in> set (deleted_files e)))"
    using check_new_files_ok [of "length fs" "contains_file_any_level_in_files fs" "deleted_files e" "[]" "new_files e"] chk
    by (auto simp: check_edit_def and_then_eq_Ok list_all_iff split: if_splits)
  have "list_all2 (\<lambda>a b. mset a \<subseteq># mset b) ?fs fs" using rem by (simp add: list_all2_conv_all_nth)
  then have sub: "mset (concat ?fs) \<subseteq># mset (concat fs)" by (rule mset_concat_mono)
  then have old: "distinct (map fm_file_id (concat ?fs))" "list_all (\<lambda>f. fm_smallest f \<le> fm_largest f) (concat ?fs)"
    using ok distinct_mset_mono [of "map fm_file_id (concat ?fs)" "map fm_file_id (concat fs)"] mset_subset_eqD [OF sub]
    by (auto simp: levels_ok_def list_all_iff image_mset_subseteq_mono)
  have apart: "fm_file_id f \<noteq> nf_file_id (snd x)" if f: "f \<in> set (concat ?fs)" and x: "x \<in> set (new_files e)" for f x
  proof
    assume eq: "fm_file_id f = nf_file_id (snd x)"
    obtain l where l: "l < length fs" "f \<in> set (fs ! l)" "(l, fm_file_id f) \<notin> set (deleted_files e)"
      using f [unfolded set_concat_nth] rem by auto
    then have "contains_file_any_level_in_files fs (nf_file_id (snd x))"
      using eq nth_mem [of l fs] by (auto simp: contains_file_any_level_in_files_def list_ex_iff)
    then obtain l' where l': "(l', fm_file_id f) \<in> set (deleted_files e)" using new(2) [OF x] eq by auto
    then have "contains_file_in_files fs l' (fm_file_id f)" using check_edit_levels(3) [OF chk] by (auto simp: list_all_iff)
    then obtain f' where "l' < length fs" "f' \<in> set (fs ! l')" "fm_file_id f' = fm_file_id f"
      by (auto simp: contains_file_in_files_def list_ex_iff split: if_splits)
    then have "l = l'" using distinct_concat_same [of fm_file_id fs l l' f f'] l ok by (simp add: levels_ok_def)
    then show False using l l' by simp
  qed
  have files: "mset (concat (apply_files e fs)) = mset (concat ?fs @ map (from_new_file \<circ> snd) (new_files e))"
    using mset_push_new [OF lev] by (simp add: apply_files_def)
  have "distinct (map fm_file_id (concat ?fs @ map (from_new_file \<circ> snd) (new_files e)))"
    using old(1) new(1) apart unfolding map_append distinct_append by (auto simp: from_new_file_def o_def)
  then have "distinct (map fm_file_id (concat (apply_files e fs)))"
    using files by (metis mset_eq_imp_distinct_iff mset_map)
  moreover have "set (concat (apply_files e fs)) = set (concat ?fs @ map (from_new_file \<circ> snd) (new_files e))"
    using files by (metis set_mset_mset)
  then have "list_all (\<lambda>f. fm_smallest f \<le> fm_largest f) (concat (apply_files e fs))"
    using old(2) new(2) unfolding list_all_iff by (auto simp: from_new_file_def)
  ultimately show ?thesis by (simp add: levels_ok_def)
qed

lemma mset_sort_level_files: "mset (concat (sort_level_files fs)) = mset (concat fs)"
proof (cases fs)
  case (Cons l0 levels)
  have "mset (concat (map (sort_key fm_smallest) levels)) = mset (concat levels)" by (induction levels) simp_all
  then show ?thesis by (simp add: Cons)
qed simp

lemma levels_ok_sort [simp]: "levels_ok (sort_level_files fs) = levels_ok fs"
proof -
  have "distinct (map fm_file_id (concat (sort_level_files fs))) = distinct (map fm_file_id (concat fs))"
    by (rule mset_eq_imp_distinct_iff) (metis mset_map mset_sort_level_files)
  moreover have "set (concat (sort_level_files fs)) = set (concat fs)"
    by (metis mset_sort_level_files set_mset_mset)
  ultimately show ?thesis unfolding levels_ok_def list_all_iff by simp
qed

lemma sort_level_files_idem [simp]: "sort_level_files (sort_level_files fs) = sort_level_files fs"
proof (cases fs)
  case (Cons l0 levels)
  have "sort_key fm_smallest (sort_key fm_smallest l) = sort_key fm_smallest l" for l
    using sort_key_append_sort [of fm_smallest l "[]"] by simp
  then show ?thesis by (simp add: Cons)
qed simp

lemma v_files_from_files [simp]: "v_files (from_files fs s) = fs"
  by (simp add: from_files_def)

subsection \<open>Replaying the manifest\<close>

definition replays :: "VersionSetOptions \<Rightarrow> VersionEdit list \<Rightarrow> VersionSet \<Rightarrow> FileMetadata list list \<Rightarrow> bool" where
  "replays opts es vr fs \<longleftrightarrow>
     replay_edits es (new_with_options opts, replicate (opt_num_levels opts) []) = (Ok (), vr, fs)"

lemma replay_edits_snoc:
  "replay_edits es s = (Ok (), s') \<Longrightarrow> replay_edits (es @ [e]) s =
     (case apply_edit_in_place e s' of (Inl err, t) \<Rightarrow> (Err (error_text err), t) | (Inr u, t) \<Rightarrow> (Ok (), t))"
  by (induction es arbitrary: s) (auto split: prod.splits sum.splits)

lemma replay_edits_snocD:
  "replay_edits (es @ [e]) s = (Ok (), t) \<Longrightarrow> \<exists>s'. replay_edits es s = (Ok (), s') \<and> apply_edit_in_place e s' = (Ok (), t)"
  by (induction es arbitrary: s) (auto split: prod.splits sum.splits)

lemma apply_compact_pointers_length:
  "length (snd (apply_compact_pointers ps cps)) = length cps"
  by (induction ps cps rule: apply_compact_pointers.induct) simp_all

lemma apply_compact_pointers_ok:
  "list_all (\<lambda>(level, _). level < length cps) ps \<Longrightarrow> fst (apply_compact_pointers ps cps) = Ok ()"
  by (induction ps cps rule: apply_compact_pointers.induct) simp_all

lemma apply_numbers_sel [simp]:
  "compact_pointers (apply_numbers e vs) = compact_pointers vs" "vs_options (apply_numbers e vs) = vs_options vs"
  "vs_current (apply_numbers e vs) = vs_current vs" "manifest_writer (apply_numbers e vs) = manifest_writer vs"
  "vs_versions (apply_numbers e vs) = vs_versions vs" "manifest_file_number (apply_numbers e vs) = manifest_file_number vs"
  by (simp_all add: apply_numbers_def)

lemma apply_edit_in_place_Ok:
  assumes "apply_edit_in_place e (vs, fs) = (Ok (), vs', fs')"
  shows "validate_edit_for_files vs e fs = Ok ()" "vs_options vs' = vs_options vs" "fs' = apply_files e fs"
    "vs' = (apply_numbers e vs) \<lparr> compact_pointers := snd (apply_compact_pointers (edit_compact_pointers e) (compact_pointers vs)) \<rparr>"
  using assms by (auto simp: apply_edit_in_place_def Let_def split: sum.splits prod.splits)

lemma replays_facts:
  assumes "replays opts es vr fs"
  shows "length fs = opt_num_levels opts \<and> levels_ok fs \<and> length (compact_pointers vr) = opt_num_levels opts \<and>
    vs_options vr = opts"
  using assms
proof (induction es arbitrary: vr fs rule: rev_induct)
  case Nil
  then show ?case by (auto simp: replays_def new_with_options_def levels_ok_def)
next
  case (snoc e es)
  then obtain vs gs where s: "replays opts es vs gs" "apply_edit_in_place e (vs, gs) = (Ok (), vr, fs)"
    unfolding replays_def using replay_edits_snocD by (metis surj_pair)
  note ih = snoc.IH [OF s(1)] and a = apply_edit_in_place_Ok [OF s(2)]
  have chk: "check_edit (length gs) (contains_file_in_files gs) (contains_file_any_level_in_files gs) e = Ok ()"
    using a(1) ih by (simp add: validate_edit_for_files_def)
  show ?case
    using ih a apply_files_nth(1) [OF check_edit_levels(1) [OF chk]] levels_ok_apply [OF _ chk]
    by (simp add: apply_compact_pointers_length)
qed

subsection \<open>The snapshot edit\<close>

lemma filter_all_files:
  "filter (\<lambda>x. fst x = l) (concat (map (\<lambda>(level, fs). map (Pair level) fs) (enumerate k fss))) =
     (if k \<le> l \<and> l < k + length fss then map (Pair l) (fss ! (l - k)) else [])"
proof (induction fss arbitrary: k)
  case (Cons fs fss)
  have "filter (\<lambda>x. fst x = l) (map (Pair k) fs) = (if k = l then map (Pair l) fs else [])"
    by (induction fs) auto
  then show ?case using Cons [of "Suc k"] by (auto simp: nth_Cons' Suc_le_eq)
qed auto

abbreviation as_new_file :: "nat \<times> FileMetadata \<Rightarrow> nat \<times> NewFile" where
  "as_new_file \<equiv> \<lambda>(level, f). (level, \<lparr> nf_file_id = fm_file_id f, nf_props = fm_props f \<rparr>)"

lemma added_snapshot:
  assumes "l < length (v_files v)"
  shows "added l (map as_new_file (all_files v)) = v_files v ! l"
proof -
  have "added l (map as_new_file xs) = map snd (filter (\<lambda>x. fst x = l) xs)" for xs
    by (induction xs) (auto simp: added_def from_new_file_def)
  then show ?thesis
    using assms filter_all_files [of l 0 "v_files v"] by (simp add: all_files_def o_def)
qed

lemma all_files_level: "(l, f) \<in> set (all_files v) \<Longrightarrow> l < length (v_files v) \<and> f \<in> set (concat (v_files v))"
  by (auto simp: all_files_def in_set_enumerate_eq)

lemma snd_all_files: "map snd (all_files v) = concat (v_files v)"
proof -
  have "map snd (concat (map (\<lambda>(level, fs). map (Pair level) fs) (enumerate k fss))) = concat fss"
    for k and fss :: "FileMetadata list list"
    by (induction fss arbitrary: k) (simp_all add: o_def)
  then show ?thesis by (simp add: all_files_def)
qed

lemma check_new_files_fresh:
  assumes "distinct (map (nf_file_id \<circ> snd) nfs)" "set (map (nf_file_id \<circ> snd) nfs) \<inter> set seen = {}"
    and "\<And>x. x \<in> set nfs \<Longrightarrow> fst x < n \<and> \<not> has_any (nf_file_id (snd x)) \<and>
      tp_smallest_key (nf_props (snd x)) \<le> tp_largest_key (nf_props (snd x))"
  shows "check_new_files n has_any ds seen nfs = Ok ()"
  using assms
proof (induction nfs arbitrary: seen)
  case (Cons x nfs)
  obtain l nf where x: "x = (l, nf)" by (cases x)
  show ?case using Cons.prems(3) [of x] Cons.prems(1,2) Cons.IH [of "nf_file_id nf # seen"] Cons.prems(3)
    by (auto simp: x not_less [symmetric])
qed simp

lemma apply_pointer_list:
  "apply_compact_pointers (List.map_filter (\<lambda>(level, key). map_option (\<lambda>k. (level, k)) key) (enumerate (length pre) cps))
     (pre @ replicate (length cps) None) = (Ok (), pre @ cps)"
proof (induction cps arbitrary: pre)
  case (Cons c cps)
  show ?case using Cons [of "pre @ [c]"] by (cases c) (simp_all add: List.map_filter_simps)
qed (simp add: List.map_filter_simps)

lemma pointer_list_levels: "(l, k) \<in> set (pointer_list cps) \<Longrightarrow> l < length cps"
  by (auto simp: pointer_list_def List.map_filter_def in_set_enumerate_eq)

lemma replays_snapshot:
  assumes "levels_ok (v_files (vs_current vs))" "length (v_files (vs_current vs)) = opt_num_levels opts"
    "length (compact_pointers vs) = opt_num_levels opts"
  shows "\<exists>vr. replays opts [build_snapshot_edit vs] vr (v_files (vs_current vs)) \<and>
    vs_log_number vr = vs_log_number vs \<and> vs_last_sequence vr = vs_last_sequence vs \<and>
    compact_pointers vr = compact_pointers vs"
proof -
  let ?v = "vs_current vs" and ?n = "opt_num_levels opts" and ?e = "build_snapshot_edit vs"
  let ?fs = "replicate ?n [] :: FileMetadata list list"
  have none: "contains_file_any_level_in_files ?fs i = False" for i
    by (simp add: contains_file_any_level_in_files_def list_ex_iff)
  have "check_new_files ?n (contains_file_any_level_in_files ?fs) [] [] (new_files ?e) = Ok ()"
  proof (rule check_new_files_fresh)
    have "map (nf_file_id \<circ> snd) (new_files ?e) = map fm_file_id (map snd (all_files ?v))"
      by (simp add: build_snapshot_edit_def split_beta)
    then show "distinct (map (nf_file_id \<circ> snd) (new_files ?e))"
      using assms(1) by (simp only: snd_all_files levels_ok_def)
  qed (use assms in \<open>auto simp: none build_snapshot_edit_def levels_ok_def list_all_iff dest!: all_files_level\<close>)
  then have valid: "validate_edit_for_files (new_with_options opts) ?e ?fs = Ok ()"
    using assms(3) by (auto simp: validate_edit_for_files_def check_edit_def new_with_options_def build_snapshot_edit_def
        list_ex_iff dest!: pointer_list_levels)
  have lev: "list_all (\<lambda>(level, _). level < length ?fs) (new_files ?e)"
    using assms(2) by (auto simp: build_snapshot_edit_def list_all_iff dest!: all_files_level)
  have "apply_files ?e ?fs = v_files ?v"
  proof (rule nth_equalityI)
    show "length (apply_files ?e ?fs) = length (v_files ?v)" using assms(2) by (simp add: apply_files_nth(1) [OF lev])
    fix l assume "l < length (apply_files ?e ?fs)"
    then have l: "l < ?n" by (simp add: apply_files_nth(1) [OF lev])
    then show "apply_files ?e ?fs ! l = v_files ?v ! l"
      using apply_files_nth(2) [OF lev, of l] added_snapshot [of l ?v] assms(2)
      by (simp add: next_level_def build_snapshot_edit_def)
  qed
  moreover have "apply_compact_pointers (edit_compact_pointers ?e) (replicate ?n None) = (Ok (), compact_pointers vs)"
    using apply_pointer_list [of "[]" "compact_pointers vs"] assms(3) by (simp add: build_snapshot_edit_def pointer_list_def)
  moreover have "validate_manifest_format_version ?e = Ok ()"
    by (simp add: validate_manifest_format_version_def build_snapshot_edit_def)
  ultimately have "apply_edit_in_place ?e (new_with_options opts, ?fs) =
      (Ok (), (apply_numbers ?e (new_with_options opts)) \<lparr> compact_pointers := compact_pointers vs \<rparr>, v_files ?v)"
    using valid by (simp add: apply_edit_in_place_def new_with_options_def)
  then show ?thesis by (simp add: replays_def apply_numbers_def build_snapshot_edit_def)
qed

subsection \<open>The name in CURRENT\<close>

lemma utf8_valid_ascii: "list_all (\<lambda>b. b \<le> 0x7F) bs \<Longrightarrow> length bs \<le> fuel \<Longrightarrow> utf8_valid fuel bs"
proof (induction fuel bs rule: utf8_valid.induct)
  case (3 fuel b bs)
  then have "utf8_step b bs = (True, 1)" by (simp add: utf8_step_def utf8_width_def)
  then show ?case using 3 by simp
qed simp_all

lemma digit_cases: "is_digit b \<Longrightarrow> b \<in> {48, 49, 50, 51, 52, 53, 54, 55, 56, 57}"
proof -
  assume "is_digit b"
  then have "unat b \<in> {48..57}" by (simp add: is_digit_def word_le_nat_alt)
  then have "unat b \<in> set (map unat [48 :: u8, 49, 50, 51, 52, 53, 54, 55, 56, 57])" by simp presburger
  then show ?thesis by (auto simp: word_unat_eq_iff)
qed

lemma strip_start_none: "strip_char chars bs = None \<Longrightarrow> strip_start chars bs = bs"
  by (subst strip_start.simps) simp

lemma strip_char_other: "list_all (\<lambda>c. c \<noteq> [] \<and> hd c \<noteq> b) chars \<Longrightarrow> strip_char chars (b # bs) = None"
proof -
  assume other: "list_all (\<lambda>c. c \<noteq> [] \<and> hd c \<noteq> b) chars"
  have "take (length c) (b # bs) \<noteq> c" if "c \<in> set chars" for c
    using other that by (cases c) (auto simp: list_all_iff)
  then have "find (\<lambda>c. take (length c) (b # bs) = c) chars = None" by (auto simp: find_None_iff)
  then show ?thesis by (simp add: strip_char_def)
qed

lemma manifest_name_last: "\<exists>ds d. manifest_name n = manifest_prefix @ ds @ [d] \<and> is_digit d \<and> list_all is_digit ds"
proof -
  obtain ds d where "dec (unat n) = ds @ [d]" using dec_digits [of "unat n"] by (cases "dec (unat n)" rule: rev_cases) auto
  then show ?thesis using dec_digits [of "unat n"] by (auto simp: manifest_name_def)
qed

lemma manifest_prefix_val: "manifest_prefix = [77, 65, 78, 73, 70, 69, 83, 84, 45]"
  by (simp add: manifest_prefix_def str_def)

lemma trim_manifest_name [simp]: "trim (manifest_name n) = manifest_name n"
proof -
  obtain ds d where n: "manifest_name n = manifest_prefix @ ds @ [d]" "is_digit d" using manifest_name_last by blast
  have "strip_char ws_chars (manifest_name n) = None"
    unfolding n(1) manifest_prefix_val append_Cons
    by (rule strip_char_other) (simp add: ws_chars_def)
  moreover have "strip_char (map rev ws_chars) (rev (manifest_name n)) = None"
    unfolding n(1) rev_append rev.simps append_Nil append_Cons
    by (rule strip_char_other) (use digit_cases [OF n(2)] in \<open>simp add: ws_chars_def; elim disjE; simp\<close>)
  ultimately show ?thesis by (simp add: trim_def strip_start_none)
qed

lemma utf8_manifest_name [simp]: "utf8_valid (length (manifest_name n)) (manifest_name n)"
proof (rule utf8_valid_ascii)
  obtain ds d where n: "manifest_name n = manifest_prefix @ ds @ [d]" "list_all is_digit (ds @ [d])"
    using manifest_name_last by fastforce
  have "is_digit b \<Longrightarrow> b \<le> 0x7F" for b unfolding is_digit_def by (erule conjE, erule order_trans) simp
  then show "list_all (\<lambda>b. b \<le> 0x7F) (manifest_name n)"
    using n(2) by (auto simp: n(1) manifest_prefix_val list_all_iff)
qed simp

lemma parse_manifest_number_name [simp]: "parse_manifest_number (manifest_name n) = Some n"
  using parse_manifest_name [of n] by (auto simp: parse_manifest_number_def split: option.splits)

lemma manifest_name_0: "INIT_MANIFEST_FILE_NAME = manifest_name 0"
  by (simp add: INIT_MANIFEST_FILE_NAME_def manifest_name_def manifest_prefix_def str_def dec.simps)

lemma manifest_name_nonempty [simp]: "manifest_name n \<noteq> []"
  by (simp add: manifest_name_def manifest_prefix_val)

lemma resolve_current:
  assumes "dir_current d = Some (manifest_name n)" "map_of (dir_files d) (manifest_name n) \<noteq> None"
  shows "resolve_manifest all_ok d = (Ok (manifest_name n), d)"
  using assms by (simp add: resolve_manifest_def read_current_def is_manifest_name_valid_def)

lemma resolve_empty:
  assumes "dir_current d = None" "dir_files d = []"
  shows "resolve_manifest all_ok d = (Ok (manifest_name 0), d \<lparr> dir_current := Some (manifest_name 0), dir_tmp := None,
     dir_files := [(manifest_name 0, [])] \<rparr>)"
  using assms
  by (cases d) (simp add: resolve_manifest_def read_current_def fall_back_manifest_def find_latest_manifest_def
      create_initial_manifest_def manifest_create_def write_current_def manifest_name_0 is_manifest_name_valid_def
      dir_put_def)

subsection \<open>The invariant\<close>

definition same_state :: "VersionSet \<Rightarrow> VersionSet \<Rightarrow> bool" where
  "same_state a b \<longleftrightarrow> vs_log_number a = vs_log_number b \<and> vs_last_sequence a = vs_last_sequence b \<and>
     compact_pointers a = compact_pointers b"

text \<open>
  The manifest that \<open>CURRENT\<close> names holds edits whose replay gives the state of the version set.
\<close>

definition vs_inv :: "VersionSetOptions \<Rightarrow> VersionSet \<Rightarrow> ManifestDir \<Rightarrow> bool" where
  "vs_inv opts vs d \<longleftrightarrow> vs_options vs = opts \<and>
     (\<exists>w es vr fs. manifest_writer vs = Some w \<and> mw_buf w = [] \<and> mw_name w = manifest_name (manifest_file_number vs) \<and>
        dir_current d = Some (mw_name w) \<and> map_of (dir_files d) (mw_name w) = Some (manifest_bytes es) \<and>
        list_all recordable es \<and> replays opts es vr fs \<and> same_state vr vs \<and>
        vs_current vs = from_files (sort_level_files fs) (vs_last_sequence vs))"

lemma map_of_dir_put [simp]: "map_of (dir_files (dir_put name bs d)) = (map_of (dir_files d))(name \<mapsto> bs)"
  by (simp add: dir_put_def update_conv')

lemma dir_content_Some: "map_of (dir_files d) name = Some bs \<Longrightarrow> dir_content d name = bs"
  by (simp add: dir_content_def)

lemma read_all_edits_whole:
  assumes "list_all recordable es"
  shows "\<exists>r. read_all_edits all_ok (reader_at (manifest_bytes es)) = (Ok es, r) \<and> mr_file r = manifest_bytes es"
  using read_all_edits_torn [OF assms refl, of "length (manifest_bytes es)"]
  by (simp add: whole_edits_all)

lemma ensure_next_sel [simp]:
  "vs_current (ensure_next_file_number vs) = vs_current vs" "same_state (ensure_next_file_number vs) x = same_state vs x"
  "vs_options (ensure_next_file_number vs) = vs_options vs" "vs_last_sequence (ensure_next_file_number vs) = vs_last_sequence vs"
  "same_state x (ensure_next_file_number vs) = same_state x vs"
  by (simp_all add: ensure_next_file_number_def same_state_def Let_def)

text \<open>Recovery from a manifest of whole edits.\<close>

lemma recover_whole:
  assumes "resolve_manifest all_ok d = (Ok (manifest_name n), d')"
    and "map_of (dir_files d') (manifest_name n) = Some (manifest_bytes es)" "dir_current d' = Some (manifest_name n)"
    and "list_all recordable es" "replays opts es vr fs"
  shows "\<exists>vs d''. recover_manifest all_ok (new_with_options opts) d = (Ok (), vs, d'') \<and> vs_inv opts vs d'' \<and>
     vs_current vs = from_files (sort_level_files fs) (vs_last_sequence vr) \<and> same_state vs vr \<and>
     vs_next_file_number vs = vs_next_file_number (ensure_next_file_number
       (vr \<lparr> vs_current := from_files (sort_level_files fs) (vs_last_sequence vr) \<rparr>))"
proof -
  let ?vs = "ensure_next_file_number (vr \<lparr> vs_current := from_files (sort_level_files fs) (vs_last_sequence vr) \<rparr>)"
  obtain r where r: "read_all_edits all_ok (reader_at (manifest_bytes es)) = (Ok es, r)" "mr_file r = manifest_bytes es"
    using read_all_edits_whole [OF assms(4)] by blast
  have "new_with_options opts \<lparr> vs_versions := [] \<rparr> = new_with_options opts"
    by (simp add: new_with_options_def)
  then have rep: "apply_edits_for_recovery es (new_with_options opts) =
      (Ok (), vr \<lparr> vs_current := from_files (sort_level_files fs) (vs_last_sequence vr) \<rparr>)"
    using assms(5) by (simp add: apply_edits_for_recovery_def replays_def new_with_options_def new_Version_def)
  have opts: "vs_options vr = opts" using replays_facts [OF assms(5)] by simp
  obtain w where w: "open_for_append all_ok (manifest_name n) n (dir_put (manifest_name n) (manifest_bytes es) d')
      = (Ok w, dir_put (manifest_name n) (manifest_bytes es) d')" "mw_name w = manifest_name n" "mw_buf w = []"
    by (simp add: open_for_append_def dir_append_def)
  let ?v = "?vs \<lparr> manifest_writer := Some w, manifest_file_number := n, manifest_edit_count := length es \<rparr>"
  have "recover_manifest all_ok (new_with_options opts) d = (Ok (), ?v, dir_put (manifest_name n) (manifest_bytes es) d')"
    by (simp add: recover_manifest_def assms(1) new_ManifestReader_def dir_content_Some [OF assms(2)] r rep w Let_def)
  moreover have "vs_inv opts ?v (dir_put (manifest_name n) (manifest_bytes es) d')"
    unfolding vs_inv_def using assms w opts by (auto simp: same_state_def ensure_next_file_number_def Let_def)
  moreover have "same_state ?v vr" by (simp add: same_state_def ensure_next_file_number_def Let_def)
  ultimately show ?thesis by auto
qed

lemma same_state_trans: "same_state a b \<Longrightarrow> same_state b c \<Longrightarrow> same_state a c"
  by (simp add: same_state_def)

lemma manifest_sync_ok: "mw_buf w = [] \<Longrightarrow> manifest_sync all_ok w d = (Ok (), w, d)"
  by (simp add: manifest_sync_def flush_buf_def)

lemma append_old_sel [simp]:
  "vs_current (append_old_version v vs) = vs_current vs" "manifest_writer (append_old_version v vs) = manifest_writer vs"
  "manifest_file_number (append_old_version v vs) = manifest_file_number vs" "vs_options (append_old_version v vs) = vs_options vs"
  "vs_last_sequence (append_old_version v vs) = vs_last_sequence vs" "same_state x (append_old_version v vs) = same_state x vs"
  "compact_pointers (append_old_version v vs) = compact_pointers vs" "vs_log_number (append_old_version v vs) = vs_log_number vs"
  by (simp_all add: append_old_version_def enqueue_obsolete_files_def Let_def same_state_def)

text \<open>An edit that the version set accepts, on the manifest and in memory.\<close>

lemma install_edit_inv:
  assumes inv: "vs_inv opts vs d" and fmt: "validate_manifest_format_version e = Ok ()" and val: "validate_edit vs e = Ok ()"
    and rec: "recordable e" and w: "manifest_writer vs = Some w"
  shows "\<exists>vs'. install_edit e (vs \<lparr> manifest_writer := Some (w \<lparr> mw_current_size := n \<rparr>), manifest_edit_count := k \<rparr>) = (Ok (), vs') \<and>
     vs_inv opts vs' (dir_append (mw_name w) (edit_record e) d)"
proof -
  let ?vs = "vs \<lparr> manifest_writer := Some (w \<lparr> mw_current_size := n \<rparr>), manifest_edit_count := k \<rparr>"
  obtain es vr fs where i: "vs_options vs = opts" "mw_buf w = []" "mw_name w = manifest_name (manifest_file_number vs)"
      "dir_current d = Some (mw_name w)" "map_of (dir_files d) (mw_name w) = Some (manifest_bytes es)"
      "list_all recordable es" "replays opts es vr fs" "same_state vr vs"
      "vs_current vs = from_files (sort_level_files fs) (vs_last_sequence vs)"
    using inv w by (auto simp: vs_inv_def)
  note f = replays_facts [OF i(7)]
  have files: "v_files (vs_current vs) = sort_level_files fs" by (simp add: i(9) from_files_def)
  have val': "validate_edit_for_files vr e fs = Ok ()"
    using val f i(1) by (simp add: validate_edit_def validate_edit_for_files_def contains_current files)
  note lev = check_edit_levels(1,2) [OF val' [unfolded validate_edit_for_files_def]]
  have "fst (apply_compact_pointers (edit_compact_pointers e) (compact_pointers vs)) = Ok ()"
    using lev(2) f i(8) by (intro apply_compact_pointers_ok) (simp add: same_state_def)
  then obtain cps where ap: "apply_compact_pointers (edit_compact_pointers e) (compact_pointers vs) = (Ok (), cps)"
    by (cases "apply_compact_pointers (edit_compact_pointers e) (compact_pointers vs)") auto
  have eqs: "compact_pointers vr = compact_pointers vs" using i(8) by (simp add: same_state_def)
  have rep: "replays opts (es @ [e]) (apply_numbers e vr \<lparr> compact_pointers := cps \<rparr>) (apply_files e fs)"
    using replay_edits_snoc [OF i(7) [unfolded replays_def], of e]
    by (simp add: replays_def apply_edit_in_place_def fmt val' eqs ap)
  let ?new = "apply_numbers e ?vs \<lparr> compact_pointers := cps \<rparr>"
  let ?v = "append_old_version (vs_current vs) (?new \<lparr> vs_current := create_new_version ?new e \<rparr>)"
  have ins: "install_edit e ?vs = (Ok (), ?v)" by (simp add: install_edit_def Let_def ap)
  have cur: "create_new_version ?new e = from_files (sort_level_files (apply_files e fs)) (vs_last_sequence ?new)"
    using sort_apply_files [of fs e] lev(1) f by (simp add: create_new_version_def files)
  have same: "same_state (apply_numbers e vr \<lparr> compact_pointers := cps \<rparr>) ?new"
    using i(8) by (simp add: same_state_def apply_numbers_def split: option.splits)
  have dir: "map_of (dir_files (dir_append (mw_name w) (edit_record e) d)) (mw_name w) = Some (manifest_bytes (es @ [e]))"
    using i(5) by (simp add: dir_append_def dir_content_Some)
  have recs: "list_all recordable (es @ [e])" using i(6) rec by simp
  let ?w = "w \<lparr> mw_current_size := n \<rparr>"
  have "vs_inv opts ?v (dir_append (mw_name w) (edit_record e) d)"
    unfolding vs_inv_def
  proof (intro conjI exI)
    show "vs_options ?v = opts" using i(1) by simp
    show "manifest_writer ?v = Some ?w" by simp
    show "mw_buf ?w = []" using i(2) by simp
    show "mw_name ?w = manifest_name (manifest_file_number ?v)" using i(3) by simp
    show "dir_current (dir_append (mw_name w) (edit_record e) d) = Some (mw_name ?w)" using i(4) by (simp add: dir_append_def)
    show "map_of (dir_files (dir_append (mw_name w) (edit_record e) d)) (mw_name ?w) = Some (manifest_bytes (es @ [e]))"
      using dir by simp
    show "list_all recordable (es @ [e])" by (rule recs)
    show "replays opts (es @ [e]) (apply_numbers e vr \<lparr> compact_pointers := cps \<rparr>) (apply_files e fs)" by (rule rep)
    show "same_state (apply_numbers e vr \<lparr> compact_pointers := cps \<rparr>) ?v" using same by (simp add: same_state_def)
    show "vs_current ?v = from_files (sort_level_files (apply_files e fs)) (vs_last_sequence ?v)" using cur by simp
  qed
  then show ?thesis using ins by blast
qed

lemma maybe_rewrite_ok:
  fixes vs d
  defines "n \<equiv> sat_incr (manifest_file_number vs)" and "e \<equiv> build_snapshot_edit vs"
  assumes "should_rewrite_manifest vs"
  shows "maybe_rewrite_manifest all_ok vs d = (Ok (),
     vs \<lparr> manifest_writer := Some \<lparr> mw_name = manifest_name n, mw_buf = [], mw_file_number = n,
          mw_current_size = of_nat (length (edit_record e)) \<rparr>, manifest_file_number := n, manifest_edit_count := 1 \<rparr>,
     (dir_put (manifest_name n) (edit_record e) d) \<lparr> dir_tmp := None, dir_current := Some (manifest_name n) \<rparr>)"
  using assms by (simp add: maybe_rewrite_manifest_def Let_def manifest_create_def open_for_append_def append_edit_ok
      manifest_sync_ok write_current_def dir_append_def)

lemma install_edit_fst:
  "fst (install_edit e vs) = fst (apply_compact_pointers (edit_compact_pointers e) (compact_pointers vs))"
  by (auto simp: install_edit_def Let_def split: prod.splits sum.splits)

lemma install_edit_number: "manifest_file_number (snd (install_edit e vs)) = manifest_file_number vs"
  by (auto simp: install_edit_def Let_def split: prod.splits sum.splits)

lemma install_edit_ok:
  assumes "validate_edit_for_files vr e fs = Ok ()" "replays opts es vr fs" "same_state vr vs"
  shows "fst (apply_compact_pointers (edit_compact_pointers e) (compact_pointers vs)) = Ok ()"
  using check_edit_levels(2) [OF assms(1) [unfolded validate_edit_for_files_def]] replays_facts [OF assms(2)] assms(3)
  by (intro apply_compact_pointers_ok) (simp add: same_state_def)

lemma maybe_rewrite_inv:
  assumes inv: "vs_inv opts vs d" and rec: "recordable (build_snapshot_edit vs)"
  shows "\<exists>vs' d'. maybe_rewrite_manifest all_ok vs d = (Ok (), vs', d') \<and> vs_inv opts vs' d' \<and>
     vs_current vs' = vs_current vs \<and> same_state vs' vs"
proof (cases "should_rewrite_manifest vs")
  case True
  let ?n = "sat_incr (manifest_file_number vs)" and ?e = "build_snapshot_edit vs"
  obtain es vr fs where i: "vs_options vs = opts" "replays opts es vr fs" "same_state vr vs"
      "vs_current vs = from_files (sort_level_files fs) (vs_last_sequence vs)"
    using inv by (auto simp: vs_inv_def)
  have files: "v_files (vs_current vs) = sort_level_files fs" by (simp add: i(4) from_files_def)
  obtain vr' where vr': "replays opts [?e] vr' (v_files (vs_current vs))" "same_state vr' vs"
    using replays_snapshot [of vs opts] replays_facts [OF i(2)] i(3)
    by (auto simp: files sort_level_files_nth(1) same_state_def)
  let ?w = "\<lparr> mw_name = manifest_name ?n, mw_buf = [], mw_file_number = ?n, mw_current_size = of_nat (length (edit_record ?e)) \<rparr>"
  let ?vs = "vs \<lparr> manifest_writer := Some ?w, manifest_file_number := ?n, manifest_edit_count := 1 \<rparr>"
  let ?d = "(dir_put (manifest_name ?n) (edit_record ?e) d) \<lparr> dir_tmp := None, dir_current := Some (manifest_name ?n) \<rparr>"
  have "maybe_rewrite_manifest all_ok vs d = (Ok (), ?vs, ?d)"
    using True by (rule maybe_rewrite_ok)
  moreover have "vs_inv opts ?vs ?d"
    using vr' i rec unfolding vs_inv_def
    by (intro conjI exI [of _ ?w] exI [of _ "[?e]"] exI [of _ vr'] exI [of _ "v_files (vs_current vs)"])
      (simp_all add: same_state_def files)
  ultimately show ?thesis by (auto simp: same_state_def)
qed (use assms in \<open>simp add: maybe_rewrite_manifest_def same_state_def\<close>)

definition edit_fits :: "VersionEdit \<Rightarrow> VersionSet \<Rightarrow> bool" where
  "edit_fits e vs \<longleftrightarrow> recordable (stamp_format e) \<and> recordable (build_snapshot_edit (snd (install_edit (stamp_format e) vs)))"

lemma build_snapshot_cong:
  "vs_current a = vs_current b \<Longrightarrow> same_state a b \<Longrightarrow> vs_next_file_number a = vs_next_file_number b \<Longrightarrow>
     build_snapshot_edit a = build_snapshot_edit b"
  by (simp add: build_snapshot_edit_def same_state_def)

lemma install_edit_irrelevant:
  "build_snapshot_edit (snd (install_edit e (vs \<lparr> manifest_writer := w, manifest_edit_count := k \<rparr>))) =
     build_snapshot_edit (snd (install_edit e vs))"
  by (rule build_snapshot_cong)
    (auto simp: install_edit_def apply_numbers_def create_new_version_def append_old_version_def enqueue_obsolete_files_def
      same_state_def Let_def split: prod.splits sum.splits option.splits)

lemma apply_edit_inv:
  assumes inv: "vs_inv opts vs d" and fits: "edit_fits e vs"
  shows "case apply_edit all_ok all_ok e vs d of (res, vs', d') \<Rightarrow> vs_inv opts vs' d' \<and>
     (res = Ok () \<longleftrightarrow> validate_manifest_format_version (stamp_format e) = Ok () \<and> validate_edit vs (stamp_format e) = Ok ()) \<and>
     (res \<noteq> Ok () \<longrightarrow> vs' = vs \<and> d' = d)"
proof -
  let ?e = "stamp_format e"
  obtain w where w: "manifest_writer vs = Some w" "mw_buf w = []" using inv by (auto simp: vs_inv_def)
  show ?thesis
  proof (cases "validate_manifest_format_version ?e = Ok () \<and> validate_edit vs ?e = Ok ()")
    case True
    let ?w = "w \<lparr> mw_current_size := mw_current_size w + of_nat (length (edit_record ?e)) \<rparr>"
    let ?vs = "vs \<lparr> manifest_writer := Some ?w, manifest_edit_count := min (manifest_edit_count vs + 1) (2 ^ 64 - 1) \<rparr>"
    obtain vs' where v: "install_edit ?e ?vs = (Ok (), vs')" "vs_inv opts vs' (dir_append (mw_name w) (edit_record ?e) d)"
      using install_edit_inv [OF inv _ _ _ w(1), of ?e] True fits by (auto simp: edit_fits_def)
    have "recordable (build_snapshot_edit vs')"
      using fits install_edit_irrelevant [where e = ?e and vs = vs and w = "Some ?w" and k = "min (manifest_edit_count vs + 1) (2 ^ 64 - 1)"]
      unfolding v(1) by (simp add: edit_fits_def)
    from maybe_rewrite_inv [OF v(2) this] True w v(1) show ?thesis
      by (auto simp: apply_edit_def append_edit_ok manifest_sync_ok Let_def)
  next
    case False
    then show ?thesis using inv by (auto simp: apply_edit_def Let_def split: sum.splits)
  qed
qed

lemma allocate_inv: "vs_inv opts vs d \<Longrightarrow> vs_inv opts (snd (allocate_file_number vs)) d"
  by (auto simp: vs_inv_def allocate_file_number_def same_state_def)

lemma fold_max_ge: "a \<in> set xs \<or> a \<le> m \<Longrightarrow> a \<le> fold max xs (m :: u64)"
proof (induction xs arbitrary: m)
  case (Cons x xs)
  have "a \<in> set xs \<or> a \<le> max x m" using Cons.prems by (auto simp: le_max_iff_disj)
  from Cons.IH [OF this] show ?case by simp
qed simp

lemma fold_max_in: "fold max xs (m :: u64) \<in> insert m (set xs)"
  by (induction xs arbitrary: m) (auto simp: max_def)

lemma next_file_fresh:
  assumes "- 1 \<notin> fm_file_id ` set (concat (v_files (vs_current vs)))" "f \<in> set (concat (v_files (vs_current vs)))"
  shows "fm_file_id f < vs_next_file_number (ensure_next_file_number vs)"
proof -
  let ?m = "fold max (all_file_ids (vs_current vs)) 0"
  have le: "fm_file_id f \<le> ?m" using assms(2) by (intro fold_max_ge) (auto simp: all_file_ids_def)
  have "set (all_file_ids (vs_current vs)) = fm_file_id ` set (concat (v_files (vs_current vs)))"
    by (auto simp: all_file_ids_def)
  then have "- 1 \<notin> set (all_file_ids (vs_current vs))" using assms(1) by simp
  then have "?m \<noteq> - 1" using fold_max_in [of "all_file_ids (vs_current vs)" 0] by (metis insert_iff one_neq_zero neg_equal_0_iff_equal)
  then have "?m < ?m + 1" by (simp add: word_less_nat_alt unat_incr)
  with le have "fm_file_id f < ?m + 1" by (rule le_less_trans)
  moreover have "vs_next_file_number (ensure_next_file_number vs) = (if vs_next_file_number vs \<le> ?m then ?m + 1 else vs_next_file_number vs)"
    by (simp add: ensure_next_file_number_def Let_def)
  ultimately show ?thesis using le by (auto simp: not_le intro: le_less_trans)
qed

lemma reopen_inv:
  assumes "vs_inv opts vs d"
  shows "\<exists>vs' d'. recover_manifest all_ok (new_with_options opts) d = (Ok (), vs', d') \<and> vs_inv opts vs' d' \<and>
     vs_current vs' = vs_current vs \<and> same_state vs' vs \<and>
     (- 1 \<notin> fm_file_id ` set (concat (v_files (vs_current vs))) \<longrightarrow>
       (\<forall>f\<in>set (concat (v_files (vs_current vs))). fm_file_id f < vs_next_file_number vs'))"
proof -
  obtain w es vr fs where i: "manifest_writer vs = Some w" "mw_name w = manifest_name (manifest_file_number vs)"
      "dir_current d = Some (mw_name w)" "map_of (dir_files d) (mw_name w) = Some (manifest_bytes es)"
      "list_all recordable es" "replays opts es vr fs" "same_state vr vs"
      "vs_current vs = from_files (sort_level_files fs) (vs_last_sequence vs)"
    using assms by (auto simp: vs_inv_def)
  have res: "resolve_manifest all_ok d = (Ok (manifest_name (manifest_file_number vs)), d)"
    by (rule resolve_current) (use i(2-4) in simp_all)
  have cur: "from_files (sort_level_files fs) (vs_last_sequence vr) = vs_current vs"
    using i(7,8) by (simp add: same_state_def)
  obtain vs' d' where v: "recover_manifest all_ok (new_with_options opts) d = (Ok (), vs', d')" "vs_inv opts vs' d'"
      "vs_current vs' = vs_current vs" "same_state vs' vr"
      "vs_next_file_number vs' = vs_next_file_number (ensure_next_file_number (vr \<lparr> vs_current := vs_current vs \<rparr>))"
    using recover_whole [OF res i(4,3) [unfolded i(2)] i(5,6)] unfolding cur by blast
  show ?thesis
    using v same_state_trans [OF v(4) i(7)] next_file_fresh [of "vr \<lparr> vs_current := vs_current vs \<rparr>"]
    by (intro exI [of _ vs'] exI [of _ d']) auto
qed

section \<open>Histories of a version set\<close>

datatype vs_op = ApplyEdit VersionEdit | AllocFile | Reopen

definition empty_dir :: ManifestDir where
  "empty_dir = \<lparr> dir_current = None, dir_tmp = None, dir_files = [] \<rparr>"

definition vs_start :: "VersionSetOptions \<Rightarrow> VersionSet \<times> ManifestDir" where
  "vs_start opts = snd (recover_manifest all_ok (new_with_options opts) empty_dir)"

fun vs_step :: "vs_op \<Rightarrow> VersionSet \<times> ManifestDir \<Rightarrow> VersionSet \<times> ManifestDir" where
  "vs_step (ApplyEdit e) (vs, d) = snd (apply_edit all_ok all_ok e vs d)"
| "vs_step AllocFile (vs, d) = (snd (allocate_file_number vs), d)"
| "vs_step Reopen (vs, d) = snd (recover_manifest all_ok (new_with_options (vs_options vs)) d)"

text \<open>Every edit, and the snapshot after it, has an encoding of less than \<open>2 ^ 63\<close> bytes.\<close>

fun ops_fit :: "vs_op list \<Rightarrow> VersionSet \<times> ManifestDir \<Rightarrow> bool" where
  "ops_fit [] s \<longleftrightarrow> True"
| "ops_fit (op # ops) s \<longleftrightarrow> (case op of ApplyEdit e \<Rightarrow> edit_fits e (fst s) | _ \<Rightarrow> True) \<and> ops_fit ops (vs_step op s)"

lemma replays_Nil: "replays opts [] (new_with_options opts) (replicate (opt_num_levels opts) [])"
  by (simp add: replays_def)

lemma vs_start_inv: "vs_inv opts (fst (vs_start opts)) (snd (vs_start opts))"
proof -
  have "resolve_manifest all_ok empty_dir = (Ok (manifest_name 0),
      empty_dir \<lparr> dir_current := Some (manifest_name 0), dir_tmp := None, dir_files := [(manifest_name 0, [])] \<rparr>)"
    by (rule resolve_empty) (simp_all add: empty_dir_def)
  from recover_whole [OF this _ _ _ replays_Nil [of opts]] show ?thesis by (auto simp: vs_start_def)
qed

lemma vs_step_inv:
  assumes "vs_inv opts (fst s) (snd s)" "case op of ApplyEdit e \<Rightarrow> edit_fits e (fst s) | _ \<Rightarrow> True"
  shows "vs_inv opts (fst (vs_step op s)) (snd (vs_step op s))"
proof (cases op)
  case (ApplyEdit e)
  then show ?thesis using apply_edit_inv [OF assms(1), of e] assms(2) by (cases s) (auto split: prod.splits)
next
  case AllocFile
  then show ?thesis using allocate_inv [OF assms(1)] by (cases s) simp
next
  case Reopen
  have "vs_options (fst s) = opts" using assms(1) by (simp add: vs_inv_def)
  then show ?thesis using reopen_inv [OF assms(1)] Reopen by (cases s) auto
qed

lemma vs_run_inv:
  "vs_inv opts (fst s) (snd s) \<Longrightarrow> ops_fit ops s \<Longrightarrow> vs_inv opts (fst (fold vs_step ops s)) (snd (fold vs_step ops s))"
proof (induction ops arbitrary: s)
  case (Cons op ops)
  then have "vs_inv opts (fst (vs_step op s)) (snd (vs_step op s))" using vs_step_inv [of opts s op] by simp
  then show ?case using Cons by simp
qed simp

text \<open>A bound of the encoded length that evaluates without encoding.\<close>

definition edit_weight :: "VersionEdit \<Rightarrow> nat" where
  "edit_weight e = 150 + (case comparator_name e of None \<Rightarrow> 0 | Some name \<Rightarrow> length name) +
     sum_list (map (\<lambda>x. 40 + length (snd x)) (edit_compact_pointers e)) + 30 * length (deleted_files e) +
     sum_list (map (\<lambda>x. 100 + length (tp_smallest_key (nf_props (snd x))) + length (tp_largest_key (nf_props (snd x)))) (new_files e))"

lemma length_varint_le: "length (encode_varint64 v) \<le> 10"
  by (rule encode_varint64_length_bounds(2))

lemma length_slice_le: "length (encode_length_prefixed_slice s) \<le> 10 + length s"
  using length_varint_le [of "of_nat (length s)"]
  by (simp add: encode_length_prefixed_slice_def put_length_prefixed_slice_def put_varint64_append)

lemma length_put_opt: "length (put_opt tag v buf) \<le> 20 + length buf"
  using length_varint_le [of "ucast tag"] length_varint_le [of "the v"]
  by (cases v) (simp_all add: put_opt_def put_append)

lemma length_fold_le:
  assumes "\<And>x buf. length (p x buf) \<le> w x + length buf"
  shows "length (fold p xs buf) \<le> sum_list (map w xs) + length buf"
proof (induction xs arbitrary: buf)
  case (Cons x xs)
  show ?case using Cons [of "p x buf"] assms [of x buf] by simp
qed simp

lemma length_put_compact_pointer: "length (put_compact_pointer x buf) \<le> 40 + length (snd x) + length buf"
  using length_varint_le [of "ucast TAG_COMPACT_POINTER"] length_varint_le [of "of_nat (fst x)"] length_slice_le [of "snd x"]
  by (simp add: put_compact_pointer_def put_append split_beta)

lemma length_put_deleted_file: "length (put_deleted_file x buf) \<le> 30 + length buf"
  using length_varint_le [of "ucast TAG_DELETED_FILE"] length_varint_le [of "of_nat (fst x)"] length_varint_le [of "snd x"]
  by (simp add: put_deleted_file_def put_append split_beta)

lemma length_put_new_file:
  "length (put_new_file x buf) \<le> 100 + length (tp_smallest_key (nf_props (snd x))) + length (tp_largest_key (nf_props (snd x))) + length buf"
  using length_varint_le [of "ucast TAG_NEW_FILE_V2"] length_varint_le [of "of_nat (fst x)"]
    length_varint_le [of "nf_file_id (snd x)"] length_varint_le [of "tp_file_size (nf_props (snd x))"]
    length_varint_le [of "tp_smallest_seqno (nf_props (snd x))"] length_varint_le [of "tp_largest_seqno (nf_props (snd x))"]
    length_slice_le [of "tp_smallest_key (nf_props (snd x))"] length_slice_le [of "tp_largest_key (nf_props (snd x))"]
  by (simp add: put_new_file_def put_append split_beta Let_def)

lemma length_put_comparator:
  "length (case c of None \<Rightarrow> buf | Some name \<Rightarrow> put_length_prefixed_slice (put_tag TAG_COMPARATOR buf) name)
     \<le> 20 + (case c of None \<Rightarrow> 0 | Some name \<Rightarrow> length name) + length buf"
  using length_varint_le [of "ucast TAG_COMPARATOR"] length_slice_le [of "the c"]
  by (cases c) (simp_all add: put_append)

lemma length_encode_edit: "length (encode_edit e) \<le> edit_weight e"
proof -
  let ?b1 = "put_opt TAG_FORMAT_VERSION (map_option ucast (edit_format_version e)) []"
  let ?b2 = "case comparator_name e of None \<Rightarrow> ?b1 | Some name \<Rightarrow> put_length_prefixed_slice (put_tag TAG_COMPARATOR ?b1) name"
  let ?b3 = "put_opt TAG_LOG_NUMBER (edit_log_number e) ?b2"
  let ?b4 = "put_opt TAG_NEXT_FILE_NUMBER (edit_next_file_number e) ?b3"
  let ?b5 = "put_opt TAG_LAST_SEQUENCE (edit_last_sequence e) ?b4"
  let ?b6 = "fold put_compact_pointer (edit_compact_pointers e) ?b5"
  let ?b7 = "fold put_deleted_file (deleted_files e) ?b6"
  have "length ?b5 \<le> 100 + (case comparator_name e of None \<Rightarrow> 0 | Some name \<Rightarrow> length name)"
    using length_put_opt [of TAG_FORMAT_VERSION "map_option ucast (edit_format_version e)" "[]"]
      length_put_comparator [where c = "comparator_name e" and buf = ?b1] length_put_opt [of TAG_LOG_NUMBER "edit_log_number e" ?b2]
      length_put_opt [of TAG_NEXT_FILE_NUMBER "edit_next_file_number e" ?b3]
      length_put_opt [of TAG_LAST_SEQUENCE "edit_last_sequence e" ?b4] by simp
  moreover have "length ?b6 \<le> sum_list (map (\<lambda>x. 40 + length (snd x)) (edit_compact_pointers e)) + length ?b5"
    by (rule length_fold_le, rule length_put_compact_pointer)
  moreover have "length ?b7 \<le> sum_list (map (\<lambda>x. 30) (deleted_files e)) + length ?b6"
    by (rule length_fold_le, rule length_put_deleted_file)
  moreover have "length (fold put_new_file (new_files e) ?b7) \<le> sum_list (map (\<lambda>x. 100 + length (tp_smallest_key (nf_props (snd x)))
      + length (tp_largest_key (nf_props (snd x)))) (new_files e)) + length ?b7"
    by (rule length_fold_le, rule length_put_new_file)
  ultimately show ?thesis by (simp add: encode_edit_def Let_def edit_weight_def sum_list_triv)
qed

lemma recordable_weight: "edit_ok e \<Longrightarrow> edit_weight e < 2 ^ 63 \<Longrightarrow> recordable e"
  using length_encode_edit [of e] by (simp add: recordable_def)

section \<open>A write that fails half way\<close>

lemma flush_buf_keeps:
  "flush_buf io op w d = (r, w', d') \<Longrightarrow> dir_current d' = dir_current d \<and>
     (map_of (dir_files d) n \<noteq> None \<longrightarrow> map_of (dir_files d') n \<noteq> None)"
  by (auto simp: flush_buf_def dir_append_def split: if_splits option.splits)

lemma buf_write_all_keeps:
  assumes "buf_write_all io op data w d = (r, w', d')"
  shows "dir_current d' = dir_current d \<and> (map_of (dir_files d) n \<noteq> None \<longrightarrow> map_of (dir_files d') n \<noteq> None)"
proof -
  have cold: "dir_current d'' = dir_current d0 \<and> (map_of (dir_files d0) n \<noteq> None \<longrightarrow> map_of (dir_files d'') n \<noteq> None)"
    if "buf_write_cold io op data w0 d0 = (r', w'', d'')" for w0 d0 r' w'' d''
    using that by (auto simp: buf_write_cold_def dir_append_def split: if_splits option.splits)
  show ?thesis
    using assms flush_buf_keeps [of io op w d _ _ _ n]
    by (auto simp: buf_write_all_def split: if_splits sum.splits prod.splits dest!: cold)
qed

lemma append_edit_keeps:
  assumes "append_edit io e w d = (r, w', d')"
  shows "dir_current d' = dir_current d \<and> (map_of (dir_files d) n \<noteq> None \<longrightarrow> map_of (dir_files d') n \<noteq> None)"
  using assms
  by (auto simp: append_edit_def Let_def split: sum.splits prod.splits
      dest!: buf_write_all_keeps [where n = n] flush_buf_keeps [where n = n])

lemma append_edit_all_ok: "fst (append_edit all_ok e w d) = Ok ()"
  by (simp add: append_edit_def Let_def buf_write_all_def buf_write_cold_def flush_buf_def split: prod.splits)

text \<open>The record of a small edit waits in the buffer until the flush, which fails.\<close>

lemma append_edit_flush_fails:
  assumes "mw_buf w = []" "edit_weight e < 8000"
  shows "append_edit (all_ok(''manifest_flush'' := Some k)) e w d =
     (Err (Io ''manifest_flush''), w \<lparr> mw_buf := drop k (edit_record e) \<rparr>, dir_append (mw_name w) (take k (edit_record e)) d)"
proof -
  have "length (encode_edit e) < 8000" using length_encode_edit [of e] assms(2) by linarith
  then show ?thesis
    using assms(1) by (simp add: append_edit_def Let_def buf_write_all_def flush_buf_def BUF_CAPACITY_def edit_record_def)
qed

lemma replay_twice_fails:
  assumes rep: "replays opts es vr fs" and fmt: "validate_manifest_format_version e = Ok ()"
    and val: "validate_edit_for_files vr e fs = Ok ()"
    and del: "deleted_files e \<noteq> []" "(nf_file_id \<circ> snd) ` set (new_files e) \<inter> snd ` set (deleted_files e) = {}"
  shows "\<exists>s. replay_edits (es @ [e, e]) (new_with_options opts, replicate (opt_num_levels opts) []) =
     (Err (Corruption ''manifest_recovery'' ''''), s)"
proof -
  note f = replays_facts [OF rep]
  have chk: "check_edit (length fs) (contains_file_in_files fs) (contains_file_any_level_in_files fs) e = Ok ()"
    using val f by (simp add: validate_edit_for_files_def)
  note lev = check_edit_levels [OF chk]
  obtain cps where cps: "apply_compact_pointers (edit_compact_pointers e) (compact_pointers vr) = (Ok (), cps)"
    using apply_compact_pointers_ok [of "compact_pointers vr" "edit_compact_pointers e"] lev(2) f
    by (cases "apply_compact_pointers (edit_compact_pointers e) (compact_pointers vr)") auto
  let ?vr = "apply_numbers e vr \<lparr> compact_pointers := cps \<rparr>"
  have one: "replay_edits (es @ [e]) (new_with_options opts, replicate (opt_num_levels opts) []) = (Ok (), ?vr, apply_files e fs)"
    using replay_edits_snoc [OF rep [unfolded replays_def], of e] by (simp add: apply_edit_in_place_def fmt val cps)
  obtain l i where li: "(l, i) \<in> set (deleted_files e)" using del(1) by (cases "deleted_files e") auto
  have "l < length fs" using lev(3) li by (auto simp: list_all_iff contains_file_in_files_def split: if_splits)
  then have "apply_files e fs ! l = next_level e l (fs ! l)" "length (apply_files e fs) = length fs"
    using apply_files_nth [OF lev(1)] by simp_all
  moreover have "fm_file_id f \<noteq> i" if "f \<in> set (next_level e l (fs ! l))" for f
    using that li del(2) by (force simp: next_level_def added_def from_new_file_def)
  ultimately have "\<not> contains_file_in_files (apply_files e fs) l i"
    by (auto simp: contains_file_in_files_def list_ex_iff split: if_splits)
  then have "check_edit n (contains_file_in_files (apply_files e fs)) has e
      = Err (Conflict ''version_edit'' ''Trying to delete non-existent file'')" for n has
    using li by (auto simp: check_edit_def list_ex_iff)
  then have "apply_edit_in_place e (?vr, apply_files e fs) =
      (Err (Conflict ''version_edit'' ''Trying to delete non-existent file''), ?vr, apply_files e fs)"
    by (simp add: apply_edit_in_place_def fmt validate_edit_for_files_def)
  then show ?thesis using replay_edits_snoc [OF one, of e] by simp
qed

section \<open>Properties\<close>

text \<open>
  (C9) Recovery reproduces the metadata: after any history of accepted and rejected edits, file
  number allocations and restarts from an empty directory, manifest rewrites included, opening the
  directory again gives the same current version (every file of every level in the same order), the
  same log number, last sequence and compaction pointers, and a next file number above every file
  in use.
\<close>

theorem recovery_reproduces_state:
  assumes "ops_fit ops (vs_start opts)" "(vs, d) = fold vs_step ops (vs_start opts)"
  shows "\<exists>vs' d'. recover_manifest all_ok (new_with_options opts) d = (Ok (), vs', d') \<and>
     vs_current vs' = vs_current vs \<and> vs_log_number vs' = vs_log_number vs \<and>
     vs_last_sequence vs' = vs_last_sequence vs \<and> compact_pointers vs' = compact_pointers vs \<and>
     (- 1 \<notin> fm_file_id ` set (concat (v_files (vs_current vs))) \<longrightarrow>
       (\<forall>f\<in>set (concat (v_files (vs_current vs))). fm_file_id f < vs_next_file_number vs'))"
proof -
  have "vs_inv opts vs d" using vs_run_inv [OF vs_start_inv assms(1)] by (simp add: assms(2) [symmetric])
  from reopen_inv [OF this] show ?thesis by (auto simp: same_state_def)
qed

definition sample_add :: VersionEdit where
  "sample_add = add_file 0 (new_NewFile 1 100 [1, 0, 0, 0, 0, 0, 0, 0, 0] [2, 0, 0, 0, 0, 0, 0, 0, 0] 1 2) new_VersionEdit"

lemma start_state:
  "vs_start opts = (
     (new_with_options opts) \<lparr> vs_current := from_files (sort_level_files (replicate (opt_num_levels opts) [])) 0,
       manifest_writer := Some \<lparr> mw_name = manifest_name 0, mw_buf = [], mw_file_number = 0, mw_current_size = 0 \<rparr> \<rparr>,
     \<lparr> dir_current = Some (manifest_name 0), dir_tmp = None, dir_files = [(manifest_name 0, [])] \<rparr>)"
proof -
  have res: "resolve_manifest all_ok empty_dir = (Ok (manifest_name 0),
      \<lparr> dir_current = Some (manifest_name 0), dir_tmp = None, dir_files = [(manifest_name 0, [])] \<rparr>)"
    using resolve_empty [of empty_dir] by (simp add: empty_dir_def)
  have ids: "all_file_ids (from_files (sort_level_files (replicate n [])) 0) = []" for n
    by (cases n) (simp_all add: all_file_ids_def)
  show ?thesis
    unfolding vs_start_def recover_manifest_def res
    using read_all_edits_whole [of "[]"]
    by (auto simp: new_ManifestReader_def dir_content_def apply_edits_for_recovery_def Let_def
        ensure_next_file_number_def ids open_for_append_def dir_append_def dir_put_def new_with_options_def new_Version_def)
qed

definition small_options :: VersionSetOptions where
  "small_options = \<lparr> max_versions = 10, manifest_max_size = 0, manifest_rewrite_edit_count = 0, opt_num_levels = 2 \<rparr>"

lemmas sample_defs = sample_add_def add_file_def new_VersionEdit_def new_NewFile_def stamp_format_def
  MANIFEST_FORMAT_VERSION_CURRENT_def

lemmas edit_ok_defs = edit_ok_def edit_weight_def level_ok_def new_file_ok_def slice_ok_def

lemma replicate_two: "replicate 2 x = [x, x]"
  by (simp add: numeral_2_eq_2)

lemma sample_add_fits: "edit_fits sample_add (fst (vs_start small_options))"
proof -
  have "recordable (stamp_format sample_add)"
    by (rule recordable_weight) (simp_all add: edit_ok_defs sample_defs)
  moreover have "recordable (build_snapshot_edit (snd (install_edit (stamp_format sample_add) (fst (vs_start small_options)))))"
    by (rule recordable_weight)
      (simp_all add: edit_ok_defs sample_defs build_snapshot_edit_def install_edit_def start_state small_options_def
        apply_numbers_def create_new_version_def from_files_def all_files_def pointer_list_def List.map_filter_simps
        new_with_options_def replicate_two append_old_version_def apply_files_def push_new_def from_new_file_def)
  ultimately show ?thesis by (simp add: edit_fits_def)
qed

theorem recovery_reproduces_state_witness:
  "ops_fit [ApplyEdit sample_add, AllocFile, Reopen] (vs_start small_options) \<and>
   (\<exists>vs' d'. recover_manifest all_ok (new_with_options small_options)
      (snd (fold vs_step [ApplyEdit sample_add, AllocFile, Reopen] (vs_start small_options))) = (Ok (), vs', d'))"
proof -
  let ?ops = "[ApplyEdit sample_add, AllocFile, Reopen]"
  have fit: "ops_fit ?ops (vs_start small_options)" using sample_add_fits by simp
  obtain vs d where "(vs, d) = fold vs_step ?ops (vs_start small_options)" by (metis surj_pair)
  from recovery_reproduces_state [OF fit this] fit this show ?thesis by (metis snd_conv)
qed

lemma recover_twice_fails:
  assumes "replays opts es vr fs" "validate_manifest_format_version e = Ok ()" "validate_edit_for_files vr e fs = Ok ()"
    and "deleted_files e \<noteq> []" "(nf_file_id \<circ> snd) ` set (new_files e) \<inter> snd ` set (deleted_files e) = {}"
    and rec: "list_all recordable es" "recordable e"
    and dir: "dir_current d = Some (manifest_name n)" "map_of (dir_files d) (manifest_name n) \<noteq> None"
      "dir_content d (manifest_name n) = manifest_bytes (es @ [e, e])"
  shows "fst (recover_manifest all_ok (new_with_options opts) d) = Err (Corruption ''manifest_recovery'' '''')"
proof -
  have res: "resolve_manifest all_ok d = (Ok (manifest_name n), d)" by (rule resolve_current [OF dir(1,2)])
  obtain r where r: "read_all_edits all_ok (reader_at (manifest_bytes (es @ [e, e]))) = (Ok (es @ [e, e]), r)"
    using read_all_edits_whole [of "es @ [e, e]"] rec by auto
  obtain s where "replay_edits (es @ [e, e]) (new_with_options opts, replicate (opt_num_levels opts) []) =
      (Err (Corruption ''manifest_recovery'' ''''), s)"
    using replay_twice_fails [OF assms(1-5)] by blast
  then obtain vx where x: "apply_edits_for_recovery (es @ [e, e]) (new_with_options opts) =
      (Err (Corruption ''manifest_recovery'' ''''), vx)"
    by (cases s) (simp add: apply_edits_for_recovery_def new_with_options_def new_Version_def)
  show ?thesis
    unfolding recover_manifest_def res prod.case sum.case new_ManifestReader_def dir(3)
    by (simp only: r x Let_def prod.case sum.case if_False fst_conv simp_thms)
qed

text \<open>
  (C15) A failed write of the manifest can make the database impossible to open.  The edit is one
  that deletes a file and does not add the same file again, and its record is small enough (less
  than 8000 bytes) to stay in the buffer of the writer until the flush.  When the flush inside
  \<open>append_edit\<close> fails, after any number of bytes, the rest of the record stays in the buffer, so the
  record that was reported as failed is completed by the next append.  If the same edit is then
  applied again without a failure, and this does not trigger a rewrite of the manifest, the apply
  succeeds, the manifest holds the edit twice, and the next recovery fails with a corruption error.
\<close>

theorem failed_manifest_write_breaks_recovery:
  assumes inv: "vs_inv opts vs d" and rec: "recordable (stamp_format e)" and small: "edit_weight (stamp_format e) < 8000"
    and valid: "validate_manifest_format_version (stamp_format e) = Ok ()" "validate_edit vs (stamp_format e) = Ok ()"
    and del: "deleted_files e \<noteq> []" "(nf_file_id \<circ> snd) ` set (new_files e) \<inter> snd ` set (deleted_files e) = {}"
    and first: "apply_edit (all_ok(''manifest_flush'' := Some k)) all_ok e vs d = (res1, vs1, d1)"
    and retry: "apply_edit all_ok all_ok e vs1 d1 = (res2, vs2, d2)"
    and same: "manifest_file_number vs2 = manifest_file_number vs" "manifest_file_number vs \<noteq> - 1"
  shows "res1 = Err (Io ''manifest_flush'') \<and> vs_current vs1 = vs_current vs \<and> res2 = Ok () \<and>
     fst (recover_manifest all_ok (new_with_options opts) d2) = Err (Corruption ''manifest_recovery'' '''')"
proof -
  let ?e = "stamp_format e"
  obtain w es vr fs where i: "vs_options vs = opts" "manifest_writer vs = Some w" "mw_buf w = []"
      "mw_name w = manifest_name (manifest_file_number vs)"
      "dir_current d = Some (mw_name w)" "map_of (dir_files d) (mw_name w) = Some (manifest_bytes es)"
      "list_all recordable es" "replays opts es vr fs" "same_state vr vs"
      "vs_current vs = from_files (sort_level_files fs) (vs_last_sequence vs)"
    using inv by (auto simp: vs_inv_def)
  let ?w1 = "w \<lparr> mw_buf := drop k (edit_record ?e) \<rparr>"
  have v1: "res1 = Err (Io ''manifest_flush'')" "vs1 = vs \<lparr> manifest_writer := Some ?w1 \<rparr>"
      "d1 = dir_append (mw_name w) (take k (edit_record ?e)) d"
    using first i(2) valid append_edit_flush_fails [OF i(3) small, of k d] by (auto simp: apply_edit_def Let_def)
  obtain w2 d2' where app: "append_edit all_ok ?e ?w1 d1 = (Ok (), w2, d2')"
    using append_edit_all_ok [of ?e ?w1 d1] by (metis prod.collapse)
  have grow: "dir_content d2' (mw_name w) = manifest_bytes (es @ [?e, ?e])" "mw_buf w2 = []"
    using append_edit_grows [OF app] i(6) v1(3) by (auto simp: grown_def dir_append_def dir_content_Some)
  have keeps: "dir_current d2' = Some (mw_name w)" "map_of (dir_files d2') (mw_name w) \<noteq> None"
    using append_edit_keeps [OF app, of "mw_name w"] i(5) v1(3) by (auto simp: dir_append_def)
  let ?vs = "vs \<lparr> manifest_writer := Some w2, manifest_edit_count := min (manifest_edit_count vs + 1) (2 ^ 64 - 1) \<rparr>"
  have val: "validate_edit_for_files vr ?e fs = Ok ()"
    using valid(2) replays_facts [OF i(8)] i(1,10) by (simp add: validate_edit_def validate_edit_for_files_def contains_current)
  have "fst (install_edit ?e ?vs) = Ok ()"
    using install_edit_ok [OF val i(8,9)] by (simp add: install_edit_fst)
  then obtain vs' where inst: "install_edit ?e ?vs = (Ok (), vs')" by (cases "install_edit ?e ?vs") auto
  have num: "manifest_file_number vs' = manifest_file_number vs"
    using install_edit_number [of ?e ?vs] inst by simp
  have "apply_edit all_ok all_ok e vs1 d1 = maybe_rewrite_manifest all_ok vs' d2'"
    using valid app inst grow(2) by (simp add: apply_edit_def v1(2) Let_def manifest_sync_ok validate_edit_def)
  moreover have "\<not> should_rewrite_manifest vs'"
    using retry calculation same num by (auto simp: maybe_rewrite_ok sat_incr_def)
  ultimately have r2: "res2 = Ok ()" "d2 = d2'" using retry by (simp_all add: maybe_rewrite_manifest_def)
  have stamp: "deleted_files ?e = deleted_files e" "new_files ?e = new_files e" by (simp_all add: stamp_format_def)
  have "fst (recover_manifest all_ok (new_with_options opts) d2) = Err (Corruption ''manifest_recovery'' '''')"
    by (rule recover_twice_fails [OF i(8) valid(1) val, unfolded stamp, OF del i(7) rec, of d2 "manifest_file_number vs"])
      (use keeps grow(1) i(4) r2(2) in simp_all)
  then show ?thesis using v1(1,2) r2(1) by simp
qed

definition sample_delete :: VersionEdit where
  "sample_delete = delete_file 0 1 new_VersionEdit"

lemma apply_edit_no_rewrite:
  assumes "manifest_max_size (vs_options vs) = 0" "manifest_rewrite_edit_count (vs_options vs) = 0"
    and "apply_edit io io' e vs d = (res, vs', d')"
  shows "manifest_file_number vs' = manifest_file_number vs \<and> vs_options vs' = vs_options vs"
proof -
  have keep: "maybe_rewrite_manifest io' v x = (Ok (), v, x)" if "vs_options v = vs_options vs" for v x
    using assms(1,2) that by (simp add: maybe_rewrite_manifest_def should_rewrite_manifest_def Let_def)
  have opts: "vs_options v' = vs_options v \<and> manifest_file_number v' = manifest_file_number v"
    if "install_edit f v = (r, v')" for f v r v'
    using that by (auto simp: install_edit_def apply_numbers_def append_old_version_def enqueue_obsolete_files_def
        Let_def split: prod.splits sum.splits option.splits)
  show ?thesis
    using assms(3)
    by (auto simp: apply_edit_def keep Let_def dest!: opts split: prod.splits sum.splits option.splits)
qed

lemma after_sample_add:
  fixes s defines "s \<equiv> vs_step (ApplyEdit sample_add) (vs_start small_options)"
  shows "vs_inv small_options (fst s) (snd s)" "v_files (vs_current (fst s)) = [[from_new_file (snd (hd (new_files sample_add)))], []]"
    "manifest_file_number (fst s) = 0" "vs_options (fst s) = small_options"
proof -
  show inv: "vs_inv small_options (fst s) (snd s)"
    unfolding s_def by (rule vs_step_inv [OF vs_start_inv]) (simp add: sample_add_fits)
  then show "vs_options (fst s) = small_options" by (simp add: vs_inv_def)
  show "manifest_file_number (fst s) = 0"
    using apply_edit_no_rewrite [of "fst (vs_start small_options)" all_ok all_ok sample_add "snd (vs_start small_options)"]
    by (cases "apply_edit all_ok all_ok sample_add (fst (vs_start small_options)) (snd (vs_start small_options))")
      (simp add: s_def start_state small_options_def new_with_options_def)
  show "v_files (vs_current (fst s)) = [[from_new_file (snd (hd (new_files sample_add)))], []]"
    unfolding s_def
    by (simp add: start_state small_options_def new_with_options_def replicate_two apply_edit_def Let_def
        validate_manifest_format_version_def validate_edit_def check_edit_def sample_defs contains_file_any_level_def
        contains_file_def get_files_def num_levels_def append_edit_ok manifest_sync_ok install_edit_def apply_numbers_def
        create_new_version_def apply_files_def push_new_def maybe_rewrite_manifest_def should_rewrite_manifest_def from_files_def)
qed

theorem failed_manifest_write_breaks_recovery_witness:
  "\<exists>vs d res1 vs1 d1 res2 vs2 d2.
     apply_edit (all_ok(''manifest_flush'' := Some 3)) all_ok sample_delete vs d = (res1, vs1, d1) \<and>
     apply_edit all_ok all_ok sample_delete vs1 d1 = (res2, vs2, d2) \<and> res2 = Ok () \<and>
     fst (recover_manifest all_ok (new_with_options small_options) d2) = Err (Corruption ''manifest_recovery'' '''')"
proof -
  let ?s = "vs_step (ApplyEdit sample_add) (vs_start small_options)"
  obtain vs d where s: "?s = (vs, d)" by fastforce
  note a = after_sample_add [unfolded s fst_conv snd_conv]
  let ?io = "all_ok(''manifest_flush'' := Some 3)"
  obtain res1 vs1 d1 where 1: "apply_edit ?io all_ok sample_delete vs d = (res1, vs1, d1)"
    by (cases "apply_edit ?io all_ok sample_delete vs d")
  obtain res2 vs2 d2 where 2: "apply_edit all_ok all_ok sample_delete vs1 d1 = (res2, vs2, d2)"
    by (cases "apply_edit all_ok all_ok sample_delete vs1 d1")
  have rec: "recordable (stamp_format sample_delete)" "edit_weight (stamp_format sample_delete) < 8000"
    by (auto intro!: recordable_weight simp: edit_ok_defs sample_delete_def delete_file_def sample_defs)
  have valid: "validate_manifest_format_version (stamp_format sample_delete) = Ok ()" "validate_edit vs (stamp_format sample_delete) = Ok ()"
    by (simp_all add: validate_manifest_format_version_def validate_edit_def check_edit_def sample_delete_def delete_file_def
        sample_defs contains_file_def get_files_def a from_new_file_def)
  have n: "manifest_file_number vs2 = manifest_file_number vs"
    using apply_edit_no_rewrite [OF _ _ 1] apply_edit_no_rewrite [OF _ _ 2] by (simp add: a small_options_def)
  show ?thesis
    using failed_manifest_write_breaks_recovery [OF a(1) rec valid _ _ 1 2 n] 1 2 a(3)
    by (simp add: sample_delete_def delete_file_def new_VersionEdit_def) blast
qed

end
