(* ===== verification/Wal_Recovery.thy ===== *)
theory Wal_Recovery
  imports Wal_Format
begin

text \<open>
  \<open>storage/wal/recovery.rs\<close>: replay of a write-ahead log after a restart.  The
  loop's local variables, the file it truncates and the entries it has passed to
  \<open>on_entry\<close> are the record \<open>Replay\<close>.  The file system is assumed to perform the
  opens, truncations and syncs it is asked for.
\<close>

type_synonym wal_entry = "InternalKey \<times> bytes"

record WalReplayStats =
  stat_max_sequence :: u64
  stat_entries :: nat
  stat_truncated :: bool

record PendingBatch =
  start_offset :: nat
  start_sequence :: u64
  expected_ops :: nat
  batch_entries :: "wal_entry list"

record Replay =
  wal_file :: bytes
  last_good_offset :: nat
  max_sequence :: u64
  entries :: nat
  truncated :: bool
  pending_batch :: "PendingBatch option"
  emitted :: "wal_entry list"

datatype replay_step = Continue Replay | Break Replay | Fail Error Replay

definition truncate_and_sync :: "nat \<Rightarrow> Replay \<Rightarrow> Replay" where
  "truncate_and_sync off st = st \<lparr> wal_file := take off (wal_file st), truncated := True \<rparr>"

text \<open>The offset a damaged record truncates to: the start of the open batch, if any.\<close>

definition truncate_offset :: "Replay \<Rightarrow> nat" where
  "truncate_offset st =
     (case pending_batch st of Some b \<Rightarrow> start_offset b | None \<Rightarrow> last_good_offset st)"

text \<open>Count an entry and hand it to \<open>on_entry\<close>.\<close>

definition emit_entry :: "wal_entry \<Rightarrow> Replay \<Rightarrow> Replay" where
  "emit_entry e st = st \<lparr> max_sequence := max (max_sequence st) (sequence_number (fst e)),
     entries := entries st + 1, emitted := emitted st @ [e] \<rparr>"

text \<open>A batch-begin marker that starts at \<open>record_start\<close>.\<close>

definition replay_batch_begin :: "Replay \<Rightarrow> nat \<Rightarrow> InternalKey \<Rightarrow> bytes \<Rightarrow> replay_step" where
  "replay_batch_begin st record_start k v =
     (if user_key k \<noteq> []
      then Fail (Corruption ''wal_batch_begin_user_key''
             ''batch begin marker must use empty user key'') st
      else case pending_batch st of
        Some b \<Rightarrow> Break (truncate_and_sync (start_offset b) (st \<lparr> pending_batch := None \<rparr>))
      | None \<Rightarrow>
          (case decode_batch_begin_value v of
             Inl e \<Rightarrow> Fail e st
           | Inr ops \<Rightarrow>
               if ops = 0
               then Fail (Corruption ''wal_batch_begin_op_count''
                      ''batch begin marker must contain at least one operation'') st
               else Continue (st \<lparr> pending_batch := Some \<lparr> start_offset = record_start,
                      start_sequence = sequence_number k, expected_ops = ops,
                      batch_entries = [] \<rparr> \<rparr>)))"

text \<open>A put or delete record, inside or outside a batch.\<close>

definition replay_data :: "Replay \<Rightarrow> InternalKey \<Rightarrow> bytes \<Rightarrow> replay_step" where
  "replay_data st k v =
     (case pending_batch st of
        Some b \<Rightarrow>
          let expected_seq = unat (start_sequence b) + length (batch_entries b) in
          if 2 ^ 64 \<le> expected_seq
          then Fail (Corruption ''wal_batch_sequence_overflow''
                 ''batch sequence overflow during replay'') st
          else if unat (sequence_number k) \<noteq> expected_seq
          then Break (truncate_and_sync (start_offset b) st)
          else let b' = b \<lparr> batch_entries := batch_entries b @ [(k, v)] \<rparr> in
            if length (batch_entries b') = expected_ops b'
            then Continue (fold emit_entry (batch_entries b') (st \<lparr> pending_batch := None \<rparr>))
            else Continue (st \<lparr> pending_batch := Some b' \<rparr>)
      | None \<Rightarrow> Continue (emit_entry (k, v) st))"

definition replay_record :: "(bytes \<Rightarrow> u32) \<Rightarrow> Replay \<Rightarrow> WalRecord \<Rightarrow> replay_step" where
  "replay_record crc st r =
     (if \<not> checksum_matches crc r then Break (truncate_and_sync (truncate_offset st) st)
      else
        let record_start = last_good_offset st;
            st' = st \<lparr> last_good_offset := record_start + total_len r \<rparr>;
            (k, v) = into_parts r
        in case kind k of
             Inl e \<Rightarrow> Fail e st'
           | Inr kd \<Rightarrow> if kd = TxnBatchBegin then replay_batch_begin st' record_start k v
                      else replay_data st' k v)"

definition replay_stats :: "Replay \<Rightarrow> WalReplayStats" where
  "replay_stats st = \<lparr> stat_max_sequence = max_sequence st, stat_entries = entries st,
                       stat_truncated = truncated st \<rparr>"

function replay_loop :: "(bytes \<Rightarrow> u32) \<Rightarrow> Replay \<Rightarrow> bytes \<Rightarrow> WalReplayStats result \<times> Replay" where
  "replay_loop crc st rest =
     (case read_record rest of
        (Inl e, _) \<Rightarrow> (Err e, st)
      | (Inr REof, _) \<Rightarrow>
          (case pending_batch st of
             Some b \<Rightarrow>
               let st' = truncate_and_sync (start_offset b) (st \<lparr> pending_batch := None \<rparr>)
               in (Ok (replay_stats st'), st')
           | None \<Rightarrow> (Ok (replay_stats st), st))
      | (Inr (RPartial _), _) \<Rightarrow>
          let st' = truncate_and_sync (truncate_offset st) st in (Ok (replay_stats st'), st')
      | (Inr RInvalidKeyLen, _) \<Rightarrow>
          let st' = truncate_and_sync (truncate_offset st) st in (Ok (replay_stats st'), st')
      | (Inr (RRecord r), rest') \<Rightarrow>
          (case replay_record crc st r of
             Continue st' \<Rightarrow> replay_loop crc st' rest'
           | Break st' \<Rightarrow> (Ok (replay_stats st'), st')
           | Fail e st' \<Rightarrow> (Err e, st')))"
  by pat_completeness auto
termination
  by (relation "measure (\<lambda>(_, _, bs). length bs)") (auto dest!: read_record_shorter [OF sym])

declare replay_loop.simps [simp del]

definition replay_init :: "bytes \<Rightarrow> Replay" where
  "replay_init file = \<lparr> wal_file = file, last_good_offset = 0, max_sequence = 0, entries = 0,
     truncated = False, pending_batch = None, emitted = [] \<rparr>"

definition replay_wal_file :: "(bytes \<Rightarrow> u32) \<Rightarrow> bytes \<Rightarrow> WalReplayStats result \<times> Replay" where
  "replay_wal_file crc file = replay_loop crc (replay_init file) file"

section \<open>What the encoder of a batch produces\<close>

fun contiguous :: "nat \<Rightarrow> wal_entry list \<Rightarrow> bool" where
  "contiguous n [] \<longleftrightarrow> True"
| "contiguous n ((k, v) # es) \<longleftrightarrow>
     unat (sequence_number k) = n \<and> kind k \<in> {Ok Put, Ok Delete} \<and> contiguous (Suc n) es"

abbreviation entry_bytes :: "(bytes \<Rightarrow> u32) \<Rightarrow> wal_entry \<Rightarrow> bytes" where
  "entry_bytes crc e \<equiv> raw_record (record_of crc e)"

lemma data_kind_iff [simp]: "kd = Put \<or> kd = Delete \<longleftrightarrow> kd \<noteq> TxnBatchBegin"
  by (cases kd) auto

lemma unat_seq_less: "unat (sequence_number k) < 2 ^ 56"
  using sequence_number_le_max [of k] by (simp add: SEQUENCE_NUMBER_MAX_val word_le_nat_alt)

lemma saturating_succ_seq:
  "unat (saturating_add (sequence_number k) 1) = Suc (unat (sequence_number k))"
proof -
  have "unat (sequence_number k + 1) = Suc (unat (sequence_number k))"
    using unat_seq_less [of k] by (simp add: unat_word_ariths)
  then show ?thesis by (simp add: saturating_add_def word_le_nat_alt)
qed

lemma encode_batch_records_Ok:
  "encode_batch_records crc buf s rs = Ok out \<longleftrightarrow>
     contiguous (unat s) rs \<and> out = buf @ concat (map (entry_bytes crc) rs)"
proof (induction rs arbitrary: buf s)
  case (Cons e rs)
  obtain k v where e: "e = (k, v)" by (cases e)
  show ?case
  proof (cases "sequence_number k = s")
    case True
    then show ?thesis
      using Cons [of "encode_record_into crc buf k v"] saturating_succ_seq [of k]
      by (cases "kind k") (simp_all add: e encode_record_into_raw conj_ac)
  next
    case False
    then have "unat (sequence_number k) \<noteq> unat s" by (simp add: word_unat_eq_iff)
    with False show ?thesis by (simp add: e)
  qed
qed auto

definition batch_marker :: "wal_entry list \<Rightarrow> wal_entry" where
  "batch_marker b =
     (\<lparr> user_key = [], encoded_sequence_number =
          push_bit 8 (sequence_number (fst (hd b))) OR ucast (kind_to_u8 TxnBatchBegin) \<rparr>,
      BATCH_BEGIN_MAGIC @ u32_le (of_nat (length b)))"

definition batch_bytes :: "(bytes \<Rightarrow> u32) \<Rightarrow> wal_entry list \<Rightarrow> bytes" where
  "batch_bytes crc b =
     entry_bytes crc (batch_marker b) @ concat (map (entry_bytes crc) b)"

text \<open>The batches the encoder accepts and whose lengths fit the 32-bit length fields.\<close>

definition batch_ok :: "wal_entry list \<Rightarrow> bool" where
  "batch_ok b \<longleftrightarrow> b \<noteq> [] \<and> contiguous (unat (sequence_number (fst (hd b)))) b \<and>
     length b < 2 ^ 32 \<and> list_all encodable b"

lemma batch_marker_new:
  "new_InternalKey [] (sequence_number (fst (hd b))) TxnBatchBegin = Ok (fst (batch_marker b))"
  using sequence_number_le_max [of "fst (hd b)"]
  by (simp add: new_InternalKey_def batch_marker_def linorder_not_less)

lemmas batch_marker_facts = new_InternalKey_Ok [OF batch_marker_new]

lemma encode_atomic_batch_into_Ok:
  assumes "b \<noteq> []"
  shows "encode_atomic_batch_into crc buf b = Ok out \<longleftrightarrow>
     contiguous (unat (sequence_number (fst (hd b)))) b \<and> length b < 2 ^ 32 \<and>
     out = buf @ batch_bytes crc b"
proof -
  let ?s = "sequence_number (fst (hd b))"
  have mk: "batch_marker b = (fst (batch_marker b), BATCH_BEGIN_MAGIC @ u32_le (of_nat (length b)))"
    by (simp add: batch_marker_def)
  have "encode_atomic_batch_into crc buf b =
      and_then (new_InternalKey [] ?s TxnBatchBegin) (\<lambda>marker.
      and_then (encode_batch_begin_value (length b)) (\<lambda>marker_value.
      encode_batch_records crc (encode_record_into crc buf marker marker_value) ?s b))"
    using assms by (cases b) (auto simp: encode_atomic_batch_into_def Let_def)
  also have "\<dots> = (if 2 ^ 32 \<le> length b
      then Err (InvalidArgument ''wal_batch_begin_op_count'' ''op count exceeds u32'')
      else encode_batch_records crc (buf @ entry_bytes crc (batch_marker b)) ?s b)"
    unfolding batch_marker_new encode_batch_begin_value_def
    by (subst mk) (simp add: encode_record_into_raw)
  finally show ?thesis
    by (auto simp: encode_batch_records_Ok batch_bytes_def linorder_not_less)
qed

lemma batch_marker_encodable: "encodable (batch_marker b)"
  using batch_marker_facts(3) [of b] batch_marker_facts(1) [of b]
  by (simp add: encodable_def serialized_size_def is_ok_iff)
    (simp add: batch_marker_def BATCH_BEGIN_MAGIC_def)

lemma decode_encode_batch_begin:
  "n < 2 ^ 32 \<Longrightarrow> decode_batch_begin_value (BATCH_BEGIN_MAGIC @ u32_le (of_nat n)) = Ok n"
  by (simp add: decode_batch_begin_value_def BATCH_BEGIN_MAGIC_def subslice_def unat_of_nat_small)

section \<open>Replaying what was encoded\<close>

lemma length_entry_bytes:
  "encodable e \<Longrightarrow> total_len (record_of crc e) = length (entry_bytes crc e)"
  by (simp add: length_raw_record record_of_wf)

lemma replay_loop_raw:
  "wf_record r \<Longrightarrow> replay_loop crc st (raw_record r @ rest) =
     (case replay_record crc st r of
        Continue st' \<Rightarrow> replay_loop crc st' rest
      | Break st' \<Rightarrow> (Ok (replay_stats st'), st')
      | Fail err st' \<Rightarrow> (Err err, st'))"
  by (subst replay_loop.simps) (simp add: read_record_complete)

lemma replay_loop_record:
  "encodable e \<Longrightarrow> replay_loop crc st (entry_bytes crc e @ rest) =
     (case replay_record crc st (record_of crc e) of
        Continue st' \<Rightarrow> replay_loop crc st' rest
      | Break st' \<Rightarrow> (Ok (replay_stats st'), st')
      | Fail err st' \<Rightarrow> (Err err, st'))"
  by (simp add: replay_loop_raw record_of_wf)

lemma replay_record_data:
  "encodable (k, v) \<Longrightarrow> kind k \<in> {Ok Put, Ok Delete} \<Longrightarrow>
   replay_record crc st (record_of crc (k, v)) =
     replay_data (st \<lparr> last_good_offset := last_good_offset st + length (entry_bytes crc (k, v)) \<rparr>) k v"
  by (auto simp: replay_record_def into_parts_def Let_def length_entry_bytes)

lemma replay_batch_records:
  "pending_batch st = Some pb \<Longrightarrow> rs \<noteq> [] \<Longrightarrow> list_all encodable rs \<Longrightarrow>
   contiguous (unat (start_sequence pb) + length (batch_entries pb)) rs \<Longrightarrow>
   expected_ops pb = length (batch_entries pb) + length rs \<Longrightarrow>
   replay_loop crc st (concat (map (entry_bytes crc) rs) @ rest) =
     replay_loop crc (fold emit_entry (batch_entries pb @ rs)
       (st \<lparr> last_good_offset := last_good_offset st + length (concat (map (entry_bytes crc) rs)),
             pending_batch := None \<rparr>)) rest"
proof (induction rs arbitrary: st pb)
  case (Cons e rs)
  obtain k v where e: "e = (k, v)" by (cases e)
  from Cons.prems have enc: "encodable (k, v)" and kd: "kind k \<in> {Ok Put, Ok Delete}"
    and seq: "unat (sequence_number k) = unat (start_sequence pb) + length (batch_entries pb)"
    by (auto simp: e)
  have lt: "\<not> 2 ^ 64 \<le> unat (start_sequence pb) + length (batch_entries pb)"
    using seq unat_seq_less [of k] by simp
  let ?st = "st \<lparr> last_good_offset := last_good_offset st + length (entry_bytes crc (k, v)) \<rparr>"
  let ?pb = "pb \<lparr> batch_entries := batch_entries pb @ [(k, v)] \<rparr>"
  have step: "replay_loop crc st (concat (map (entry_bytes crc) (e # rs)) @ rest) =
    (case replay_data ?st k v of
        Continue st' \<Rightarrow> replay_loop crc st' (concat (map (entry_bytes crc) rs) @ rest)
      | Break st' \<Rightarrow> (Ok (replay_stats st'), st')
      | Fail err st' \<Rightarrow> (Err err, st'))"
    using replay_loop_record [OF enc] replay_record_data [OF enc kd] by (simp add: e)
  show ?case
  proof (cases "rs = []")
    case True
    with Cons.prems seq lt show ?thesis
      unfolding step by (simp add: replay_data_def Let_def e)
  next
    case False
    have "replay_data ?st k v = Continue (?st \<lparr> pending_batch := Some ?pb \<rparr>)"
      using Cons.prems seq lt False by (simp add: replay_data_def Let_def)
    moreover have "replay_loop crc (?st \<lparr> pending_batch := Some ?pb \<rparr>)
        (concat (map (entry_bytes crc) rs) @ rest) =
      replay_loop crc (fold emit_entry (batch_entries ?pb @ rs)
       (?st \<lparr> pending_batch := Some ?pb,
          last_good_offset := last_good_offset ?st + length (concat (map (entry_bytes crc) rs)),
          pending_batch := None \<rparr>)) rest"
      using Cons.IH [of "?st \<lparr> pending_batch := Some ?pb \<rparr>" ?pb] Cons.prems False by (simp add: e)
    ultimately show ?thesis
      unfolding step by (simp add: e add.assoc)
  qed
qed simp

lemma fold_emit_entry:
  "emitted (fold emit_entry es st) = emitted st @ es"
  "entries (fold emit_entry es st) = entries st + length es"
  "wal_file (fold emit_entry es st) = wal_file st"
  "pending_batch (fold emit_entry es st) = pending_batch st"
  "last_good_offset (fold emit_entry es st) = last_good_offset st"
  "truncated (fold emit_entry es st) = truncated st"
  "max_sequence (fold emit_entry es st) =
     fold (\<lambda>e m. max m (sequence_number (fst e))) es (max_sequence st)"
  by (induction es arbitrary: st) (simp_all add: emit_entry_def)

text \<open>The state right after the marker of batch \<open>b\<close>.\<close>

definition after_marker :: "(bytes \<Rightarrow> u32) \<Rightarrow> wal_entry list \<Rightarrow> Replay \<Rightarrow> Replay" where
  "after_marker crc b st = st \<lparr>
     last_good_offset := last_good_offset st + length (entry_bytes crc (batch_marker b)),
     pending_batch := Some \<lparr> start_offset = last_good_offset st,
       start_sequence = sequence_number (fst (hd b)), expected_ops = length b,
       batch_entries = [] \<rparr> \<rparr>"

lemma replay_marker:
  assumes "batch_ok b" "pending_batch st = None"
  shows "replay_loop crc st (entry_bytes crc (batch_marker b) @ rest)
           = replay_loop crc (after_marker crc b st) rest"
proof -
  have val: "decode_batch_begin_value (snd (batch_marker b)) = Ok (length b)"
    using assms(1) by (simp add: batch_marker_def batch_ok_def decode_encode_batch_begin)
  have "length b \<noteq> 0" using assms(1) by (simp add: batch_ok_def)
  then show ?thesis
    using assms(2) batch_marker_facts [of b] val
    by (simp add: replay_loop_record batch_marker_encodable replay_record_def replay_batch_begin_def
        into_parts_def Let_def length_entry_bytes after_marker_def split_beta)
qed

lemma pending_None_update:
  "pending_batch st = None \<Longrightarrow>
   st \<lparr> last_good_offset := n, pending_batch := None \<rparr> = st \<lparr> last_good_offset := n \<rparr>"
  by (cases st) simp

lemma replay_batch:
  assumes "batch_ok b" "pending_batch st = None"
  shows "replay_loop crc st (batch_bytes crc b @ rest) = replay_loop crc
    (fold emit_entry b (st \<lparr> last_good_offset := last_good_offset st + length (batch_bytes crc b) \<rparr>)) rest"
proof -
  have "replay_loop crc (after_marker crc b st) (concat (map (entry_bytes crc) b) @ rest) =
    replay_loop crc (fold emit_entry b (st \<lparr> last_good_offset := last_good_offset st
      + length (batch_bytes crc b), pending_batch := None \<rparr>)) rest"
    using assms(1)
    by (subst replay_batch_records)
      (auto simp: after_marker_def batch_ok_def batch_bytes_def add.assoc)
  then show ?thesis
    using assms by (simp add: batch_bytes_def [of crc b] replay_marker pending_None_update)
qed

text \<open>A damaged tail: the observable outcome of stopping at \<open>off\<close>.\<close>

definition stopped_at :: "nat \<Rightarrow> Replay \<Rightarrow> WalReplayStats result \<times> Replay \<Rightarrow> bool" where
  "stopped_at off st out \<longleftrightarrow> (\<exists>st'. out = (Ok (replay_stats st'), st') \<and>
     wal_file st' = take off (wal_file st) \<and> emitted st' = emitted st \<and>
     entries st' = entries st \<and> max_sequence st' = max_sequence st \<and> truncated st')"

lemma replay_torn_record:
  assumes "encodable e" "n < length (entry_bytes crc e)" "0 < n \<or> pending_batch st \<noteq> None"
  shows "stopped_at (truncate_offset st) st (replay_loop crc st (take n (entry_bytes crc e)))"
  using read_record_torn [OF record_of_wf [OF assms(1)] assms(2)] assms(3)
  by (subst replay_loop.simps)
    (auto simp: stopped_at_def truncate_and_sync_def truncate_offset_def Let_def)

lemma replay_torn_records:
  "pending_batch st = Some pb \<Longrightarrow> list_all encodable rs \<Longrightarrow>
   contiguous (unat (start_sequence pb) + length (batch_entries pb)) rs \<Longrightarrow>
   expected_ops pb = length (batch_entries pb) + length rs \<Longrightarrow>
   n < length (concat (map (entry_bytes crc) rs)) \<Longrightarrow>
   stopped_at (start_offset pb) st (replay_loop crc st (take n (concat (map (entry_bytes crc) rs))))"
proof (induction rs arbitrary: st pb n)
  case (Cons e rs)
  obtain k v where e: "e = (k, v)" by (cases e)
  from Cons.prems have enc: "encodable (k, v)" and kd: "kind k \<in> {Ok Put, Ok Delete}"
    and seq: "unat (sequence_number k) = unat (start_sequence pb) + length (batch_entries pb)"
    by (auto simp: e)
  show ?case
  proof (cases "n < length (entry_bytes crc e)")
    case True
    then show ?thesis
      using replay_torn_record [of e n crc st] enc Cons.prems(1)
      by (simp add: e truncate_offset_def)
  next
    case False
    let ?st = "st \<lparr> last_good_offset := last_good_offset st + length (entry_bytes crc (k, v)),
                    pending_batch := Some (pb \<lparr> batch_entries := batch_entries pb @ [(k, v)] \<rparr>) \<rparr>"
    have "rs \<noteq> []" using Cons.prems(5) False by auto
    then have step: "replay_loop crc st (entry_bytes crc e @ tl) = replay_loop crc ?st tl" for tl
      using Cons.prems seq unat_seq_less [of k]
        replay_loop_record [OF enc, of crc st tl] replay_record_data [OF enc kd, of crc st]
      by (simp add: e replay_data_def Let_def)
    have "stopped_at (start_offset pb) ?st (replay_loop crc ?st
            (take (n - length (entry_bytes crc e)) (concat (map (entry_bytes crc) rs))))"
      using Cons.IH [of ?st "pb \<lparr> batch_entries := batch_entries pb @ [(k, v)] \<rparr>"
          "n - length (entry_bytes crc e)"] Cons.prems False by (simp add: e)
    then show ?thesis
      using False by (simp add: step stopped_at_def)
  qed
qed simp

lemma replay_torn_batch:
  assumes "batch_ok b" "pending_batch st = None" "0 < n" "n < length (batch_bytes crc b)"
  shows "stopped_at (last_good_offset st) st (replay_loop crc st (take n (batch_bytes crc b)))"
proof (cases "n < length (entry_bytes crc (batch_marker b))")
  case True
  then show ?thesis
    using assms replay_torn_record [of "batch_marker b" n crc st]
    by (simp add: batch_bytes_def batch_marker_encodable truncate_offset_def)
next
  case False
  have "stopped_at (last_good_offset st) (after_marker crc b st)
     (replay_loop crc (after_marker crc b st)
       (take (n - length (entry_bytes crc (batch_marker b))) (concat (map (entry_bytes crc) b))))"
    using assms False replay_torn_records [of "after_marker crc b st" _ b
        "n - length (entry_bytes crc (batch_marker b))" crc]
    by (simp add: after_marker_def batch_ok_def batch_bytes_def)
  then have "stopped_at (last_good_offset st) st
     (replay_loop crc (after_marker crc b st)
       (take (n - length (entry_bytes crc (batch_marker b))) (concat (map (entry_bytes crc) b))))"
    by (simp add: stopped_at_def after_marker_def)
  then show ?thesis
    using False assms by (simp add: batch_bytes_def replay_marker)
qed

section \<open>Whole logs\<close>

definition log_bytes :: "(bytes \<Rightarrow> u32) \<Rightarrow> wal_entry list list \<Rightarrow> bytes" where
  "log_bytes crc bs = concat (map (batch_bytes crc) bs)"

lemma log_bytes_simps [simp]:
  "log_bytes crc [] = []"
  "log_bytes crc (b # bs) = batch_bytes crc b @ log_bytes crc bs"
  "log_bytes crc (bs @ cs) = log_bytes crc bs @ log_bytes crc cs"
  by (simp_all add: log_bytes_def)

lemma batch_bytes_nonempty [simp]: "batch_bytes crc b \<noteq> []"
  by (simp add: batch_bytes_def raw_record_def)

lemma emit_entry_offset:
  "(emit_entry e st) \<lparr> last_good_offset := n \<rparr> = emit_entry e (st \<lparr> last_good_offset := n \<rparr>)"
  by (cases st) (simp add: emit_entry_def)

lemma fold_emit_entry_eq:
  "fold emit_entry es st = st \<lparr>
     max_sequence := fold (\<lambda>e m. max m (sequence_number (fst e))) es (max_sequence st),
     entries := entries st + length es, emitted := emitted st @ es \<rparr>"
  by (rule Replay.equality) (simp_all add: fold_emit_entry)

lemma fold_emit_offset:
  "(fold emit_entry es st) \<lparr> last_good_offset := n \<rparr> = fold emit_entry es (st \<lparr> last_good_offset := n \<rparr>)"
  by (induction es arbitrary: st) (simp_all add: emit_entry_offset)

definition after_log :: "(bytes \<Rightarrow> u32) \<Rightarrow> wal_entry list list \<Rightarrow> Replay \<Rightarrow> Replay" where
  "after_log crc bs st =
     fold emit_entry (concat bs) (st \<lparr> last_good_offset := last_good_offset st + length (log_bytes crc bs) \<rparr>)"

lemma after_log_sel:
  "pending_batch (after_log crc bs st) = pending_batch st"
  "wal_file (after_log crc bs st) = wal_file st"
  "emitted (after_log crc bs st) = emitted st @ concat bs"
  "entries (after_log crc bs st) = entries st + length (concat bs)"
  "truncated (after_log crc bs st) = truncated st"
  "last_good_offset (after_log crc bs st) = last_good_offset st + length (log_bytes crc bs)"
  by (simp_all add: after_log_def fold_emit_entry)

lemma replay_log:
  "list_all batch_ok bs \<Longrightarrow> pending_batch st = None \<Longrightarrow>
   replay_loop crc st (log_bytes crc bs @ rest) = replay_loop crc (after_log crc bs st) rest"
proof (induction bs arbitrary: st)
  case (Cons b bs)
  then show ?case
    by (simp add: replay_batch fold_emit_entry after_log_def fold_emit_offset add.assoc)
qed (simp add: after_log_def)

text \<open>How many whole batches the first \<open>n\<close> bytes of a log hold.\<close>

fun whole_batches :: "(bytes \<Rightarrow> u32) \<Rightarrow> nat \<Rightarrow> wal_entry list list \<Rightarrow> nat" where
  "whole_batches crc n [] = 0"
| "whole_batches crc n (b # bs) =
     (if n < length (batch_bytes crc b) then 0
      else Suc (whole_batches crc (n - length (batch_bytes crc b)) bs))"

lemma whole_batches_le: "whole_batches crc n bs \<le> length bs"
  by (induction bs arbitrary: n) auto

lemma whole_batches_fit:
  "length (log_bytes crc (take (whole_batches crc n bs) bs)) \<le> n"
proof (induction bs arbitrary: n)
  case (Cons b bs)
  show ?case using Cons [of "n - length (batch_bytes crc b)"] by simp arith
qed simp

lemma replay_torn_log:
  assumes "list_all batch_ok bs" "n \<le> length (log_bytes crc bs)" "pending_batch st = None"
    and "wal_file st = pre @ take n (log_bytes crc bs)" "length pre = last_good_offset st"
  shows "\<exists>st'. replay_loop crc st (take n (log_bytes crc bs)) = (Ok (replay_stats st'), st') \<and>
     emitted st' = emitted st @ concat (take (whole_batches crc n bs) bs) \<and>
     entries st' = entries st + length (concat (take (whole_batches crc n bs) bs)) \<and>
     wal_file st' = pre @ log_bytes crc (take (whole_batches crc n bs) bs) \<and>
     (truncated st' \<longleftrightarrow> truncated st \<or> length (log_bytes crc (take (whole_batches crc n bs) bs)) < n)"
  using assms
proof (induction bs arbitrary: n st pre)
  case Nil
  then show ?case by (auto simp: replay_loop.simps [of _ _ "[]"] read_record_def read_exact_or_eof_def)
next
  case (Cons b bs)
  have ok: "batch_ok b" "list_all batch_ok bs" using Cons.prems by auto
  show ?case
  proof (cases "n < length (batch_bytes crc b)")
    case True
    show ?thesis
    proof (cases "n = 0")
      case True
      then show ?thesis
        using Cons.prems
        by (auto simp: replay_loop.simps [of _ _ "[]"] read_record_def read_exact_or_eof_def)
    next
      case False
      then show ?thesis
        using replay_torn_batch [OF ok(1) Cons.prems(3), of n crc] Cons.prems True
        by (auto simp: stopped_at_def)
    qed
  next
    case False
    let ?st = "fold emit_entry b (st \<lparr> last_good_offset := last_good_offset st + length (batch_bytes crc b) \<rparr>)"
    have step: "replay_loop crc st (take n (log_bytes crc (b # bs)))
        = replay_loop crc ?st (take (n - length (batch_bytes crc b)) (log_bytes crc bs))"
      using False replay_batch [OF ok(1) Cons.prems(3), of crc] by simp
    obtain m where n: "n = length (batch_bytes crc b) + m"
      using False by (metis le_Suc_ex linorder_not_less)
    show ?thesis
      unfolding step
      using Cons.IH [of m ?st "pre @ batch_bytes crc b"] Cons.prems
      by (simp add: fold_emit_entry n add.assoc)
  qed
qed

text \<open>Preallocated space behind the log reads as zeros.\<close>

lemma from_le_zeros: "from_le (replicate n 0) = (0 :: 'a::len word)"
  by (induction n) simp_all

lemma read_record_zeros:
  "\<exists>rest. read_record (replicate n 0) =
     (Ok (if n = 0 then REof else if n < 4 then RPartial ChecksumStage
          else if n < 8 then RPartial BodyStage else RInvalidKeyLen), rest)"
proof -
  consider "n = 0" | "0 < n" "n < 4" | "4 \<le> n" "n < 8" | "8 \<le> n" by linarith
  then show ?thesis
    by cases (auto simp: read_record_def read_exact_or_eof_def from_le_zeros min_def Let_def)
qed

lemma replay_zeros:
  assumes "pending_batch st = None" "wal_file st = pre @ replicate n 0"
    "length pre = last_good_offset st"
  shows "\<exists>st'. replay_loop crc st (replicate n 0) = (Ok (replay_stats st'), st') \<and>
     emitted st' = emitted st \<and> entries st' = entries st \<and> wal_file st' = pre \<and>
     (truncated st' \<longleftrightarrow> truncated st \<or> 0 < n)"
  using read_record_zeros [of n] assms
  by (subst replay_loop.simps)
    (auto simp: truncate_and_sync_def truncate_offset_def Let_def)

section \<open>Recovery is idempotent on every file\<close>

lemma replay_record_Continue:
  assumes "replay_record crc st r = Continue st1"
  shows "replay_record crc (st \<lparr> wal_file := f \<rparr>) r = Continue (st1 \<lparr> wal_file := f \<rparr>)"
    and "wal_file st1 = wal_file st" and "last_good_offset st1 = last_good_offset st + total_len r"
    and "truncated st1 = truncated st"
    and "pending_batch st1 = Some b1 \<Longrightarrow>
           (emitted st1, entries st1, max_sequence st1) = (emitted st, entries st, max_sequence st) \<and>
           start_offset b1 = truncate_offset st"
proof -
  from assms obtain kd where cs: "checksum_matches crc r" and kd: "kind (rec_key r) = Ok kd"
    by (auto simp: replay_record_def into_parts_def Let_def split: if_splits sum.splits)
  note rr = replay_record_def into_parts_def Let_def cs kd
  show "replay_record crc (st \<lparr> wal_file := f \<rparr>) r = Continue (st1 \<lparr> wal_file := f \<rparr>)"
    using assms
    by (cases st) (auto simp: rr replay_batch_begin_def replay_data_def fold_emit_entry_eq
        emit_entry_def split: if_splits option.splits sum.splits)
  show "wal_file st1 = wal_file st" "last_good_offset st1 = last_good_offset st + total_len r"
    "truncated st1 = truncated st"
    using assms
    by (auto simp: rr replay_batch_begin_def replay_data_def fold_emit_entry emit_entry_def
        split: if_splits option.splits sum.splits)
  assume "pending_batch st1 = Some b1"
  then show "(emitted st1, entries st1, max_sequence st1) = (emitted st, entries st, max_sequence st) \<and>
           start_offset b1 = truncate_offset st"
    using assms
    by (auto simp: rr replay_batch_begin_def replay_data_def fold_emit_entry emit_entry_def
        truncate_offset_def split: if_splits option.splits sum.splits)
qed

lemma replay_record_Break:
  assumes "replay_record crc st r = Break st1"
  shows "stopped_at (truncate_offset st) st (Ok (replay_stats st1), st1)"
  using assms
  by (auto simp: replay_record_def into_parts_def Let_def replay_batch_begin_def replay_data_def
      stopped_at_def truncate_and_sync_def truncate_offset_def
      split: if_splits option.splits sum.splits)

text \<open>
  \<open>resumes st off st' rest\<close>: cutting the unread part at offset \<open>off\<close> and
  replaying again from \<open>st\<close> ends cleanly with what \<open>st'\<close> had emitted.
\<close>

definition same_entries :: "Replay \<Rightarrow> Replay \<Rightarrow> bool" where
  "same_entries s t \<longleftrightarrow> emitted s = emitted t \<and> entries s = entries t \<and> max_sequence s = max_sequence t"

definition resumes :: "(bytes \<Rightarrow> u32) \<Rightarrow> Replay \<Rightarrow> nat \<Rightarrow> Replay \<Rightarrow> bytes \<Rightarrow> bool" where
  "resumes crc st off st' rest \<longleftrightarrow> last_good_offset st \<le> off \<and>
     (\<forall>f. \<exists>s. replay_loop crc (st \<lparr> wal_file := f \<rparr>) (take (off - last_good_offset st) rest)
                = (Ok (replay_stats s), s) \<and>
        same_entries s st' \<and> wal_file s = f \<and> truncated s = truncated st)"

lemma replay_loop_Nil:
  "pending_batch st = None \<Longrightarrow> replay_loop crc st [] = (Ok (replay_stats st), st)"
  by (subst replay_loop.simps) (simp add: read_record_def read_exact_or_eof_def)

lemma read_record_REof: "read_record bs = (Ok REof, rest) \<Longrightarrow> bs = []"
  unfolding read_record_def Let_def read_exact_or_eof_def [of 4 bs]
  by (simp split: if_splits prod.splits sum.splits)

lemma resumes_here:
  "pending_batch st = None \<Longrightarrow> same_entries st st' \<Longrightarrow> resumes crc st (last_good_offset st) st' rest"
  by (simp add: resumes_def replay_loop_Nil same_entries_def)

text \<open>How one turn of the loop can lead to a successful end.\<close>

lemma stopped_at_truncate:
  "same_entries t st \<Longrightarrow> wal_file t = wal_file st \<Longrightarrow>
   stopped_at off st (Ok (replay_stats (truncate_and_sync off t)), truncate_and_sync off t)"
  by (simp add: stopped_at_def truncate_and_sync_def same_entries_def)

lemma replay_loop_Ok_cases:
  assumes "replay_loop crc st rest = (Ok stats, st')"
  obtains (eof) "rest = []" "pending_batch st = None" "st' = st"
    | (stop) "stopped_at (truncate_offset st) st (Ok stats, st')"
    | (step) r rest' st1 where "wf_record r" "rest = raw_record r @ rest'"
        "replay_record crc st r = Continue st1" "replay_loop crc st1 rest' = (Ok stats, st')"
proof -
  obtain out rest' where rd: "read_record rest = (out, rest')" by fastforce
  note loop = assms [unfolded replay_loop.simps [of crc st rest] rd, simplified]
  show thesis
  proof (cases out)
    case (Inl e)
    with loop show thesis by simp
  next
    case (Inr rr)
    show thesis
    proof (cases rr)
      case REof
      show thesis
      proof (cases "pending_batch st")
        case None
        with loop Inr REof have "st' = st" by simp
        then show thesis using eof None read_record_REof rd Inr REof by simp
      next
        case (Some b)
        with loop Inr REof show thesis
          using stop stopped_at_truncate [of "st \<lparr> pending_batch := None \<rparr>" st "start_offset b"]
          by (auto simp: Let_def truncate_offset_def same_entries_def)
      qed
    next
      case (RPartial p)
      with loop Inr show thesis
        using stop stopped_at_truncate [of st st "truncate_offset st"]
        by (auto simp: Let_def same_entries_def)
    next
      case RInvalidKeyLen
      with loop Inr show thesis
        using stop stopped_at_truncate [of st st "truncate_offset st"]
        by (auto simp: Let_def same_entries_def)
    next
      case (RRecord r)
      note sound = read_record_sound [OF rd [unfolded Inr RRecord]]
      show thesis
      proof (cases "replay_record crc st r")
        case (Continue st1)
        with loop Inr RRecord step [OF sound(2,1) Continue] show thesis by simp
      next
        case (Break st1)
        with loop Inr RRecord stop replay_record_Break [OF Break] show thesis by auto
      next
        case (Fail e st1)
        with loop Inr RRecord show thesis by simp
      qed
    qed
  qed
qed

lemma replay_loop_resumes:
  assumes "replay_loop crc st rest = (Ok stats, st')"
    and "wal_file st = pre @ rest" "length pre = last_good_offset st"
  shows "\<exists>off. wal_file st' = take off (wal_file st) \<and>
           (pending_batch st \<noteq> None \<and> off = truncate_offset st \<and> same_entries st' st
            \<or> resumes crc st off st' rest)"
  using assms
proof (induction "length rest" arbitrary: st rest pre rule: less_induct)
  case less
  from less.prems(1) show ?case
  proof (cases rule: replay_loop_Ok_cases)
    case eof
    then show ?thesis
      using less.prems resumes_here [of st st crc rest]
      by (intro exI [of _ "last_good_offset st"]) (simp add: same_entries_def)
  next
    case stop
    then show ?thesis
      using resumes_here [of st st' crc rest]
      by (cases "pending_batch st")
        (auto simp: stopped_at_def same_entries_def truncate_offset_def)
  next
    case (step r rest' st1)
    note cont = replay_record_Continue [OF step(3)]
    have len: "length (raw_record r) = total_len r" by (rule length_raw_record [OF step(1)])
    have "length rest' < length rest" by (simp add: step(2) raw_record_def)
    then obtain off where cut: "wal_file st' = take off (wal_file st)"
      and alt: "pending_batch st1 \<noteq> None \<and> off = truncate_offset st1 \<and> same_entries st' st1
        \<or> resumes crc st1 off st' rest'"
      using less.hyps [OF _ step(4), of "pre @ raw_record r"] less.prems(2,3) step(2) cont(2,3) len
      by auto
    from alt show ?thesis
    proof
      assume "pending_batch st1 \<noteq> None \<and> off = truncate_offset st1 \<and> same_entries st' st1"
      then obtain b1 where b1: "pending_batch st1 = Some b1" and off: "off = start_offset b1"
        and same: "same_entries st' st1"
        by (auto simp: truncate_offset_def)
      from cont(5) [OF b1] same have same: "same_entries st' st" and off: "off = truncate_offset st"
        by (auto simp: same_entries_def off)
      then show ?thesis
        using cut resumes_here [of st st' crc rest]
        by (cases "pending_batch st") (auto simp: truncate_offset_def same_entries_def)
    next
      assume res: "resumes crc st1 off st' rest'"
      then have "resumes crc st off st' rest"
        using cont(1,3,4) len
        by (auto simp: resumes_def step(2) replay_loop_raw [OF step(1)])
      then show ?thesis using cut by blast
    qed
  qed
qed

lemma replay_loop_stats:
  "replay_loop crc st rest = (Ok stats, st') \<Longrightarrow> stats = replay_stats st'"
proof (induction "length rest" arbitrary: st rest rule: less_induct)
  case less
  from less.prems show ?case
  proof (cases rule: replay_loop_Ok_cases)
    case eof
    then show ?thesis using less.prems by (simp add: replay_loop_Nil)
  next
    case (step r rest' st1)
    then show ?thesis using less.hyps [of rest' st1] by (simp add: raw_record_def)
  qed (auto simp: stopped_at_def)
qed

section \<open>Properties\<close>

text \<open>
  (C1) Crash atomicity of the log.  Take any sequence of batches that the encoder
  accepts, and cut the resulting file after any number \<open>n\<close> of bytes, as a crash in
  the middle of a write does.  Replay succeeds, passes on exactly the entries of
  the batches that lie completely in the first \<open>n\<close> bytes, in order, reports
  truncation iff bytes of an incomplete batch were present, and leaves a file that
  holds just those complete batches.
\<close>

theorem replay_crash_atomic:
  assumes "list_all batch_ok bs" "n \<le> length (log_bytes crc bs)"
  shows "\<exists>st. replay_wal_file crc (take n (log_bytes crc bs)) = (Ok (replay_stats st), st) \<and>
     emitted st = concat (take (whole_batches crc n bs) bs) \<and>
     wal_file st = log_bytes crc (take (whole_batches crc n bs) bs) \<and>
     (truncated st \<longleftrightarrow> length (log_bytes crc (take (whole_batches crc n bs) bs)) < n)"
  using replay_torn_log [OF assms, of "replay_init (take n (log_bytes crc bs))" "[]"]
  by (auto simp: replay_wal_file_def replay_init_def)

definition sample_entry :: "u64 \<Rightarrow> bytes \<Rightarrow> InternalKeyKind \<Rightarrow> wal_entry" where
  "sample_entry s uk kd =
     (\<lparr> user_key = uk, encoded_sequence_number = push_bit 8 s OR ucast (kind_to_u8 kd) \<rparr>, uk)"

lemma sample_entry_facts:
  assumes "s \<le> SEQUENCE_NUMBER_MAX"
  shows "sequence_number (fst (sample_entry s uk kd)) = s" "kind (fst (sample_entry s uk kd)) = Ok kd"
    "user_key (fst (sample_entry s uk kd)) = uk" "snd (sample_entry s uk kd) = uk"
proof -
  have "new_InternalKey uk s kd = Ok (fst (sample_entry s uk kd))"
    using assms by (simp add: new_InternalKey_def sample_entry_def linorder_not_less)
  from new_InternalKey_Ok [OF this]
  show "sequence_number (fst (sample_entry s uk kd)) = s" "kind (fst (sample_entry s uk kd)) = Ok kd"
    "user_key (fst (sample_entry s uk kd)) = uk" "snd (sample_entry s uk kd) = uk"
    by (simp_all add: sample_entry_def)
qed

definition sample_batch :: "wal_entry list" where
  "sample_batch = [sample_entry 7 [1, 2] Put, sample_entry 8 [3] Delete]"

lemma sample_batch_ok: "batch_ok sample_batch"
  using sample_entry_facts [of 7 "[1, 2]" Put] sample_entry_facts [of 8 "[3]" Delete]
  by (cases "sample_entry 7 [1, 2] Put"; cases "sample_entry 8 [3] Delete")
    (simp add: sample_batch_def batch_ok_def SEQUENCE_NUMBER_MAX_val encodable_def serialized_size_def)

theorem replay_crash_atomic_witness:
  "\<exists>st. replay_wal_file (\<lambda>_. 0) (take 5 (log_bytes (\<lambda>_. 0) [sample_batch])) = (Ok (replay_stats st), st) \<and>
     emitted st = [] \<and> truncated st"
proof -
  have big: "5 < length (batch_bytes (\<lambda>_. 0) sample_batch)"
    by (simp add: batch_bytes_def raw_record_def)
  then show ?thesis
    using replay_crash_atomic [of "[sample_batch]" 5 "\<lambda>_. 0"] sample_batch_ok by auto
qed

text \<open>
  (C3) Recovery is idempotent on every file, however damaged.  Whenever replay
  succeeds, the file it leaves is a prefix of the one it found, and replaying that
  file again succeeds with the same entries, the same counters and no further
  truncation.
\<close>

theorem replay_idempotent:
  assumes "replay_wal_file crc content = (Ok stats, st)"
  shows "prefix (wal_file st) content \<and>
     (\<exists>st2. replay_wal_file crc (wal_file st) = (Ok (replay_stats st2), st2) \<and>
       emitted st2 = emitted st \<and> wal_file st2 = wal_file st \<and> \<not> truncated st2 \<and>
       stat_entries stats = entries st2 \<and> stat_max_sequence stats = max_sequence st2)"
proof -
  have init: "wal_file (replay_init content) = [] @ content"
    "length [] = last_good_offset (replay_init content)"
    "pending_batch (replay_init content) = None"
    by (simp_all add: replay_init_def)
  from replay_loop_resumes [OF assms [unfolded replay_wal_file_def] init(1,2)] init
  obtain off where off: "wal_file st = take off content"
    and res: "resumes crc (replay_init content) off st content"
    by (auto simp: replay_init_def)
  have "stats = replay_stats st"
    using replay_loop_stats [of crc "replay_init content" content] assms
    by (simp add: replay_wal_file_def)
  with res show ?thesis
    unfolding resumes_def
    by (auto simp: replay_wal_file_def replay_init_def off same_entries_def replay_stats_def
        take_is_prefix dest!: spec [of _ "take off content"])
qed

theorem replay_idempotent_witness:
  "\<exists>st. replay_wal_file (\<lambda>_. 0) (take 5 (log_bytes (\<lambda>_. 0) [sample_batch])) = (Ok (replay_stats st), st) \<and>
     truncated st \<and> wal_file st = [] \<and>
     (\<exists>st2. replay_wal_file (\<lambda>_. 0) [] = (Ok (replay_stats st2), st2) \<and> \<not> truncated st2)"
proof -
  let ?file = "take 5 (log_bytes (\<lambda>_. 0) [sample_batch])"
  have big: "5 < length (batch_bytes (\<lambda>_. 0) sample_batch)"
    by (simp add: batch_bytes_def raw_record_def)
  then obtain st where st: "replay_wal_file (\<lambda>_. 0) ?file = (Ok (replay_stats st), st)"
    "truncated st" "wal_file st = []"
    using replay_torn_log [of "[sample_batch]" 5 "\<lambda>_. 0" "replay_init ?file" "[]"] sample_batch_ok
    by (auto simp: replay_wal_file_def replay_init_def)
  with replay_idempotent [OF st(1)] show ?thesis by auto
qed

text \<open>
  (C23) Space preallocated behind the log is harmless: a file that holds complete
  batches followed by any number of zero bytes replays to exactly those batches,
  and the zeros are cut off.
\<close>

theorem replay_preallocated:
  assumes "list_all batch_ok bs"
  shows "\<exists>st. replay_wal_file crc (log_bytes crc bs @ replicate n 0) = (Ok (replay_stats st), st) \<and>
     emitted st = concat bs \<and> entries st = length (concat bs) \<and>
     wal_file st = log_bytes crc bs \<and> (truncated st \<longleftrightarrow> 0 < n)"
proof -
  let ?file = "log_bytes crc bs @ replicate n 0"
  let ?st = "after_log crc bs (replay_init ?file)"
  have "replay_wal_file crc ?file = replay_loop crc ?st (replicate n 0)"
    using replay_log [OF assms, of "replay_init ?file" crc "replicate n 0"]
    by (simp add: replay_wal_file_def replay_init_def)
  then show ?thesis
    using replay_zeros [of ?st "log_bytes crc bs" n crc]
    by (simp add: after_log_sel) (simp add: replay_init_def)
qed

theorem replay_preallocated_witness:
  "\<exists>st. replay_wal_file (\<lambda>_. 3) (log_bytes (\<lambda>_. 3) [sample_batch] @ replicate 100 0)
       = (Ok (replay_stats st), st) \<and> emitted st = sample_batch \<and> truncated st"
  using replay_preallocated [of "[sample_batch]" "\<lambda>_. 3" 100] sample_batch_ok by auto

end
