(* ===== verification/Wal_Writer.thy ===== *)
theory Wal_Writer
  imports Wal_Recovery
begin

text \<open>
  \<open>storage/wal/writer.rs\<close>: the appender of the write-ahead log with
  preallocation, buffered writes and sync policy.  The open file is the record
  \<open>os_file\<close> (content, write position, the content a completed \<open>sync_data\<close> made
  durable).  Whether a system call succeeds is the parameter \<open>io\<close>, asked by the
  operation name the code puts into its \<open>Io\<close> error; a failing write or flush still
  stores the first \<open>torn\<close> bytes.  Sizes are natural numbers with the saturating
  additions of the code.
\<close>

record os_file =
  content :: bytes
  durable :: bytes
  position :: nat

record wal_io =
  io_ok :: "string \<Rightarrow> bool"
  torn :: nat

definition set_len :: "nat \<Rightarrow> os_file \<Rightarrow> os_file" where
  "set_len n f = f \<lparr> content := take n (content f) @ replicate (n - length (content f)) 0 \<rparr>"

definition write_at_pos :: "bytes \<Rightarrow> os_file \<Rightarrow> os_file" where
  "write_at_pos data f = f \<lparr> content := take (position f) (content f)
       @ replicate (position f - length (content f)) 0
       @ data @ drop (position f + length data) (content f),
     position := position f + length data \<rparr>"

definition sat_add64 :: "nat \<Rightarrow> nat \<Rightarrow> nat" where
  "sat_add64 a b = min (2 ^ 64 - 1) (a + b)"

record WalWriterConfig =
  wal_sync :: bool
  wal_preallocate_bytes :: nat
  wal_bytes_per_sync :: nat

record WalWriterState =
  buffer :: bytes
  w_file :: os_file
  closed :: bool
  logical_size :: nat
  preallocated_size :: nat
  bytes_since_last_sync :: nat
  sync_calls :: nat

text \<open>Fallible updates of the writer state, and their sequencing by \<open>?\<close>.\<close>

type_synonym 'a wal_op = "WalWriterState \<Rightarrow> 'a result \<times> WalWriterState"

definition wal_then :: "'a wal_op \<Rightarrow> ('a \<Rightarrow> 'b wal_op) \<Rightarrow> 'b wal_op" where
  "wal_then m k st = (case m st of (Inl e, st') \<Rightarrow> (Inl e, st') | (Inr x, st') \<Rightarrow> k x st')"

definition wal_ok :: "unit wal_op" where
  "wal_ok st = (Ok (), st)"

definition wal_modify :: "(WalWriterState \<Rightarrow> WalWriterState) \<Rightarrow> unit wal_op" where
  "wal_modify f st = (Ok (), f st)"

definition open_state :: "wal_io \<Rightarrow> os_file \<Rightarrow> WalWriterState result" where
  "open_state io f =
     (if \<not> io_ok io ''wal_open_for_rw'' then Err (Io ''wal_open_for_rw'')
      else if \<not> io_ok io ''wal_metadata'' then Err (Io ''wal_metadata'')
      else if \<not> io_ok io ''wal_seek_to_end'' then Err (Io ''wal_seek_to_end'')
      else Ok \<lparr> buffer = [], w_file = f \<lparr> position := length (content f) \<rparr>, closed = False,
                logical_size = length (content f), preallocated_size = length (content f),
                bytes_since_last_sync = 0, sync_calls = 0 \<rparr>)"

definition write_bytes :: "wal_io \<Rightarrow> bytes \<Rightarrow> unit wal_op" where
  "write_bytes io data st =
     (if io_ok io ''wal_write_bytes'' then (Ok (), st \<lparr> buffer := buffer st @ data \<rparr>)
      else (Err (Io ''wal_write_bytes''),
            st \<lparr> w_file := write_at_pos (take (torn io) data) (w_file st) \<rparr>))"

definition flush_writer :: "wal_io \<Rightarrow> unit wal_op" where
  "flush_writer io st =
     (if io_ok io ''wal_flush''
      then (Ok (), st \<lparr> w_file := write_at_pos (buffer st) (w_file st), buffer := [] \<rparr>)
      else (Err (Io ''wal_flush''),
            st \<lparr> w_file := write_at_pos (take (torn io) (buffer st)) (w_file st),
                 buffer := drop (torn io) (buffer st) \<rparr>))"

definition sync_state :: "wal_io \<Rightarrow> unit wal_op" where
  "sync_state io st =
     (if io_ok io ''wal_sync_data''
      then (Ok (), st \<lparr> w_file := (w_file st) \<lparr> durable := content (w_file st) \<rparr>,
                        sync_calls := sat_add64 (sync_calls st) 1 \<rparr>)
      else (Err (Io ''wal_sync_data''), st))"

text \<open>
  \<open>div_ceil(..) * preallocate_bytes\<close> overflows only for a file of almost \<open>2 ^ 64\<close> bytes, more than
  \<open>set_len\<close> accepts; the product is taken as checked and the overflow is a panic.
\<close>

definition ensure_preallocated :: "wal_io \<Rightarrow> nat \<Rightarrow> nat \<Rightarrow> unit wal_op" where
  "ensure_preallocated io incoming prealloc st =
     (if prealloc = 0 then (Ok (), st)
      else
        let required = sat_add64 (logical_size st) incoming in
        if required \<le> preallocated_size st then (Ok (), st)
        else
          let rounded = (required + prealloc - 1) div prealloc * prealloc in
          if 2 ^ 64 \<le> rounded then (Err (Panic ''attempt to multiply with overflow''), st)
          else if \<not> io_ok io ''wal_preallocate_set_len''
          then (Err (Io ''wal_preallocate_set_len''), st)
          else (Ok (), st \<lparr> w_file := set_len rounded (w_file st), preallocated_size := rounded \<rparr>))"

definition truncate_to_logical_size :: "wal_io \<Rightarrow> unit wal_op" where
  "truncate_to_logical_size io st =
     (if preallocated_size st \<le> logical_size st then (Ok (), st)
      else if \<not> io_ok io ''wal_truncate_to_logical_size''
      then (Err (Io ''wal_truncate_to_logical_size''), st)
      else (Ok (), st \<lparr> w_file := set_len (logical_size st) (w_file st),
                        preallocated_size := logical_size st \<rparr>))"

definition finalize_active_file :: "wal_io \<Rightarrow> bool \<Rightarrow> unit wal_op" where
  "finalize_active_file io sync =
     wal_then (flush_writer io) (\<lambda>_.
     wal_then (truncate_to_logical_size io) (\<lambda>_.
     if sync then sync_state io else wal_ok))"

text \<open>The second half of \<open>append_raw\<close>: write, count, flush, and sync if it is due.\<close>

definition append_write :: "WalWriterConfig \<Rightarrow> wal_io \<Rightarrow> bytes \<Rightarrow> unit wal_op" where
  "append_write cfg io data =
     wal_then (write_bytes io data) (\<lambda>_.
     wal_then (wal_modify (\<lambda>s. s \<lparr>
         logical_size := sat_add64 (logical_size s) (length data),
         bytes_since_last_sync := sat_add64 (bytes_since_last_sync s) (length data) \<rparr>)) (\<lambda>_.
     wal_then (flush_writer io) (\<lambda>_ s.
       if wal_sync cfg
          \<or> 0 < wal_bytes_per_sync cfg \<and> wal_bytes_per_sync cfg \<le> bytes_since_last_sync s
       then wal_then (sync_state io)
              (\<lambda>_. wal_modify (\<lambda>s. s \<lparr> bytes_since_last_sync := 0 \<rparr>)) s
       else (Ok (), s))))"

definition append_raw :: "WalWriterConfig \<Rightarrow> wal_io \<Rightarrow> bytes \<Rightarrow> unit wal_op" where
  "append_raw cfg io data st =
     (if data = [] then (Ok (), st)
      else if closed st then (Err (Unavailable ''wal_writer'' ''WAL writer closed''), st)
      else
        wal_then (if 0 < wal_preallocate_bytes cfg
                  then ensure_preallocated io (length data) (wal_preallocate_bytes cfg)
                  else wal_ok) (\<lambda>_. append_write cfg io data) st)"

definition append :: "WalWriterConfig \<Rightarrow> wal_io \<Rightarrow> (bytes \<Rightarrow> u32) \<Rightarrow> InternalKey \<Rightarrow> bytes \<Rightarrow> unit wal_op" where
  "append cfg io crc k v = append_raw cfg io (encode_record crc k v)"

definition append_batch ::
  "WalWriterConfig \<Rightarrow> wal_io \<Rightarrow> (bytes \<Rightarrow> u32) \<Rightarrow> wal_entry list \<Rightarrow> unit wal_op" where
  "append_batch cfg io crc records st =
     (if records = [] then (Ok (), st)
      else case encode_atomic_batch_into crc [] records of
        Inl e \<Rightarrow> (Err e, st)
      | Inr encoded \<Rightarrow> append_raw cfg io encoded st)"

fun encode_grouped_batches ::
  "(bytes \<Rightarrow> u32) \<Rightarrow> bytes \<Rightarrow> wal_entry list list \<Rightarrow> bytes result" where
  "encode_grouped_batches crc encoded [] = Ok encoded"
| "encode_grouped_batches crc encoded (batch # batches) =
     (if batch = [] then encode_grouped_batches crc encoded batches
      else and_then (encode_atomic_batch_into crc encoded batch)
             (\<lambda>encoded'. encode_grouped_batches crc encoded' batches))"

definition append_grouped_batches ::
  "WalWriterConfig \<Rightarrow> wal_io \<Rightarrow> (bytes \<Rightarrow> u32) \<Rightarrow> wal_entry list list \<Rightarrow> unit wal_op" where
  "append_grouped_batches cfg io crc batches st =
     (if batches = [] then (Ok (), st)
      else case encode_grouped_batches crc [] batches of
        Inl e \<Rightarrow> (Err e, st)
      | Inr encoded \<Rightarrow>
          if encoded = [] then (Ok (), st) else append_raw cfg io encoded st)"

definition new_WalWriter :: "WalWriterConfig \<Rightarrow> wal_io \<Rightarrow> os_file \<Rightarrow> WalWriterState result" where
  "new_WalWriter cfg io f =
     and_then (open_state io f) (\<lambda>st.
       if 0 < wal_preallocate_bytes cfg
       then (case ensure_preallocated io 1 (wal_preallocate_bytes cfg) st of
               (Inl e, _) \<Rightarrow> Err e | (Inr _, st') \<Rightarrow> Ok st')
       else Ok st)"

text \<open>
  \<open>rotate\<close> returns the state of the new file; the old file, as it is left on
  disk, is the second component.
\<close>

definition rotate ::
  "WalWriterConfig \<Rightarrow> wal_io \<Rightarrow> os_file \<Rightarrow> WalWriterState \<Rightarrow> unit result \<times> WalWriterState \<times> os_file" where
  "rotate cfg io new_file st =
     (if closed st then (Err (Unavailable ''wal_writer'' ''WAL writer closed''), st, w_file st)
      else case finalize_active_file io (wal_sync cfg) st of
        (Inl e, st') \<Rightarrow> (Err e, st', w_file st')
      | (Inr _, st') \<Rightarrow>
          (case new_WalWriter cfg io new_file of
             Inl e \<Rightarrow> (Err e, st', w_file st')
           | Inr next_st \<Rightarrow> (Ok (), next_st, w_file st')))"

definition drop_WalWriter :: "WalWriterConfig \<Rightarrow> wal_io \<Rightarrow> WalWriterState \<Rightarrow> WalWriterState" where
  "drop_WalWriter cfg io st = snd (finalize_active_file io (wal_sync cfg) (st \<lparr> closed := True \<rparr>))"

section \<open>The log a writer holds\<close>

definition wal_log :: "WalWriterState \<Rightarrow> bytes" where
  "wal_log st = take (logical_size st) (content (w_file st))"

text \<open>
  Between operations nothing is buffered, the write position is the logical size,
  and only preallocated zeros follow the log.
\<close>

definition wal_inv :: "WalWriterState \<Rightarrow> bool" where
  "wal_inv st \<longleftrightarrow> buffer st = [] \<and> position (w_file st) = logical_size st \<and>
     logical_size st \<le> length (content (w_file st)) \<and> logical_size st < 2 ^ 64 \<and>
     drop (logical_size st) (content (w_file st))
       = replicate (preallocated_size st - logical_size st) 0"

lemma wal_inv_content:
  "wal_inv st \<Longrightarrow>
   content (w_file st) = wal_log st @ replicate (preallocated_size st - logical_size st) 0"
  unfolding wal_inv_def wal_log_def by (metis append_take_drop_id)

lemma length_wal_log: "wal_inv st \<Longrightarrow> length (wal_log st) = logical_size st"
  by (simp add: wal_inv_def wal_log_def)

lemma wal_invI:
  assumes "buffer st = []" "position (w_file st) = length l" "logical_size st = length l"
    "content (w_file st) = l @ replicate (preallocated_size st - length l) 0" "length l < 2 ^ 64"
  shows "wal_inv st" "wal_log st = l"
  using assms by (simp_all add: wal_inv_def wal_log_def)

lemma wal_then_Ok:
  "wal_then m k st = (Ok y, st') \<longleftrightarrow> (\<exists>x s. m st = (Ok x, s) \<and> k x s = (Ok y, st'))"
  by (auto simp: wal_then_def split: prod.splits sum.splits)

lemma ceil_mult_ge: "0 < p \<Longrightarrow> n \<le> (n + p - 1) div p * (p :: nat)"
proof -
  assume p: "0 < p"
  have "n + p - 1 < ((n + p - 1) div p + 1) * p"
    using p by (simp add: dividend_less_div_times)
  then show ?thesis using p by (simp add: algebra_simps)
qed

lemma ensure_preallocated_inv:
  assumes "wal_inv st" "ensure_preallocated io n p st = (r, st')"
  shows "wal_inv st'" "wal_log st' = wal_log st" "closed st' = closed st"
    "logical_size st' = logical_size st" "durable (w_file st') = durable (w_file st)"
proof -
  let ?l = "wal_log st" and ?pre = "preallocated_size st"
  note len = length_wal_log [OF assms(1)]
  show c: "closed st' = closed st" "logical_size st' = logical_size st"
    "durable (w_file st') = durable (w_file st)"
    using assms(2) by (auto simp: ensure_preallocated_def set_len_def Let_def split: if_splits)
  consider (same) "st' = st"
    | (grow) m where "?pre < m" "logical_size st \<le> m"
        "st' = st \<lparr> w_file := set_len m (w_file st), preallocated_size := m \<rparr>"
  proof (cases "st' = st")
    case False
    let ?req = "sat_add64 (logical_size st) n"
    let ?m = "(?req + p - 1) div p * p"
    from False assms(2) have p: "0 < p" "?pre < ?req" "?m < 2 ^ 64"
      "st' = st \<lparr> w_file := set_len ?m (w_file st), preallocated_size := ?m \<rparr>"
      by (auto simp: ensure_preallocated_def Let_def split: if_splits)
    have "?req \<le> ?m" by (rule ceil_mult_ge [OF p(1)])
    moreover have "logical_size st \<le> ?m"
      using \<open>?req \<le> ?m\<close> p(3) assms(1)
      by (auto simp: sat_add64_def min_def wal_inv_def split: if_splits)
    ultimately show ?thesis using grow [of ?m] p by simp
  qed blast
  then have "buffer st' = [] \<and> position (w_file st') = length ?l \<and> logical_size st' = length ?l \<and>
    content (w_file st') = ?l @ replicate (preallocated_size st' - length ?l) 0"
  proof cases
    case same
    then show ?thesis
      using assms(1) wal_inv_content [OF assms(1)] len by (simp add: wal_inv_def)
  next
    case grow
    then show ?thesis
      using assms(1) wal_inv_content [OF assms(1)] len
      by (auto simp: wal_inv_def set_len_def replicate_add [symmetric])
  qed
  moreover have "length ?l < 2 ^ 64" using assms(1) len by (simp add: wal_inv_def)
  ultimately show "wal_inv st'" "wal_log st' = wal_log st" using wal_invI [of st' ?l] by auto
qed

text \<open>Whatever fails, what reaches the file is a prefix of the data at the write position.\<close>

lemma append_write_file:
  assumes "append_write cfg io data s = (r, s')" "buffer s = []"
  obtains k where "k \<le> length data"
    and "content (w_file s') = content (write_at_pos (take k data) (w_file s))"
    and "r = Ok () \<Longrightarrow> k = length data \<and> buffer s' = [] \<and>
      position (w_file s') = position (w_file s) + length data \<and>
      logical_size s' = sat_add64 (logical_size s) (length data) \<and>
      preallocated_size s' = preallocated_size s \<and> closed s' = closed s \<and>
      (wal_sync cfg \<longrightarrow> durable (w_file s') = content (w_file s'))"
proof -
  note defs = append_write_def wal_then_def write_bytes_def wal_modify_def flush_writer_def
    sync_state_def write_at_pos_def
  consider "\<not> io_ok io ''wal_write_bytes''"
    | "io_ok io ''wal_write_bytes''" "\<not> io_ok io ''wal_flush''"
    | "io_ok io ''wal_write_bytes''" "io_ok io ''wal_flush''" by blast
  then show thesis
  proof cases
    case 1
    with assms show thesis by (intro that [of "min (torn io) (length data)"]) (auto simp: defs min_def)
  next
    case 2
    with assms show thesis by (intro that [of "min (torn io) (length data)"]) (auto simp: defs min_def)
  next
    case 3
    with assms show thesis
      by (intro that [of "length data"])
        (auto simp: defs simp del: One_nat_def split: if_splits)
  qed
qed

lemma write_at_pos_log:
  assumes "wal_inv st"
  shows "content (write_at_pos data (w_file st)) =
     wal_log st @ data @ replicate (preallocated_size st - logical_size st - length data) 0"
  using assms wal_inv_content [OF assms] length_wal_log [OF assms]
  by (simp add: write_at_pos_def wal_inv_def)

lemma append_raw_Ok:
  assumes "wal_inv st" "append_raw cfg io data st = (Ok (), st')"
    and "logical_size st + length data < 2 ^ 64"
  shows "wal_inv st' \<and> wal_log st' = wal_log st @ data \<and> closed st' = closed st \<and>
    (wal_sync cfg \<and> data \<noteq> [] \<longrightarrow> durable (w_file st') = content (w_file st'))"
proof (cases "data = []")
  case False
  with assms(2) obtain s where
    pre: "(if 0 < wal_preallocate_bytes cfg
           then ensure_preallocated io (length data) (wal_preallocate_bytes cfg) else wal_ok) st = (Ok (), s)"
    and wr: "append_write cfg io data s = (Ok (), st')"
    by (auto simp: append_raw_def wal_then_Ok split: if_splits)
  have s: "wal_inv s" "wal_log s = wal_log st" "closed s = closed st" "logical_size s = logical_size st"
    using ensure_preallocated_inv [OF assms(1)] pre assms(1)
    by (auto simp: wal_ok_def split: if_splits)
  have buf: "buffer s = []" "position (w_file s) = logical_size s" using s(1) by (auto simp: wal_inv_def)
  obtain k where "content (w_file st') = content (write_at_pos (take k data) (w_file s))"
    and post: "k = length data" "buffer st' = []"
    "position (w_file st') = position (w_file s) + length data"
    "logical_size st' = sat_add64 (logical_size s) (length data)"
    "preallocated_size st' = preallocated_size s" "closed st' = closed s"
    "wal_sync cfg \<longrightarrow> durable (w_file st') = content (w_file st')"
    by (rule append_write_file [OF wr buf(1)]) simp
  then have cont: "content (w_file st') = content (write_at_pos data (w_file s))" by simp
  have len: "length (wal_log st @ data) = logical_size st + length data"
    using length_wal_log [OF assms(1)] by simp
  have size: "logical_size st' = logical_size st + length data"
    using post(4) s(4) assms(3) by (simp add: sat_add64_def)
  have "wal_inv st'" "wal_log st' = wal_log st @ data"
    using wal_invI [of st' "wal_log st @ data", unfolded len] post(2,3,5) size buf(2) s assms(3)
    by (simp_all add: cont write_at_pos_log)
  with post(6,7) s(3) show ?thesis by simp
qed (use assms in \<open>simp add: append_raw_def\<close>)

text \<open>Without preallocation the file grows by a prefix of the data in every outcome.\<close>

lemma append_raw_any:
  assumes "wal_inv st" "preallocated_size st \<le> logical_size st" "wal_preallocate_bytes cfg = 0"
    and "append_raw cfg io data st = (r, st')"
  obtains k where "k \<le> length data" "content (w_file st') = wal_log st @ take k data"
    "r = Ok () \<Longrightarrow> k = length data"
proof (cases "data = [] \<or> closed st")
  case True
  then show thesis
    using assms wal_inv_content [OF assms(1)] that [of 0]
    by (auto simp: append_raw_def split: if_splits)
next
  case False
  then have wr: "append_write cfg io data st = (r, st')"
    using assms(3,4) by (simp add: append_raw_def wal_then_def wal_ok_def)
  have "buffer st = []" using assms(1) by (simp add: wal_inv_def)
  from append_write_file [OF wr this] obtain k where "k \<le> length data"
    "content (w_file st') = content (write_at_pos (take k data) (w_file st))"
    "r = Ok () \<Longrightarrow> k = length data" by metis
  then show thesis using that [of k] assms(2) by (simp add: write_at_pos_log [OF assms(1)])
qed

lemma encode_grouped_batches_Ok:
  "encode_grouped_batches crc buf batches = Ok out \<Longrightarrow> list_all (list_all encodable) batches \<Longrightarrow>
   out = buf @ log_bytes crc (filter (\<lambda>b. b \<noteq> []) batches) \<and>
   list_all batch_ok (filter (\<lambda>b. b \<noteq> []) batches)"
proof (induction crc buf batches rule: encode_grouped_batches.induct)
  case (2 crc buf b bs)
  show ?case
  proof (cases "b = []")
    case False
    from 2(3) False obtain out' where out': "encode_atomic_batch_into crc buf b = Ok out'"
      and rest: "encode_grouped_batches crc out' bs = Ok out"
      by (auto simp: and_then_eq_Ok)
    from 2(2) [OF False out' rest] 2(4) out' False show ?thesis
      by (simp add: encode_atomic_batch_into_Ok batch_ok_def)
  qed (use 2 in simp)
qed simp

lemma whole_batches_append:
  "whole_batches crc (length (log_bytes crc bs) + k) (bs @ cs) = length bs + whole_batches crc k cs"
  by (induction bs) simp_all

lemma whole_batches_all [simp]:
  "whole_batches crc (length (log_bytes crc bs)) bs = length bs"
  using whole_batches_append [of crc bs 0 "[]"] by simp

lemma replay_torn_append:
  assumes "list_all batch_ok (bs @ nb)" "k \<le> length (log_bytes crc nb)"
  shows "\<exists>rst. replay_wal_file crc (log_bytes crc bs @ take k (log_bytes crc nb))
       = (Ok (replay_stats rst), rst) \<and>
     emitted rst = concat bs @ concat (take (whole_batches crc k nb) nb)"
proof -
  let ?n = "length (log_bytes crc bs) + k"
  have cut: "log_bytes crc bs @ take k (log_bytes crc nb) = take ?n (log_bytes crc (bs @ nb))" by simp
  show ?thesis
    unfolding cut
    using replay_torn_log [OF assms(1), of ?n crc "replay_init (take ?n (log_bytes crc (bs @ nb)))" "[]"]
      assms(2)
    by (auto simp: replay_wal_file_def whole_batches_append simp del: log_bytes_simps(3))
      (auto simp: replay_init_def)
qed

lemma finalize_active_file_Ok:
  assumes "wal_inv st" "finalize_active_file io sync st = (Ok (), st')"
  shows "content (w_file st') = wal_log st" "sync \<Longrightarrow> durable (w_file st') = wal_log st"
proof -
  have buf: "buffer st = []" using assms(1) by (simp add: wal_inv_def)
  have same: "write_at_pos [] (w_file st) = w_file st"
    using write_at_pos_log [OF assms(1), of "[]"] wal_inv_content [OF assms(1)]
    by (cases "w_file st") (simp add: write_at_pos_def)
  obtain s where fl: "flush_writer io st = (Ok (), s)"
    and rest: "wal_then (truncate_to_logical_size io) (\<lambda>_. if sync then sync_state io else wal_ok) s
       = (Ok (), st')"
    using assms(2) by (auto simp: finalize_active_file_def wal_then_Ok)
  from fl have s: "s = st"
    using buf same by (cases st) (auto simp: flush_writer_def split: if_splits)
  obtain s2 where tr: "truncate_to_logical_size io st = (Ok (), s2)"
    and sy: "(if sync then sync_state io else wal_ok) s2 = (Ok (), st')"
    using rest by (auto simp: s wal_then_Ok)
  have "content (w_file s2) = wal_log st"
    using tr wal_inv_content [OF assms(1)] length_wal_log [OF assms(1)]
    by (auto simp: truncate_to_logical_size_def set_len_def split: if_splits)
  with sy show "content (w_file st') = wal_log st" "sync \<Longrightarrow> durable (w_file st') = wal_log st"
    by (auto simp: sync_state_def wal_ok_def split: if_splits)
qed

lemma open_state_Ok:
  assumes "open_state io f = Ok st" "length (content f) < 2 ^ 64"
  shows "wal_inv st" "wal_log st = content f" "\<not> closed st"
  using assms by (auto simp: open_state_def wal_inv_def wal_log_def split: if_splits)

lemma new_WalWriter_Ok:
  assumes "new_WalWriter cfg io f = Ok st" "length (content f) < 2 ^ 64"
  shows "wal_inv st" "wal_log st = content f" "\<not> closed st"
proof -
  obtain s where s: "open_state io f = Ok s"
    and st: "(if 0 < wal_preallocate_bytes cfg
       then (case ensure_preallocated io 1 (wal_preallocate_bytes cfg) s of
               (Inl e, _) \<Rightarrow> Err e | (Inr _, st') \<Rightarrow> Ok st')
       else Ok s) = Ok st"
    using assms(1) unfolding new_WalWriter_def and_then_eq_Ok by blast
  note inv = open_state_Ok [OF s assms(2)]
  show "wal_inv st" "wal_log st = content f" "\<not> closed st"
    using st inv ensure_preallocated_inv [OF inv(1), of io 1 "wal_preallocate_bytes cfg"]
    by (auto split: if_splits prod.splits sum.splits)
qed

section \<open>The contract of an append-only log\<close>

text \<open>
  What the write path relies on: a successful append adds exactly the given bytes
  behind the current log and keeps the invariant.
\<close>

locale append_log =
  fixes inv :: "'s \<Rightarrow> bool"
    and log :: "'s \<Rightarrow> bytes"
    and fits :: "bytes \<Rightarrow> 's \<Rightarrow> bool"
    and app :: "bytes \<Rightarrow> 's \<Rightarrow> unit result \<times> 's"
  assumes app_inv: "inv s \<Longrightarrow> fits d s \<Longrightarrow> app d s = (Ok (), s') \<Longrightarrow> inv s'"
    and app_log: "inv s \<Longrightarrow> fits d s \<Longrightarrow> app d s = (Ok (), s') \<Longrightarrow> log s' = log s @ d"
begin

inductive appends :: "'s \<Rightarrow> bytes list \<Rightarrow> 's \<Rightarrow> bool" where
  appends_Nil: "appends s [] s"
| appends_Cons: "fits d s \<Longrightarrow> app d s = (Ok (), s') \<Longrightarrow> appends s' ds s'' \<Longrightarrow> appends s (d # ds) s''"

lemma appends_log: "appends s ds s' \<Longrightarrow> inv s \<Longrightarrow> inv s' \<and> log s' = log s @ concat ds"
proof (induction rule: appends.induct)
  case (appends_Cons d s s' ds s'')
  then show ?case using app_inv app_log by (metis append.assoc concat.simps(2))
qed simp

lemma log_prefix: "appends s ds s' \<Longrightarrow> inv s \<Longrightarrow> prefix (log s) (log s')"
  using appends_log by fastforce

end

definition wal_fits :: "bytes \<Rightarrow> WalWriterState \<Rightarrow> bool" where
  "wal_fits data st \<longleftrightarrow> logical_size st + length data < 2 ^ 64"

interpretation wal: append_log wal_inv wal_log wal_fits "append_raw cfg io" for cfg io
proof
  show "wal_inv s'" "wal_log s' = wal_log s @ d"
    if "wal_inv s" "wal_fits d s" "append_raw cfg io d s = (Ok (), s')" for s d s'
    using append_raw_Ok [OF that(1,3)] that(2) by (simp_all add: wal_fits_def)
qed

section \<open>Properties\<close>

text \<open>
  (C2) Appending is crash safe.  On a log of complete batches, without
  preallocation, let \<open>append_grouped_batches\<close> run against a file system that may
  fail at any call and tear any write, and let it return anything.  Recovery of the
  file it leaves succeeds and yields all earlier entries followed by the entries of
  the first \<open>j\<close> of the new batches (empty ones apart), whole batches only, and all of them
  when the append reported success.
\<close>

theorem append_crash_safe:
  assumes "wal_inv st" "wal_preallocate_bytes cfg = 0" "preallocated_size st \<le> logical_size st"
    and "wal_log st = log_bytes crc bs" "list_all batch_ok bs"
    and "list_all (list_all encodable) batches"
    and "append_grouped_batches cfg io crc batches st = (r, st')"
  shows "\<exists>j rst. replay_wal_file crc (content (w_file st')) = (Ok (replay_stats rst), rst) \<and>
     emitted rst = concat bs @ concat (take j (filter (\<lambda>b. b \<noteq> []) batches)) \<and>
     (r = Ok () \<longrightarrow> emitted rst = concat bs @ concat batches)"
proof -
  let ?nb = "filter (\<lambda>b. b \<noteq> []) batches"
  have all: "concat ?nb = concat batches" by (induction batches) auto
  show ?thesis
  proof (cases "encode_grouped_batches crc [] batches")
    case (Inr out)
    note enc = encode_grouped_batches_Ok [OF Inr assms(6)]
    obtain k where k: "k \<le> length out" "content (w_file st') = log_bytes crc bs @ take k out"
      "r = Ok () \<Longrightarrow> k = length out"
    proof (cases "batches = [] \<or> out = []")
      case True
      then have "st' = st" "out = []" using assms(7) Inr
        by (auto simp: append_grouped_batches_def split: if_splits)
      then show thesis using that [of 0] assms(3,4) wal_inv_content [OF assms(1)] by simp
    next
      case False
      then have "append_raw cfg io out st = (r, st')"
        using assms(7) Inr by (simp add: append_grouped_batches_def)
      from append_raw_any [OF assms(1,3,2) this] that assms(4) show thesis by metis
    qed
    have "list_all batch_ok (bs @ ?nb)" "k \<le> length (log_bytes crc ?nb)"
      using assms(5) enc k(1) by auto
    from replay_torn_append [OF this] obtain rst where
      "replay_wal_file crc (content (w_file st')) = (Ok (replay_stats rst), rst)"
      "emitted rst = concat bs @ concat (take (whole_batches crc k ?nb) ?nb)"
      using k(2) enc by auto
    moreover have "r = Ok () \<Longrightarrow> whole_batches crc k ?nb = length ?nb" using k(3) enc by simp
    ultimately show ?thesis using all by fastforce
  next
    case (Inl e)
    then have "st' = st" "r \<noteq> Ok ()"
      using assms(7) by (auto simp: append_grouped_batches_def split: if_splits)
    then show ?thesis
      using replay_torn_append [of bs "[]" 0 crc] assms(3,4,5) wal_inv_content [OF assms(1)]
      by (auto intro: exI [of _ 0])
  qed
qed

definition empty_wal :: WalWriterState where
  "empty_wal = \<lparr> buffer = [], w_file = \<lparr> content = [], durable = [], position = 0 \<rparr>, closed = False,
     logical_size = 0, preallocated_size = 0, bytes_since_last_sync = 0, sync_calls = 0 \<rparr>"

lemma empty_wal_inv: "wal_inv empty_wal" "wal_log empty_wal = []"
  by (simp_all add: empty_wal_def wal_inv_def wal_log_def)

theorem append_crash_safe_witness:
  "\<exists>st' j rst. append_grouped_batches \<lparr> wal_sync = True, wal_preallocate_bytes = 0, wal_bytes_per_sync = 0 \<rparr>
       \<lparr> io_ok = (\<lambda>_. False), torn = 9 \<rparr> (\<lambda>_. 0) [sample_batch] empty_wal
         = (Err (Io ''wal_write_bytes''), st') \<and>
     length (content (w_file st')) = 9 \<and>
     replay_wal_file (\<lambda>_. 0) (content (w_file st')) = (Ok (replay_stats rst), rst) \<and>
     emitted rst = concat (take j [sample_batch])"
proof -
  let ?cfg = "\<lparr> wal_sync = True, wal_preallocate_bytes = 0, wal_bytes_per_sync = 0 \<rparr>"
  let ?io = "\<lparr> io_ok = (\<lambda>_. False), torn = 9 \<rparr>" and ?crc = "\<lambda>_ :: bytes. 0 :: u32"
  let ?data = "log_bytes ?crc [sample_batch]"
  have ok: "sample_batch \<noteq> []" "list_all encodable sample_batch"
    using sample_batch_ok by (simp_all add: batch_ok_def)
  have enc: "encode_grouped_batches ?crc [] [sample_batch] = Ok ?data"
    using sample_batch_ok
    by (simp add: batch_ok_def and_then_eq_Ok encode_atomic_batch_into_Ok)
  have run: "append_grouped_batches ?cfg ?io ?crc [sample_batch] empty_wal
     = (Err (Io ''wal_write_bytes''), empty_wal \<lparr> w_file := write_at_pos (take 9 ?data) (w_file empty_wal) \<rparr>)"
    using enc by (simp add: append_grouped_batches_def append_raw_def append_write_def wal_then_def
        write_bytes_def wal_ok_def empty_wal_def)
  have "9 \<le> length ?data" by (simp add: batch_bytes_def raw_record_def)
  then show ?thesis
    using append_crash_safe [OF empty_wal_inv(1), of ?cfg ?crc "[]" "[sample_batch]" ?io] run ok
    by (auto simp: empty_wal_def wal_log_def write_at_pos_def)
qed

text \<open>
  (C4) An acknowledged append is durable and becomes part of the log: with
  \<open>wal_sync\<close> set, after \<open>append_grouped_batches\<close> returned \<open>Ok\<close> the bytes that are
  safe on disk replay to the old entries followed by all new ones, also when the
  file is preallocated.
\<close>

theorem append_durable:
  assumes "wal_inv st" "wal_log st = log_bytes crc bs" "list_all batch_ok bs" "wal_sync cfg"
    and "list_all (list_all encodable) batches" "concat batches \<noteq> []"
    and "append_grouped_batches cfg io crc batches st = (Ok (), st')"
    and "logical_size st + length (log_bytes crc (filter (\<lambda>b. b \<noteq> []) batches)) < 2 ^ 64"
  shows "wal_inv st' \<and> (\<exists>rst. replay_wal_file crc (durable (w_file st')) = (Ok (replay_stats rst), rst) \<and>
     emitted rst = concat bs @ concat batches \<and> wal_file rst = wal_log st')"
proof -
  let ?nb = "filter (\<lambda>b. b \<noteq> []) batches"
  have nb: "concat ?nb = concat batches" by (induction batches) auto
  then have "?nb \<noteq> []" "batches \<noteq> []" using assms(6) by auto
  then obtain out where enc: "encode_grouped_batches crc [] batches = Ok out"
    using assms(7) by (auto simp: append_grouped_batches_def split: sum.splits)
  note out = encode_grouped_batches_Ok [OF enc assms(5)]
  have ne: "out \<noteq> []" using out \<open>?nb \<noteq> []\<close> by (cases ?nb) auto
  then have run: "append_raw cfg io out st = (Ok (), st')"
    using assms(7) enc \<open>batches \<noteq> []\<close> by (simp add: append_grouped_batches_def)
  from append_raw_Ok [OF assms(1) run] out assms(2,4,8) ne
  have post: "wal_inv st'" "wal_log st' = log_bytes crc (bs @ ?nb)"
    "durable (w_file st') = content (w_file st')" by simp_all
  let ?z = "preallocated_size st' - logical_size st'"
  let ?st = "after_log crc (bs @ ?nb) (replay_init (durable (w_file st')))"
  have ok: "list_all batch_ok (bs @ ?nb)" using assms(3) out by simp
  have fl: "durable (w_file st') = log_bytes crc (bs @ ?nb) @ replicate ?z 0"
    using wal_inv_content [OF post(1)] post by simp
  have "replay_wal_file crc (durable (w_file st')) = replay_loop crc ?st (replicate ?z 0)"
    using replay_log [OF ok, of "replay_init (durable (w_file st'))" crc "replicate ?z 0"]
    by (simp add: replay_wal_file_def fl) (simp add: replay_init_def)
  then show ?thesis
    using replay_zeros [of ?st "log_bytes crc (bs @ ?nb)" ?z crc] post nb
    by (simp add: after_log_sel fl) (auto simp: replay_init_def)
qed

theorem append_durable_witness:
  "\<exists>st' rst. append_grouped_batches \<lparr> wal_sync = True, wal_preallocate_bytes = 4096, wal_bytes_per_sync = 0 \<rparr>
       \<lparr> io_ok = (\<lambda>_. True), torn = 0 \<rparr> (\<lambda>_. 0) [sample_batch] empty_wal = (Ok (), st') \<and>
     replay_wal_file (\<lambda>_. 0) (durable (w_file st')) = (Ok (replay_stats rst), rst) \<and>
     emitted rst = sample_batch"
proof -
  let ?cfg = "\<lparr> wal_sync = True, wal_preallocate_bytes = 4096, wal_bytes_per_sync = 0 \<rparr>"
  let ?io = "\<lparr> io_ok = (\<lambda>_. True), torn = 0 \<rparr>" and ?crc = "\<lambda>_ :: bytes. 0 :: u32"
  let ?data = "log_bytes ?crc [sample_batch]"
  have ok: "sample_batch \<noteq> []" "list_all encodable sample_batch"
    using sample_batch_ok by (simp_all add: batch_ok_def)
  have len: "length ?data = 74"
    by (simp add: batch_bytes_def raw_record_def sample_batch_def sample_entry_def batch_marker_def
        record_of_def BATCH_BEGIN_MAGIC_def)
  have enc: "encode_grouped_batches ?crc [] [sample_batch] = Ok ?data"
    using sample_batch_ok by (simp add: batch_ok_def and_then_eq_Ok encode_atomic_batch_into_Ok)
  have pre: "ensure_preallocated ?io 74 4096 empty_wal = (Ok (), empty_wal \<lparr>
      w_file := set_len 4096 (w_file empty_wal), preallocated_size := 4096 \<rparr>)"
    by (simp add: ensure_preallocated_def Let_def sat_add64_def empty_wal_def)
  have ne: "?data \<noteq> []" by simp
  obtain st' where run: "append_grouped_batches ?cfg ?io ?crc [sample_batch] empty_wal = (Ok (), st')"
    using enc pre len ne
    by (simp add: append_grouped_batches_def append_raw_def append_write_def wal_then_def
        write_bytes_def wal_modify_def flush_writer_def sync_state_def empty_wal_def)
  have "logical_size empty_wal + length (log_bytes ?crc (filter (\<lambda>b. b \<noteq> []) [sample_batch])) < 2 ^ 64"
    using len ok(1) by (simp add: empty_wal_def)
  with append_durable [OF empty_wal_inv(1), of ?crc "[]" ?cfg "[sample_batch]" ?io st'] run ok
  show ?thesis by (auto simp: empty_wal_inv(2))
qed

text \<open>
  (C29) Rotation finalises the old log and starts the new one: when \<open>rotate\<close>
  succeeds, the old file holds exactly its log (preallocated space removed), is
  durable under \<open>wal_sync\<close>, and the writer is open on the new file with the
  invariant established.
\<close>

theorem rotate_finalizes:
  assumes "wal_inv st" "rotate cfg io new_file st = (Ok (), st', old_file)"
    and "length (content new_file) < 2 ^ 64"
  shows "content old_file = wal_log st \<and> (wal_sync cfg \<longrightarrow> durable old_file = wal_log st) \<and>
     wal_inv st' \<and> wal_log st' = content new_file \<and> \<not> closed st'"
proof -
  obtain s where fin: "finalize_active_file io (wal_sync cfg) st = (Ok (), s)"
    and new: "new_WalWriter cfg io new_file = Ok st'" and old: "old_file = w_file s"
    using assms(2) by (auto simp: rotate_def split: if_splits prod.splits sum.splits)
  from finalize_active_file_Ok [OF assms(1) fin] new_WalWriter_Ok [OF new assms(3)] old
  show ?thesis by auto
qed

theorem rotate_finalizes_witness:
  "\<exists>st' old. rotate \<lparr> wal_sync = True, wal_preallocate_bytes = 0, wal_bytes_per_sync = 0 \<rparr>
       \<lparr> io_ok = (\<lambda>_. True), torn = 0 \<rparr> \<lparr> content = [1], durable = [], position = 0 \<rparr> empty_wal
         = (Ok (), st', old) \<and> content old = [] \<and> wal_log st' = [1]"
proof -
  let ?cfg = "\<lparr> wal_sync = True, wal_preallocate_bytes = 0, wal_bytes_per_sync = 0 \<rparr>"
  let ?io = "\<lparr> io_ok = (\<lambda>_. True), torn = 0 \<rparr>"
  let ?f = "\<lparr> content = [1 :: u8], durable = [], position = 0 \<rparr>"
  obtain st' old where run: "rotate ?cfg ?io ?f empty_wal = (Ok (), st', old)"
    by (simp add: rotate_def finalize_active_file_def wal_then_def flush_writer_def wal_ok_def
        truncate_to_logical_size_def sync_state_def new_WalWriter_def open_state_def empty_wal_def)
  with rotate_finalizes [OF empty_wal_inv(1) run] empty_wal_inv(2) show ?thesis by auto
qed

end
