(* ===== verification/Options.thy ===== *)
theory Options
  imports Version_Set Wal_Writer
begin

text \<open>
  \<open>utils/options.rs\<close>: the options of the engine, their defaults and the builder methods that
  restrict what is stored.  A builder that stores its argument as it is appears as the update of
  the record field.  A \<open>usize\<close> is a natural number here and a \<open>u64\<close> a 64-bit word, except for the
  sizes that the log writer takes; the working directory the default depends on is an argument.
\<close>

record KvEngineOptions =
  o_data_dir :: string
  mem_table_size :: nat
  recover_from_wal :: bool
  o_wal_sync :: bool
  o_wal_preallocate_bytes :: nat
  o_wal_bytes_per_sync :: nat
  wal_max_group_ops :: nat
  wal_max_group_bytes :: nat
  wal_group_wait_us :: u64
  mem_max_group_ops :: nat
  mem_max_group_bytes :: nat
  mem_group_wait_us :: u64
  max_wal_queue_reqs :: nat
  max_wal_queue_bytes :: nat
  max_mem_queue_reqs :: nat
  max_mem_queue_bytes :: nat
  max_immutable_memtables :: nat
  flush_failure_streak_limit :: nat
  table_cache_capacity :: nat
  block_cache_capacity_bytes :: nat
  row_cache_capacity_bytes :: nat
  filter_cache_capacity_bytes :: nat
  o_max_versions :: nat
  o_manifest_max_size :: u64
  o_manifest_rewrite_edit_count :: nat
  o_num_levels :: nat
  l0_compaction_file_trigger :: nat
  compaction_max_bytes_for_level_base :: u64
  compaction_max_bytes_for_level_multiplier :: u64
  compaction_max_grandparent_overlap_bytes_factor :: u64
  max_subcompactions :: nat
  per_level_compression :: "SstableBlockCompression list"
  l0_slowdown_writes_trigger :: nat
  l0_stop_writes_trigger :: nat
  soft_pending_compaction_bytes_limit :: u64
  hard_pending_compaction_bytes_limit :: u64
  write_slowdown_delay_ms :: u64
  bloom_prefix_extractor_len :: nat

definition default_KvEngineOptions :: "string \<Rightarrow> KvEngineOptions" where
  "default_KvEngineOptions current_dir =
     \<lparr> o_data_dir = current_dir @ ''/goatdb_data'', mem_table_size = 1024 * 1024, recover_from_wal = True,
       o_wal_sync = True, o_wal_preallocate_bytes = 0, o_wal_bytes_per_sync = 0,
       wal_max_group_ops = 4096, wal_max_group_bytes = 2 * 1024 * 1024, wal_group_wait_us = 20,
       mem_max_group_ops = 4096, mem_max_group_bytes = 2 * 1024 * 1024, mem_group_wait_us = 0,
       max_wal_queue_reqs = 65536, max_wal_queue_bytes = 256 * 1024 * 1024,
       max_mem_queue_reqs = 65536, max_mem_queue_bytes = 256 * 1024 * 1024,
       max_immutable_memtables = 8, flush_failure_streak_limit = 3, table_cache_capacity = 64,
       block_cache_capacity_bytes = 64 * 1024 * 1024, row_cache_capacity_bytes = 32 * 1024 * 1024,
       filter_cache_capacity_bytes = 16 * 1024 * 1024, o_max_versions = 10,
       o_manifest_max_size = 32 * 1024 * 1024, o_manifest_rewrite_edit_count = 10000, o_num_levels = 7,
       l0_compaction_file_trigger = 4, compaction_max_bytes_for_level_base = 64 * 1024,
       compaction_max_bytes_for_level_multiplier = 10, compaction_max_grandparent_overlap_bytes_factor = 10,
       max_subcompactions = 1, per_level_compression = [], l0_slowdown_writes_trigger = 20,
       l0_stop_writes_trigger = 36, soft_pending_compaction_bytes_limit = 64 * 1024 * 1024,
       hard_pending_compaction_bytes_limit = 256 * 1024 * 1024, write_slowdown_delay_ms = 1,
       bloom_prefix_extractor_len = 0 \<rparr>"

definition with_l0_compaction_file_trigger :: "nat \<Rightarrow> KvEngineOptions \<Rightarrow> KvEngineOptions" where
  "with_l0_compaction_file_trigger trigger o1 = o1 \<lparr> l0_compaction_file_trigger := max trigger 1 \<rparr>"

definition with_compaction_max_bytes_for_level_base :: "u64 \<Rightarrow> KvEngineOptions \<Rightarrow> KvEngineOptions" where
  "with_compaction_max_bytes_for_level_base n o1 = o1 \<lparr> compaction_max_bytes_for_level_base := max n 1 \<rparr>"

definition with_compaction_max_bytes_for_level_multiplier :: "u64 \<Rightarrow> KvEngineOptions \<Rightarrow> KvEngineOptions" where
  "with_compaction_max_bytes_for_level_multiplier n o1 =
     o1 \<lparr> compaction_max_bytes_for_level_multiplier := max n 2 \<rparr>"

definition with_compaction_max_grandparent_overlap_bytes_factor :: "u64 \<Rightarrow> KvEngineOptions \<Rightarrow> KvEngineOptions" where
  "with_compaction_max_grandparent_overlap_bytes_factor n o1 =
     o1 \<lparr> compaction_max_grandparent_overlap_bytes_factor := max n 1 \<rparr>"

definition with_max_subcompactions :: "nat \<Rightarrow> KvEngineOptions \<Rightarrow> KvEngineOptions" where
  "with_max_subcompactions n o1 = o1 \<lparr> max_subcompactions := max n 1 \<rparr>"

text \<open>\<open>resize\<close> never shrinks here, so it pads with the entry for no compression.\<close>

definition with_level_compression ::
    "nat \<Rightarrow> SstableBlockCompression \<Rightarrow> KvEngineOptions \<Rightarrow> KvEngineOptions" where
  "with_level_compression level compression o1 =
     (let cs = per_level_compression o1;
          cs = (if length cs \<le> level then cs @ replicate (level + 1 - length cs) NoCompression else cs) in
      o1 \<lparr> per_level_compression := cs[level := compression] \<rparr>)"

definition compression_for_level :: "KvEngineOptions \<Rightarrow> nat \<Rightarrow> SstableBlockCompression" where
  "compression_for_level o1 level =
     (if level < length (per_level_compression o1) then per_level_compression o1 ! level else NoCompression)"

definition with_l0_slowdown_writes_trigger :: "nat \<Rightarrow> KvEngineOptions \<Rightarrow> KvEngineOptions" where
  "with_l0_slowdown_writes_trigger n o1 = o1 \<lparr> l0_slowdown_writes_trigger := max n 1 \<rparr>"

definition with_l0_stop_writes_trigger :: "nat \<Rightarrow> KvEngineOptions \<Rightarrow> KvEngineOptions" where
  "with_l0_stop_writes_trigger n o1 = o1 \<lparr> l0_stop_writes_trigger := max n 1 \<rparr>"

definition with_soft_pending_compaction_bytes_limit :: "u64 \<Rightarrow> KvEngineOptions \<Rightarrow> KvEngineOptions" where
  "with_soft_pending_compaction_bytes_limit n o1 = o1 \<lparr> soft_pending_compaction_bytes_limit := max n 1 \<rparr>"

definition with_hard_pending_compaction_bytes_limit :: "u64 \<Rightarrow> KvEngineOptions \<Rightarrow> KvEngineOptions" where
  "with_hard_pending_compaction_bytes_limit n o1 = o1 \<lparr> hard_pending_compaction_bytes_limit := max n 1 \<rparr>"

definition with_write_slowdown_delay_ms :: "u64 \<Rightarrow> KvEngineOptions \<Rightarrow> KvEngineOptions" where
  "with_write_slowdown_delay_ms n o1 = o1 \<lparr> write_slowdown_delay_ms := max n 1 \<rparr>"

definition with_bloom_prefix_extractor_len :: "nat \<Rightarrow> KvEngineOptions \<Rightarrow> KvEngineOptions" where
  "with_bloom_prefix_extractor_len n o1 = o1 \<lparr> bloom_prefix_extractor_len := min n 65535 \<rparr>"

definition version_set_options :: "KvEngineOptions \<Rightarrow> VersionSetOptions" where
  "version_set_options o1 = \<lparr> max_versions = o_max_versions o1, manifest_max_size = o_manifest_max_size o1,
     manifest_rewrite_edit_count = o_manifest_rewrite_edit_count o1, opt_num_levels = o_num_levels o1 \<rparr>"

definition wal_config :: "KvEngineOptions \<Rightarrow> WalWriterConfig" where
  "wal_config o1 = \<lparr> wal_sync = o_wal_sync o1, wal_preallocate_bytes = o_wal_preallocate_bytes o1,
     wal_bytes_per_sync = o_wal_bytes_per_sync o1 \<rparr>"

section \<open>Properties of the options\<close>

text \<open>Setting the compression of one level leaves the other levels as they are.\<close>

lemma compression_for_level_set:
  "compression_for_level (with_level_compression level c o1) l = (if l = level then c else compression_for_level o1 l)"
  by (auto simp: compression_for_level_def with_level_compression_def nth_append nth_list_update Let_def)

lemma default_version_set_options: "version_set_options (default_KvEngineOptions dir) = default_VersionSetOptions"
  by (simp add: version_set_options_def default_KvEngineOptions_def default_VersionSetOptions_def)

end
