(* ===== verification/Skip_List.thy ===== *)
theory Skip_List
  imports Mvcc
begin

text \<open>
  \<open>core/skip_list\<close> (\<open>list.rs\<close>, \<open>node.rs\<close>, \<open>iter.rs\<close>, \<open>arena.rs\<close>): the skip list
  with its nodes in an explicit store.  A \<open>NodePtr\<close> is an index into the store,
  the head is node 0, and following a link twice reads the store twice, so that the
  rewiring done by an insert is visible to every path.  The coin flips of the
  random number generator are a parameter.  A search loop that followed a cycle
  would not return; the loops are \<open>partial_function\<close>s whose value is then \<open>None\<close>, and
  the invariant rules this out.
\<close>

section \<open>Arena accounting\<close>

text \<open>Only the sizes matter: the length and capacity of the current chunk.\<close>

record Arena =
  current_len :: nat
  current_cap :: nat
  full_chunks :: nat
  chunk_size :: nat
  bytes_allocated :: nat

definition arena_with_capacity :: "nat \<Rightarrow> Arena" where
  "arena_with_capacity n = \<lparr> current_len = 0, current_cap = n, full_chunks = 0, chunk_size = n,
     bytes_allocated = 0 \<rparr>"

definition align_up :: "nat \<Rightarrow> nat \<Rightarrow> nat" where
  "align_up align n = (n + align - 1) div align * align"

text \<open>
  For the power-of-two alignments of Rust, \<open>(n + align - 1) & !(align - 1)\<close> is the
  least multiple of \<open>align\<close> above \<open>n\<close>.
\<close>

function alloc_bytes :: "nat \<Rightarrow> nat \<Rightarrow> Arena \<Rightarrow> Arena" where
  "alloc_bytes sz align ar =
     (let aligned_pos = align_up align (current_len ar) in
      if current_cap ar < aligned_pos + sz
      then alloc_bytes sz align (ar \<lparr>
             full_chunks := (if current_len ar \<noteq> 0 then full_chunks ar + 1 else full_chunks ar),
             current_len := 0,
             current_cap := max (chunk_size ar) (sz + align) \<rparr>)
      else ar \<lparr> current_len := aligned_pos + sz,
                bytes_allocated := bytes_allocated ar + (aligned_pos - current_len ar) + sz \<rparr>)"
  by pat_completeness auto
termination
proof (relation "measure (\<lambda>(sz, align, ar).
    if current_cap ar < align_up align (current_len ar) + sz then 1 else 0)", goal_cases)
  case (2 sz align ar p)
  have "align_up align 0 \<le> align" by (cases align) (simp_all add: align_up_def)
  with 2 show ?case by (auto simp: align_up_def)
qed simp

declare alloc_bytes.simps [simp del]

section \<open>Nodes and lists\<close>

text \<open>The head has no key; its \<open>height\<close> is \<open>MAX_HEIGHT\<close>.\<close>

record SkipNode =
  nkey :: "InternalKey option"
  nvalue :: bytes
  nheight :: nat
  tower :: "nat option list"

record SkipList =
  arena :: Arena
  store :: "SkipNode list"
  max_height :: nat
  sl_len :: nat

definition MAX_HEIGHT :: nat where "MAX_HEIGHT = 32"

text \<open>
  \<open>size_of::<Node<InternalKey>>()\<close> on a 64-bit target: two \<open>Bytes\<close> of four words
  each, the packed sequence number and the height.
\<close>

definition NODE_SIZE :: nat where "NODE_SIZE = 80"

definition alloc_node :: "(InternalKey \<times> bytes) option \<Rightarrow> nat \<Rightarrow> Arena \<Rightarrow> SkipNode \<times> Arena" where
  "alloc_node entry height ar =
     (\<lparr> nkey = map_option fst entry, nvalue = (case entry of Some (_, v) \<Rightarrow> v | None \<Rightarrow> []),
        nheight = height, tower = replicate height None \<rparr>,
      alloc_bytes (NODE_SIZE + 8 * height) 8 ar)"

definition new_SkipList :: SkipList where
  "new_SkipList =
     (let (hd_node, ar) = alloc_node None MAX_HEIGHT (arena_with_capacity 4096)
      in \<lparr> arena = ar, store = [hd_node], max_height = 1, sl_len = 0 \<rparr>)"

definition node_next :: "SkipList \<Rightarrow> nat \<Rightarrow> nat \<Rightarrow> nat option" where
  "node_next sl a level = tower (store sl ! a) ! level"

definition set_next :: "nat \<Rightarrow> nat \<Rightarrow> nat option \<Rightarrow> SkipList \<Rightarrow> SkipList" where
  "set_next a level p sl = sl \<lparr> store := (store sl)[a :=
     (store sl ! a) \<lparr> tower := (tower (store sl ! a))[level := p] \<rparr>] \<rparr>"

definition node_key :: "SkipList \<Rightarrow> nat \<Rightarrow> InternalKey" where
  "node_key sl a = the (nkey (store sl ! a))"

function random_height_from :: "(nat \<Rightarrow> bool) \<Rightarrow> nat \<Rightarrow> nat" where
  "random_height_from coin height =
     (if height < MAX_HEIGHT \<and> coin height then random_height_from coin (height + 1) else height)"
  by auto
termination by (relation "measure (\<lambda>(_, h). MAX_HEIGHT - h)") auto

declare random_height_from.simps [simp del]

definition random_height :: "(nat \<Rightarrow> bool) \<Rightarrow> nat" where
  "random_height coin = random_height_from coin 1"

section \<open>Searching\<close>

text \<open>
  The inner loop that \<open>find_predecessors\<close>, \<open>find_equal\<close> and \<open>find_ge\<close> share: walk
  along \<open>level\<close> while the next key compares \<open>Less\<close>; stop in front of the first other
  key and report it when it compares \<open>Equal\<close>.
\<close>

partial_function (option) search_level ::
  "SkipList \<Rightarrow> (InternalKey \<Rightarrow> Ordering) \<Rightarrow> nat \<Rightarrow> nat \<Rightarrow> (nat \<times> nat option) option" where
  "search_level sl f level current =
     (case node_next sl current level of
        None \<Rightarrow> Some (current, None)
      | Some nx \<Rightarrow>
          (case f (node_key sl nx) of
             Less \<Rightarrow> search_level sl f level nx
           | Equal \<Rightarrow> Some (current, Some nx)
           | Greater \<Rightarrow> Some (current, None)))"

text \<open>\<open>for i in (0..max_height).rev()\<close>; the third argument counts the levels left.\<close>

fun find_predecessors_from ::
  "SkipList \<Rightarrow> InternalKey \<Rightarrow> nat \<Rightarrow> nat \<Rightarrow> nat option list \<Rightarrow> (nat option list \<times> nat option) option" where
  "find_predecessors_from sl k 0 current prev = Some (prev, None)"
| "find_predecessors_from sl k (Suc i) current prev =
     (case search_level sl (\<lambda>nk. ik_cmp nk k) i current of
        None \<Rightarrow> None
      | Some (_, Some p) \<Rightarrow> Some (prev, Some p)
      | Some (current', None) \<Rightarrow> find_predecessors_from sl k i current' (prev[i := Some current']))"

definition find_predecessors :: "SkipList \<Rightarrow> InternalKey \<Rightarrow> (nat option list \<times> nat option) option" where
  "find_predecessors sl k = find_predecessors_from sl k (max_height sl) 0 (replicate MAX_HEIGHT None)"

fun find_equal_from :: "SkipList \<Rightarrow> bytes \<Rightarrow> nat \<Rightarrow> nat \<Rightarrow> nat option option" where
  "find_equal_from sl uk 0 current = Some None"
| "find_equal_from sl uk (Suc i) current =
     (case search_level sl (\<lambda>nk. cmp (user_key nk) uk) i current of
        None \<Rightarrow> None
      | Some (_, Some p) \<Rightarrow> Some (Some p)
      | Some (current', None) \<Rightarrow> find_equal_from sl uk i current')"

definition find_equal :: "SkipList \<Rightarrow> bytes \<Rightarrow> nat option option" where
  "find_equal sl uk = find_equal_from sl uk (max_height sl) 0"

text \<open>\<open>find_ge\<close> breaks at every key that does not compare \<open>Less\<close>.\<close>

definition ge_cmp :: "bytes \<Rightarrow> InternalKey \<Rightarrow> Ordering" where
  "ge_cmp uk nk = (if cmp (user_key nk) uk = Less then Less else Greater)"

fun find_ge_from :: "SkipList \<Rightarrow> bytes \<Rightarrow> nat \<Rightarrow> nat \<Rightarrow> nat option option" where
  "find_ge_from sl uk 0 current = Some (node_next sl current 0)"
| "find_ge_from sl uk (Suc i) current =
     (case search_level sl (ge_cmp uk) i current of
        None \<Rightarrow> None
      | Some (current', _) \<Rightarrow> find_ge_from sl uk i current')"

definition find_ge :: "SkipList \<Rightarrow> bytes \<Rightarrow> nat option option" where
  "find_ge sl uk = find_ge_from sl uk (max_height sl) 0"

section \<open>Operations\<close>

definition extend_height :: "nat option list \<Rightarrow> nat \<Rightarrow> SkipList \<Rightarrow> nat option list \<times> SkipList" where
  "extend_height prev height sl =
     (if height \<le> max_height sl then (prev, sl)
      else (map (\<lambda>(j, p). if max_height sl \<le> j \<and> j < height then Some 0 else p) (enumerate 0 prev),
            sl \<lparr> max_height := height \<rparr>))"

fun link_levels :: "nat \<Rightarrow> nat option list \<Rightarrow> nat \<Rightarrow> SkipList \<Rightarrow> SkipList" where
  "link_levels new_node [] i sl = sl"
| "link_levels new_node (None # ps) i sl = link_levels new_node ps (Suc i) sl"
| "link_levels new_node (Some prev_node # ps) i sl =
     link_levels new_node ps (Suc i)
       (set_next prev_node i (Some new_node)
         (set_next new_node i (node_next sl prev_node i) sl))"

definition link_new_node :: "nat \<Rightarrow> nat option list \<Rightarrow> nat \<Rightarrow> SkipList \<Rightarrow> SkipList" where
  "link_new_node new_node prev height sl = link_levels new_node (take height prev) 0 sl"

text \<open>\<open>insert\<close> returns the value of an existing node, if any, and the list.\<close>

definition sl_insert ::
  "(nat \<Rightarrow> bool) \<Rightarrow> InternalKey \<Rightarrow> bytes \<Rightarrow> SkipList \<Rightarrow> (bytes option \<times> SkipList) option" where
  "sl_insert coin k v sl =
     (case find_predecessors sl k of
        None \<Rightarrow> None
      | Some (_, Some p) \<Rightarrow> Some (Some (nvalue (store sl ! p)), sl)
      | Some (prev, None) \<Rightarrow>
          let height = random_height coin;
              (node, ar) = alloc_node (Some (k, v)) height (arena sl);
              new_node = length (store sl);
              sl1 = sl \<lparr> arena := ar, store := store sl @ [node] \<rparr>;
              (prev', sl2) = extend_height prev height sl1;
              sl3 = link_new_node new_node prev' height sl2
          in Some (None, sl3 \<lparr> sl_len := sl_len sl3 + 1 \<rparr>))"

definition sl_get :: "bytes \<Rightarrow> SkipList \<Rightarrow> bytes option option" where
  "sl_get uk sl = map_option (map_option (\<lambda>p. nvalue (store sl ! p))) (find_equal sl uk)"

definition node_entry :: "SkipList \<Rightarrow> nat \<Rightarrow> InternalKey \<times> bytes" where
  "node_entry sl p = (node_key sl p, nvalue (store sl ! p))"

definition sl_seek :: "bytes \<Rightarrow> SkipList \<Rightarrow> (InternalKey \<times> bytes) option option" where
  "sl_seek uk sl = map_option (map_option (node_entry sl)) (find_ge sl uk)"

text \<open>Everything an \<open>Iter\<close> yields from a node on.\<close>

partial_function (option) iter_from :: "SkipList \<Rightarrow> nat option \<Rightarrow> (InternalKey \<times> bytes) list option" where
  "iter_from sl current =
     (case current of
        None \<Rightarrow> Some []
      | Some p \<Rightarrow> Option.bind (iter_from sl (node_next sl p 0)) (\<lambda>es. Some (node_entry sl p # es)))"

definition sl_iter :: "SkipList \<Rightarrow> (InternalKey \<times> bytes) list option" where
  "sl_iter sl = iter_from sl (node_next sl 0 0)"

definition sl_seek_iter :: "bytes \<Rightarrow> SkipList \<Rightarrow> (InternalKey \<times> bytes) list option" where
  "sl_seek_iter uk sl = Option.bind (find_ge sl uk) (iter_from sl)"

partial_function (option) range_from ::
  "SkipList \<Rightarrow> InternalKey \<Rightarrow> nat option \<Rightarrow> (InternalKey \<times> bytes) list option" where
  "range_from sl stop current =
     (case current of
        None \<Rightarrow> Some []
      | Some p \<Rightarrow>
          if ik_cmp (node_key sl p) stop = Less
          then Option.bind (range_from sl stop (node_next sl p 0)) (\<lambda>es. Some (node_entry sl p # es))
          else Some [])"

definition sl_range :: "InternalKey \<Rightarrow> InternalKey \<Rightarrow> SkipList \<Rightarrow> (InternalKey \<times> bytes) list option" where
  "sl_range start stop sl = Option.bind (find_ge sl (user_key start)) (range_from sl stop)"

section \<open>Paths and the invariant\<close>

text \<open>\<open>is_path sl i a xs\<close>: the links of level \<open>i\<close> lead from \<open>a\<close> through exactly \<open>xs\<close>.\<close>

fun is_path :: "SkipList \<Rightarrow> nat \<Rightarrow> nat \<Rightarrow> nat list \<Rightarrow> bool" where
  "is_path sl i a [] \<longleftrightarrow> node_next sl a i = None"
| "is_path sl i a (x # xs) \<longleftrightarrow> node_next sl a i = Some x \<and> is_path sl i x xs"

definition taller :: "SkipList \<Rightarrow> nat \<Rightarrow> nat \<Rightarrow> bool" where
  "taller sl i a \<longleftrightarrow> i < nheight (store sl ! a)"

definition node_pos :: "SkipList \<Rightarrow> nat \<Rightarrow> key_pos" where
  "node_pos sl a = ik_pos (node_key sl a)"

text \<open>
  \<open>ns\<close> lists the data nodes in key order; level \<open>i\<close> links exactly those of them that
  are taller than \<open>i\<close>.
\<close>

definition sl_inv :: "SkipList \<Rightarrow> nat list \<Rightarrow> bool" where
  "sl_inv sl ns \<longleftrightarrow>
     store sl \<noteq> [] \<and> nheight (store sl ! 0) = MAX_HEIGHT \<and>
     distinct ns \<and> set ns = {1..<length (store sl)} \<and>
     (\<forall>a<length (store sl). length (tower (store sl ! a)) = nheight (store sl ! a)) \<and>
     (\<forall>a\<in>set ns. nkey (store sl ! a) \<noteq> None \<and> 1 \<le> nheight (store sl ! a) \<and>
        nheight (store sl ! a) \<le> max_height sl) \<and>
     1 \<le> max_height sl \<and> max_height sl \<le> MAX_HEIGHT \<and>
     sorted_wrt (\<lambda>a b. node_pos sl a < node_pos sl b) ns \<and>
     (\<forall>i<MAX_HEIGHT. is_path sl i 0 (filter (taller sl i) ns)) \<and>
     sl_len sl = length ns"

lemma sl_inv_path: "sl_inv sl ns \<Longrightarrow> i < MAX_HEIGHT \<Longrightarrow> is_path sl i 0 (filter (taller sl i) ns)"
  and sl_inv_sorted: "sl_inv sl ns \<Longrightarrow> sorted_wrt (\<lambda>a b. node_pos sl a < node_pos sl b) ns"
  and sl_inv_max_height: "sl_inv sl ns \<Longrightarrow> 0 < max_height sl \<and> max_height sl \<le> MAX_HEIGHT"
  and sl_inv_node: "sl_inv sl ns \<Longrightarrow> a \<in> set ns \<Longrightarrow>
    (\<exists>k. nkey (store sl ! a) = Some k) \<and> 0 < nheight (store sl ! a) \<and>
    nheight (store sl ! a) \<le> max_height sl \<and> 0 < a \<and> a < length (store sl)"
  and sl_inv_tower: "sl_inv sl ns \<Longrightarrow> a < length (store sl) \<Longrightarrow>
    length (tower (store sl ! a)) = nheight (store sl ! a)"
  by (auto simp: sl_inv_def Suc_le_eq)

lemma is_path_append: "is_path sl i a (us @ p # vs) \<Longrightarrow> is_path sl i p vs"
  by (induction us arbitrary: a) auto

lemma search_level_path:
  assumes "is_path sl i a (ys @ zs)" "\<forall>y\<in>set ys. f (node_key sl y) = Less"
    "zs \<noteq> [] \<Longrightarrow> f (node_key sl (hd zs)) \<noteq> Less"
  shows "search_level sl f i a = Some (last (a # ys),
    if zs \<noteq> [] \<and> f (node_key sl (hd zs)) = Equal then Some (hd zs) else None)"
  using assms
proof (induction ys arbitrary: a)
  case Nil
  then show ?case
    by (cases zs) (auto simp: search_level.simps [of sl f i a] split: Ordering.splits)
next
  case (Cons y ys)
  then show ?case by (subst search_level.simps) simp
qed

text \<open>
  A search function splits the nodes at a point: everything before compares
  \<open>Less\<close>, nothing after does.
\<close>

definition splits_at :: "SkipList \<Rightarrow> (InternalKey \<Rightarrow> Ordering) \<Rightarrow> nat list \<Rightarrow> nat list \<Rightarrow> bool" where
  "splits_at sl f as bs \<longleftrightarrow> (\<forall>a\<in>set as. f (node_key sl a) = Less) \<and> (\<forall>b\<in>set bs. f (node_key sl b) \<noteq> Less)"

definition level_pred :: "SkipList \<Rightarrow> nat \<Rightarrow> nat list \<Rightarrow> nat" where
  "level_pred sl i as = last (0 # filter (taller sl i) as)"

definition first_equal :: "SkipList \<Rightarrow> (InternalKey \<Rightarrow> Ordering) \<Rightarrow> nat list \<Rightarrow> nat option" where
  "first_equal sl f bs = (case bs of [] \<Rightarrow> None | b # _ \<Rightarrow> if f (node_key sl b) = Equal then Some b else None)"

lemma search_level_inv:
  assumes "sl_inv sl (as @ bs)" "splits_at sl f as bs" "i < MAX_HEIGHT"
    and "cur = 0 \<or> cur \<in> set (filter (taller sl i) as)"
  shows "search_level sl f i cur = Some (level_pred sl i as, first_equal sl f (filter (taller sl i) bs))"
proof -
  let ?A = "filter (taller sl i) as" and ?B = "filter (taller sl i) bs"
  have path: "is_path sl i 0 (?A @ ?B)" using sl_inv_path [OF assms(1,3)] by simp
  have B: "?B \<noteq> [] \<Longrightarrow> f (node_key sl (hd ?B)) \<noteq> Less"
    using assms(2) by (metis filter_is_subset hd_in_set splits_at_def subsetD)
  have A: "\<forall>a\<in>set ?A. f (node_key sl a) = Less" using assms(2) by (auto simp: splits_at_def)
  have eq: "(if ?B \<noteq> [] \<and> f (node_key sl (hd ?B)) = Equal then Some (hd ?B) else None) = first_equal sl f ?B"
    by (cases ?B) (auto simp: first_equal_def)
  from assms(4) show ?thesis
  proof
    assume "cur = 0"
    then show ?thesis using search_level_path [OF path A B] eq by (simp add: level_pred_def)
  next
    assume "cur \<in> set ?A"
    then obtain us vs where split: "?A = us @ cur # vs" by (meson split_list)
    then have "is_path sl i cur (vs @ ?B)" using path is_path_append [of sl i 0 us cur "vs @ ?B"] by simp
    moreover have "\<forall>y\<in>set vs. f (node_key sl y) = Less" using A split by simp
    ultimately have "search_level sl f i cur = Some (last (cur # vs), first_equal sl f ?B)"
      using search_level_path [of sl i cur vs ?B f] B eq by simp
    then show ?thesis using split by (simp add: level_pred_def)
  qed
qed

lemma level_pred_start:
  "level_pred sl (Suc i) as = 0 \<or> level_pred sl (Suc i) as \<in> set (filter (taller sl i) as)"
proof (cases "filter (taller sl (Suc i)) as = []")
  case False
  then have "last (filter (taller sl (Suc i)) as) \<in> set (filter (taller sl (Suc i)) as)"
    by (rule last_in_set)
  with False show ?thesis by (simp add: level_pred_def taller_def)
qed (simp add: level_pred_def)

definition start_ok :: "SkipList \<Rightarrow> nat \<Rightarrow> nat list \<Rightarrow> nat \<Rightarrow> bool" where
  "start_ok sl n as cur \<longleftrightarrow>
     (case n of 0 \<Rightarrow> cur = level_pred sl 0 as
      | Suc i \<Rightarrow> cur = 0 \<or> cur \<in> set (filter (taller sl i) as))"

lemma start_ok_pred: "start_ok sl i as (level_pred sl i as)"
  using level_pred_start [of sl _ as] by (cases i) (simp_all add: start_ok_def)

lemma start_ok_head: "0 < n \<Longrightarrow> start_ok sl n as 0"
  by (cases n) (simp_all add: start_ok_def)

lemma taller_zero: "sl_inv sl ns \<Longrightarrow> a \<in> set ns \<Longrightarrow> taller sl 0 a"
  using sl_inv_node by (auto simp: taller_def)

lemma filter_taller_zero: "sl_inv sl ns \<Longrightarrow> set xs \<subseteq> set ns \<Longrightarrow> filter (taller sl 0) xs = xs"
  by (auto simp: filter_id_conv dest: taller_zero)

lemma is_path_next:
  "is_path sl i a (xs @ ys) \<Longrightarrow> node_next sl (last (a # xs)) i = (case ys of [] \<Rightarrow> None | y # _ \<Rightarrow> Some y)"
  by (induction xs arbitrary: a) (auto split: list.splits)

lemma pred_next:
  assumes "sl_inv sl (as @ bs)" "i < MAX_HEIGHT"
  shows "node_next sl (level_pred sl i as) i =
    (case filter (taller sl i) bs of [] \<Rightarrow> None | b # _ \<Rightarrow> Some b)"
  using sl_inv_path [OF assms] is_path_next [of sl i 0 "filter (taller sl i) as" "filter (taller sl i) bs"]
  by (simp add: level_pred_def)

lemma find_ge_from_inv:
  assumes "sl_inv sl (as @ bs)" "splits_at sl (ge_cmp uk) as bs"
  shows "n \<le> MAX_HEIGHT \<Longrightarrow> start_ok sl n as cur \<Longrightarrow>
    find_ge_from sl uk n cur = Some (case bs of [] \<Rightarrow> None | b # _ \<Rightarrow> Some b)"
proof (induction n arbitrary: cur)
  case 0
  then show ?case
    using pred_next [OF assms(1), of 0] filter_taller_zero [OF assms(1), of bs]
    by (simp add: start_ok_def MAX_HEIGHT_def)
next
  case (Suc n)
  then show ?case
    using search_level_inv [OF assms, of n cur] start_ok_pred [of sl n as]
    by (simp add: start_ok_def)
qed

lemma find_ge_inv:
  assumes "sl_inv sl (as @ bs)" "splits_at sl (ge_cmp uk) as bs"
  shows "find_ge sl uk = Some (case bs of [] \<Rightarrow> None | b # _ \<Rightarrow> Some b)"
  using find_ge_from_inv [OF assms, of "max_height sl" 0] sl_inv_max_height [OF assms(1)]
  by (simp add: find_ge_def start_ok_head)

lemma iter_from_path:
  "is_path sl 0 a xs \<Longrightarrow> iter_from sl (node_next sl a 0) = Some (map (node_entry sl) xs)"
proof (induction xs arbitrary: a)
  case Nil
  then show ?case by (simp add: iter_from.simps)
next
  case (Cons x xs)
  then show ?case by (subst iter_from.simps) simp
qed

lemma iter_from_suffix:
  assumes "sl_inv sl (as @ bs)"
  shows "iter_from sl (case bs of [] \<Rightarrow> None | b # _ \<Rightarrow> Some b) = Some (map (node_entry sl) bs)"
proof -
  have path: "is_path sl 0 0 (as @ bs)"
    using sl_inv_path [OF assms, of 0] filter_taller_zero [OF assms, of "as @ bs"]
    by (simp add: MAX_HEIGHT_def)
  show ?thesis
  proof (cases as rule: rev_cases)
    case Nil
    then show ?thesis using iter_from_path [of sl 0 bs] is_path_next [of sl 0 0 "[]" bs] path by simp
  next
    case (snoc us a)
    then have "is_path sl 0 a bs" using path is_path_append [of sl 0 0 us a bs] by simp
    then show ?thesis using iter_from_path [of sl a bs] is_path_next [of sl 0 a "[]" bs] by simp
  qed
qed

text \<open>The place where a monotone search function splits a sorted list of nodes.\<close>

definition downward :: "SkipList \<Rightarrow> (InternalKey \<Rightarrow> Ordering) \<Rightarrow> bool" where
  "downward sl f \<longleftrightarrow> (\<forall>a b. node_pos sl a < node_pos sl b \<longrightarrow> f (node_key sl b) = Less \<longrightarrow> f (node_key sl a) = Less)"

lemma split_sorted:
  assumes "sorted_wrt (\<lambda>a b. node_pos sl a < node_pos sl b) ns" "downward sl f"
  shows "splits_at sl f (takeWhile (\<lambda>a. f (node_key sl a) = Less) ns)
           (dropWhile (\<lambda>a. f (node_key sl a) = Less) ns)"
  unfolding splits_at_def
  using dropWhile_sorted [OF assms(1), of "\<lambda>a. f (node_key sl a) = Less"] assms(2)
  by (blast dest: set_takeWhileD intro: downward_def [THEN iffD1, rule_format])

lemma downward_ge: "downward sl (ge_cmp uk)"
  by (auto simp: downward_def ge_cmp_def node_pos_def ik_pos_def split: if_splits)

lemma downward_ik: "downward sl (\<lambda>nk. ik_cmp nk k)"
  by (auto simp: downward_def ik_cmp_pos node_pos_def)

lemma find_predecessors_from_new:
  assumes "sl_inv sl (as @ bs)" "splits_at sl (\<lambda>nk. ik_cmp nk k) as bs"
    "\<forall>b\<in>set bs. ik_cmp (node_key sl b) k \<noteq> Equal"
  shows "n \<le> MAX_HEIGHT \<Longrightarrow> start_ok sl n as cur \<Longrightarrow> length prev = MAX_HEIGHT \<Longrightarrow>
    find_predecessors_from sl k n cur prev =
      Some (map (\<lambda>i. if i < n then Some (level_pred sl i as) else prev ! i) [0..<MAX_HEIGHT], None)"
proof (induction n arbitrary: cur prev)
  case 0
  then show ?case by (simp add: map_nth [of prev, unfolded 0(3)])
next
  case (Suc n)
  have "first_equal sl (\<lambda>nk. ik_cmp nk k) (filter (taller sl n) bs) = None"
    using assms(3) by (auto simp: first_equal_def split: list.splits dest!: filter_eq_ConsD)
  then show ?case
    using search_level_inv [OF assms(1,2), of n cur] Suc start_ok_pred [of sl n as]
    by (simp add: start_ok_def) (auto simp: nth_list_update less_Suc_eq)
qed

lemma find_predecessors_from_existing:
  assumes "sl_inv sl (as @ e # bs)" "splits_at sl (\<lambda>nk. ik_cmp nk k) as (e # bs)"
    "ik_cmp (node_key sl e) k = Equal" "\<forall>b\<in>set bs. ik_cmp (node_key sl b) k \<noteq> Equal"
  shows "0 < n \<Longrightarrow> n \<le> MAX_HEIGHT \<Longrightarrow> start_ok sl n as cur \<Longrightarrow>
    \<exists>prev'. find_predecessors_from sl k n cur prev = Some (prev', Some e)"
proof (induction n arbitrary: cur prev)
  case (Suc n)
  show ?case
  proof (cases "taller sl n e")
    case True
    then show ?thesis
      using search_level_inv [OF assms(1,2), of n cur] Suc.prems assms(3)
      by (simp add: start_ok_def first_equal_def)
  next
    case False
    then have "0 < n" using taller_zero [OF assms(1), of e] by (cases n) auto
    moreover have "first_equal sl (\<lambda>nk. ik_cmp nk k) (filter (taller sl n) (e # bs)) = None"
      using False assms(4) by (auto simp: first_equal_def split: list.splits dest!: filter_eq_ConsD)
    ultimately show ?thesis
      using search_level_inv [OF assms(1,2), of n cur] Suc start_ok_pred [of sl n as] False
      by (simp add: start_ok_def)
  qed
qed simp

section \<open>Linking a node\<close>

lemma store_set_next:
  "store (set_next a l p sl) ! b = (if a = b \<and> a < length (store sl)
     then (store sl ! a) \<lparr> tower := (tower (store sl ! a))[l := p] \<rparr> else store sl ! b)"
proof (cases "a < length (store sl)")
  case False
  then show ?thesis by (simp add: set_next_def list_update_beyond)
qed (simp add: set_next_def nth_list_update)

lemma set_next_sel:
  "length (store (set_next a l p sl)) = length (store sl)"
  "nkey (store (set_next a l p sl) ! b) = nkey (store sl ! b)"
  "nvalue (store (set_next a l p sl) ! b) = nvalue (store sl ! b)"
  "nheight (store (set_next a l p sl) ! b) = nheight (store sl ! b)"
  "length (tower (store (set_next a l p sl) ! b)) = length (tower (store sl ! b))"
  "max_height (set_next a l p sl) = max_height sl" "sl_len (set_next a l p sl) = sl_len sl"
  "arena (set_next a l p sl) = arena sl"
  by (simp_all add: store_set_next) (simp_all add: set_next_def)

lemma node_next_set_next:
  "a < length (store sl) \<Longrightarrow> l < length (tower (store sl ! a)) \<Longrightarrow>
   node_next (set_next a l p sl) b m = (if b = a \<and> m = l then p else node_next sl b m)"
  by (simp add: node_next_def set_next_def nth_list_update)

definition same_nodes :: "SkipList \<Rightarrow> SkipList \<Rightarrow> bool" where
  "same_nodes sl sl' \<longleftrightarrow> length (store sl') = length (store sl) \<and>
     (\<forall>b. nkey (store sl' ! b) = nkey (store sl ! b) \<and> nvalue (store sl' ! b) = nvalue (store sl ! b) \<and>
        nheight (store sl' ! b) = nheight (store sl ! b) \<and>
        length (tower (store sl' ! b)) = length (tower (store sl ! b))) \<and>
     max_height sl' = max_height sl \<and> sl_len sl' = sl_len sl \<and> arena sl' = arena sl"

lemma same_nodes_refl [simp]: "same_nodes sl sl"
  by (simp add: same_nodes_def)

lemma same_nodes_trans: "same_nodes a b \<Longrightarrow> same_nodes b c \<Longrightarrow> same_nodes a c"
  by (simp add: same_nodes_def)

lemma same_nodes_set_next: "same_nodes sl (set_next a l p sl)"
  by (simp add: same_nodes_def set_next_sel)

text \<open>Predecessors that may be relinked at levels \<open>j\<close>, \<open>j + 1\<close>, and so on.\<close>

definition linkable :: "SkipList \<Rightarrow> nat \<Rightarrow> nat list \<Rightarrow> nat \<Rightarrow> bool" where
  "linkable sl new ps j \<longleftrightarrow> new < length (store sl) \<and> j + length ps \<le> length (tower (store sl ! new)) \<and>
     (\<forall>i<length ps. ps ! i < length (store sl) \<and> ps ! i \<noteq> new \<and> j + i < length (tower (store sl ! (ps ! i))))"

lemma link_levels_next:
  "linkable sl new ps j \<Longrightarrow>
   same_nodes sl (link_levels new (map Some ps) j sl) \<and>
   (\<forall>a i. node_next (link_levels new (map Some ps) j sl) a i =
     (if j \<le> i \<and> i < j + length ps then
        if a = new then node_next sl (ps ! (i - j)) i
        else if a = ps ! (i - j) then Some new else node_next sl a i
      else node_next sl a i))"
proof (induction ps arbitrary: j sl)
  case (Cons p ps)
  let ?s1 = "set_next new j (node_next sl p j) sl"
  let ?s2 = "set_next p j (Some new) ?s1"
  have p: "p < length (store sl)" "p \<noteq> new" "j < length (tower (store sl ! p))"
    "new < length (store sl)" "j < length (tower (store sl ! new))"
    using Cons.prems by (auto simp: linkable_def dest!: spec [of _ 0])
  have same: "same_nodes sl ?s2"
    using same_nodes_trans same_nodes_set_next by blast
  have nx: "node_next ?s2 a i = (if i = j then if a = new then node_next sl p j
      else if a = p then Some new else node_next sl a i else node_next sl a i)" for a i
    using p by (simp add: node_next_set_next set_next_sel)
  have "linkable ?s2 new ps (Suc j)"
    using Cons.prems same by (fastforce simp: linkable_def same_nodes_def)
  from Cons.IH [OF this] same nx show ?case
    by (auto simp: nth_Cons' Suc_le_eq intro: same_nodes_trans)
qed auto

lemma is_path_cong:
  "(\<And>a. a \<in> set (x # xs) \<Longrightarrow> node_next sl' a i = node_next sl a i) \<Longrightarrow>
   is_path sl' i x xs = is_path sl i x xs"
  by (induction xs arbitrary: x) auto

lemma is_path_insert:
  assumes "is_path sl i x (as @ bs)" "distinct (x # as @ bs)" "new \<notin> set (x # as @ bs)"
    and "\<And>a. node_next sl' a i = (if a = new then node_next sl (last (x # as)) i
           else if a = last (x # as) then Some new else node_next sl a i)"
  shows "is_path sl' i x (as @ new # bs)"
  using assms
proof (induction as arbitrary: x)
  case Nil
  then have nx: "node_next sl' x i = Some new" "node_next sl' new i = node_next sl x i" by auto
  have "is_path sl' i new bs"
  proof (cases bs)
    case Nil
    then show ?thesis using nx \<open>is_path sl i x ([] @ bs)\<close> by simp
  next
    case (Cons b bs')
    have "is_path sl' i b bs' = is_path sl i b bs'"
      using Nil.prems Cons by (intro is_path_cong) auto
    then show ?thesis using nx Nil.prems(1) Cons by simp
  qed
  then show ?case using nx by simp
next
  case (Cons a as)
  have "last (x # a # as) \<noteq> x" "x \<noteq> new" using Cons.prems(2,3) by (auto simp: last_in_set)
  moreover have "is_path sl' i a (as @ new # bs)" using Cons.prems by (intro Cons.IH) auto
  ultimately show ?case using Cons.prems(1,4) by simp
qed

section \<open>Insertion\<close>

lemma random_height_range: "1 \<le> random_height coin \<and> random_height coin \<le> MAX_HEIGHT"
proof -
  have "1 \<le> h \<Longrightarrow> h \<le> MAX_HEIGHT \<Longrightarrow> 1 \<le> random_height_from coin h \<and> random_height_from coin h \<le> MAX_HEIGHT" for h
    by (induction coin h rule: random_height_from.induct) (subst (1 2) random_height_from.simps, auto)
  then show ?thesis by (simp add: random_height_def MAX_HEIGHT_def)
qed

lemma level_pred_range:
  assumes "sl_inv sl (as @ bs)" "i < MAX_HEIGHT"
  shows "level_pred sl i as < length (store sl)" "i < length (tower (store sl ! level_pred sl i as))"
    "max_height sl \<le> i \<Longrightarrow> level_pred sl i as = 0"
proof -
  let ?A = "filter (taller sl i) as" and ?p = "level_pred sl i as"
  have ne: "store sl \<noteq> []" "nheight (store sl ! 0) = MAX_HEIGHT" using assms(1) by (auto simp: sl_inv_def)
  have cases: "?A = [] \<and> ?p = 0 \<or> ?p \<in> set as \<and> taller sl i ?p"
    using last_in_set [of ?A] by (auto simp: level_pred_def)
  show len: "?p < length (store sl)"
    using cases ne sl_inv_node [OF assms(1)] by auto
  show "i < length (tower (store sl ! ?p))"
    using cases ne assms(2) sl_inv_tower [OF assms(1) len] by (auto simp: taller_def)
  show "?p = 0" if "max_height sl \<le> i"
    using cases that sl_inv_node [OF assms(1), of ?p] by (auto simp: taller_def)
qed

lemma sl_insert_existing:
  assumes "sl_inv sl ns" "e \<in> set ns" "node_pos sl e = ik_pos k"
  shows "sl_insert coin k v sl = Some (Some (nvalue (store sl ! e)), sl)"
proof -
  let ?P = "\<lambda>a. ik_cmp (node_key sl a) k = Less"
  define as where "as = takeWhile ?P ns"
  define bs where "bs = dropWhile ?P ns"
  have ns: "ns = as @ bs" by (simp add: as_def bs_def)
  note inv = assms(1) [unfolded ns]
  have sp: "splits_at sl (\<lambda>nk. ik_cmp nk k) as bs"
    unfolding as_def bs_def using split_sorted [OF sl_inv_sorted [OF assms(1)] downward_ik] .
  have less: "?P a \<longleftrightarrow> node_pos sl a < node_pos sl e" and eq: "ik_cmp (node_key sl a) k = Equal \<longleftrightarrow> node_pos sl a = node_pos sl e" for a
    by (simp_all add: ik_cmp_pos node_pos_def [symmetric] assms(3))
  have "e \<in> set bs" using assms(2) ns sp less by (auto simp: splits_at_def)
  then obtain b bs' where bs: "bs = b # bs'" by (cases bs) auto
  have sorted: "\<forall>x\<in>set bs'. node_pos sl b < node_pos sl x"
    using sl_inv_sorted [OF inv] by (simp add: bs sorted_wrt_append)
  have "\<not> node_pos sl b < node_pos sl e" using sp less by (simp add: bs splits_at_def)
  with \<open>e \<in> set bs\<close> sorted have b: "b = e" by (auto simp: bs)
  have rest: "\<forall>x\<in>set bs'. ik_cmp (node_key sl x) k \<noteq> Equal" using sorted eq b by auto
  have "\<exists>prev. find_predecessors sl k = Some (prev, Some e)"
    unfolding find_predecessors_def
    using find_predecessors_from_existing [of sl as e bs' k "max_height sl" 0] inv sp eq rest
      sl_inv_max_height [OF assms(1)]
    by (simp add: bs b start_ok_head)
  then show ?thesis by (auto simp: sl_insert_def)
qed

text \<open>The list right after the node is allocated and the height extended, before linking.\<close>

definition with_node :: "(nat \<Rightarrow> bool) \<Rightarrow> InternalKey \<Rightarrow> bytes \<Rightarrow> SkipList \<Rightarrow> SkipList" where
  "with_node coin k v sl =
     (let (node, ar) = alloc_node (Some (k, v)) (random_height coin) (arena sl)
      in sl \<lparr> arena := ar, store := store sl @ [node],
              max_height := max (max_height sl) (random_height coin) \<rparr>)"

lemma with_node_sel:
  "length (store (with_node coin k v sl)) = Suc (length (store sl))"
  "a < length (store sl) \<Longrightarrow> store (with_node coin k v sl) ! a = store sl ! a"
  "store (with_node coin k v sl) ! length (store sl) =
     \<lparr> nkey = Some k, nvalue = v, nheight = random_height coin, tower = replicate (random_height coin) None \<rparr>"
  "max_height (with_node coin k v sl) = max (max_height sl) (random_height coin)"
  "sl_len (with_node coin k v sl) = sl_len sl"
  by (simp_all add: with_node_def alloc_node_def nth_append)

text \<open>The linked list, before \<open>len\<close> is counted up.\<close>

definition linked :: "(nat \<Rightarrow> bool) \<Rightarrow> InternalKey \<Rightarrow> bytes \<Rightarrow> nat list \<Rightarrow> SkipList \<Rightarrow> SkipList" where
  "linked coin k v as sl = link_levels (length (store sl))
     (map Some (map (\<lambda>i. level_pred sl i as) [0..<random_height coin])) 0 (with_node coin k v sl)"

lemma sl_insert_new_eq:
  assumes "sl_inv sl (as @ bs)" "splits_at sl (\<lambda>nk. ik_cmp nk k) as bs"
    "\<forall>b\<in>set bs. ik_cmp (node_key sl b) k \<noteq> Equal"
  shows "sl_insert coin k v sl = Some (None,
    (linked coin k v as sl) \<lparr> sl_len := sl_len (linked coin k v as sl) + 1 \<rparr>)"
proof -
  let ?h = "random_height coin" and ?m = "max_height sl"
  let ?prev = "map (\<lambda>i. if i < ?m then Some (level_pred sl i as) else None) [0..<MAX_HEIGHT]"
  note m = sl_inv_max_height [OF assms(1)] and h = random_height_range [of coin]
  have fp: "find_predecessors sl k = Some (?prev, None)"
    unfolding find_predecessors_def
    using find_predecessors_from_new [OF assms, of ?m 0 "replicate MAX_HEIGHT None"] m
    by (simp add: start_ok_head)
  have prev: "take ?h ?prev = map (\<lambda>i. Some (level_pred sl i as)) [0..<?h]" if "?h \<le> ?m"
    using that h by (simp add: take_map take_upt)
  have prev': "take ?h (map (\<lambda>(j, p). if ?m \<le> j \<and> j < ?h then Some 0 else p) (enumerate 0 ?prev))
      = map (\<lambda>i. Some (level_pred sl i as)) [0..<?h]" if "\<not> ?h \<le> ?m"
    using that h m level_pred_range(3) [OF assms(1)]
    by (intro nth_equalityI) (auto simp: nth_enumerate_eq)
  show ?thesis
    unfolding sl_insert_def fp
    using prev prev'
    by (simp add: Let_def link_new_node_def extend_height_def with_node_def linked_def split_beta max_def o_def)
qed

lemma sl_len_update:
  "is_path (sl \<lparr> sl_len := n \<rparr>) i a xs = is_path sl i a xs"
  "taller (sl \<lparr> sl_len := n \<rparr>) = taller sl" "node_pos (sl \<lparr> sl_len := n \<rparr>) = node_pos sl"
  "store (sl \<lparr> sl_len := n \<rparr>) = store sl" "max_height (sl \<lparr> sl_len := n \<rparr>) = max_height sl"
  "sl_len (sl \<lparr> sl_len := n \<rparr>) = n"
  by (rule is_path_cong) (auto simp: node_next_def taller_def node_pos_def node_key_def fun_eq_iff)

lemma linked_next:
  assumes "sl_inv sl (as @ bs)"
  shows "same_nodes (with_node coin k v sl) (linked coin k v as sl) \<and>
    (\<forall>a i. node_next (linked coin k v as sl) a i =
      (if i < random_height coin then
         if a = length (store sl) then node_next (with_node coin k v sl) (level_pred sl i as) i
         else if a = level_pred sl i as then Some (length (store sl))
         else node_next (with_node coin k v sl) a i
       else node_next (with_node coin k v sl) a i))"
proof -
  let ?s = "with_node coin k v sl" and ?ps = "map (\<lambda>i. level_pred sl i as) [0..<random_height coin]"
  have "level_pred sl i as < length (store sl)" "i < length (tower (store ?s ! level_pred sl i as))"
    if "i < random_height coin" for i
    using level_pred_range(1,2) [OF assms, of i] that random_height_range [of coin]
    by (simp_all add: with_node_sel)
  then have "linkable ?s (length (store sl)) ?ps 0"
    by (auto simp: linkable_def with_node_sel less_Suc_eq dest: less_imp_neq)
  from link_levels_next [OF this, folded linked_def] show ?thesis by simp
qed

lemma linked_old:
  assumes "sl_inv sl (as @ bs)" "a < length (store sl)"
  shows "node_entry (linked coin k v as sl) a = node_entry sl a"
    "node_pos (linked coin k v as sl) a = node_pos sl a"
    "taller (linked coin k v as sl) i a = taller sl i a"
    "nkey (store (linked coin k v as sl) ! a) = nkey (store sl ! a)"
    "nheight (store (linked coin k v as sl) ! a) = nheight (store sl ! a)"
    "length (tower (store (linked coin k v as sl) ! a)) = length (tower (store sl ! a))"
  using linked_next [OF assms(1), of coin k v] assms(2)
  by (simp_all add: same_nodes_def node_entry_def node_pos_def node_key_def taller_def with_node_sel)

lemma linked_new:
  assumes "sl_inv sl (as @ bs)"
  shows "node_entry (linked coin k v as sl) (length (store sl)) = (k, v)"
    "node_pos (linked coin k v as sl) (length (store sl)) = ik_pos k"
    "taller (linked coin k v as sl) i (length (store sl)) = (i < random_height coin)"
    "nkey (store (linked coin k v as sl) ! length (store sl)) = Some k"
    "nheight (store (linked coin k v as sl) ! length (store sl)) = random_height coin"
    "length (tower (store (linked coin k v as sl) ! length (store sl))) = random_height coin"
    "length (store (linked coin k v as sl)) = Suc (length (store sl))"
    "max_height (linked coin k v as sl) = max (max_height sl) (random_height coin)"
    "sl_len (linked coin k v as sl) = sl_len sl"
  using linked_next [OF assms, of coin k v]
  by (simp_all add: same_nodes_def node_entry_def node_pos_def node_key_def taller_def with_node_sel)

lemma linked_path:
  assumes inv: "sl_inv sl (as @ bs)" and i: "i < MAX_HEIGHT"
  shows "is_path (linked coin k v as sl) i 0
    (filter (taller (linked coin k v as sl) i) (as @ length (store sl) # bs))"
proof -
  let ?s = "with_node coin k v sl" and ?s' = "linked coin k v as sl" and ?new = "length (store sl)"
  let ?A = "filter (taller sl i) as" and ?B = "filter (taller sl i) bs"
  note nx = linked_next [OF inv, of coin k v, THEN conjunct2]
  have lt: "\<forall>a\<in>set (as @ bs). 0 < a \<and> a < ?new" using sl_inv_node [OF inv] by blast
  have lt0: "0 < ?new" using inv by (simp add: sl_inv_def)
  have fil: "filter (taller ?s' i) as = ?A" "filter (taller ?s' i) bs = ?B"
    using lt linked_old(3) [OF inv] by (auto intro: filter_cong)
  have P: "is_path ?s i 0 (?A @ ?B)"
    using sl_inv_path [OF inv i] lt lt0
    by (subst is_path_cong [of 0 _ _ _ sl]) (auto simp: node_next_def with_node_sel)
  show ?thesis
  proof (cases "i < random_height coin")
    case True
    have "distinct (as @ bs)" using inv by (simp add: sl_inv_def)
    then have "is_path ?s' i 0 (?A @ ?new # ?B)"
      using P lt lt0 nx True
      by (intro is_path_insert [of ?s i 0 ?A ?B ?new ?s']) (auto simp: level_pred_def)
    then show ?thesis using True by (simp add: fil linked_new [OF inv])
  next
    case False
    then have "is_path ?s' i 0 (?A @ ?B)"
      using P nx by (subst is_path_cong [of 0 _ _ _ ?s]) auto
    then show ?thesis using False by (simp add: fil linked_new [OF inv])
  qed
qed

lemma linked_inv:
  assumes inv: "sl_inv sl (as @ bs)"
    and pos: "\<forall>a\<in>set as. node_pos sl a < ik_pos k" "\<forall>b\<in>set bs. ik_pos k < node_pos sl b"
  shows "sl_inv ((linked coin k v as sl) \<lparr> sl_len := sl_len sl + 1 \<rparr>) (as @ length (store sl) # bs)"
proof -
  let ?s' = "linked coin k v as sl" and ?new = "length (store sl)"
  note old = linked_old [OF inv, of _ coin k v] and new = linked_new [OF inv, of coin k v]
  note h = random_height_range [of coin]
  have ns: "set (as @ bs) = {1..<?new}" "distinct (as @ bs)" "0 < ?new" "sl_len sl = length (as @ bs)"
    "nheight (store sl ! 0) = MAX_HEIGHT"
    using inv by (simp_all add: sl_inv_def)
  have "sorted_wrt (\<lambda>a b. node_pos ?s' a < node_pos ?s' b) (as @ bs)"
    using sl_inv_sorted [OF inv] old(2) ns(1) by (elim sorted_wrt_mono_rel [rotated]) auto
  moreover have lt: "a < ?new" if "a \<in> set as \<or> a \<in> set bs" for a using ns(1) that by auto
  ultimately have sorted: "sorted_wrt (\<lambda>a b. node_pos ?s' a < node_pos ?s' b) (as @ ?new # bs)"
    using pos by (auto simp: sorted_wrt_append old(2) [OF lt] new(2))
  have tow: "\<forall>a<length (store ?s'). length (tower (store ?s' ! a)) = nheight (store ?s' ! a)"
    using sl_inv_tower [OF inv] old(5,6) new(5,6,7) by (auto simp: less_Suc_eq)
  have ok: "\<forall>a\<in>set (as @ ?new # bs). nkey (store ?s' ! a) \<noteq> None \<and> 1 \<le> nheight (store ?s' ! a) \<and>
      nheight (store ?s' ! a) \<le> max_height ?s'"
    using sl_inv_node [OF inv] old(4,5) h new(4,5,8) by (fastforce simp: Suc_le_eq)
  have sets: "set (as @ ?new # bs) = {1..<length (store ?s')}" "distinct (as @ ?new # bs)"
    using ns by (auto simp: new(7) Suc_le_eq)
  have "nheight (store ?s' ! 0) = MAX_HEIGHT" "store ?s' \<noteq> []" using ns old(5) [of 0] new(7) by auto
  moreover have "1 \<le> max_height ?s'" "max_height ?s' \<le> MAX_HEIGHT"
    using sl_inv_max_height [OF inv] h by (auto simp: new(8))
  moreover have "\<forall>i<MAX_HEIGHT. is_path ?s' i 0 (filter (taller ?s' i) (as @ ?new # bs))"
    using linked_path [OF inv] by blast
  moreover have "sl_len sl + 1 = length (as @ ?new # bs)" using ns by simp
  ultimately show ?thesis
    unfolding sl_inv_def sl_len_update using sorted tow ok sets by blast
qed

text \<open>A node with the height of its tower.\<close>

definition tower_entry :: "SkipList \<Rightarrow> nat \<Rightarrow> nat \<times> entry" where
  "tower_entry sl a = (nheight (store sl ! a), node_entry sl a)"

lemma sl_insert_new:
  assumes "sl_inv sl (as @ bs)"
    and "\<forall>a\<in>set as. node_pos sl a < ik_pos k" "\<forall>b\<in>set bs. ik_pos k < node_pos sl b"
  shows "\<exists>sl'. sl_insert coin k v sl = Some (None, sl') \<and> sl_inv sl' (as @ length (store sl) # bs) \<and>
    map (tower_entry sl') (as @ length (store sl) # bs) =
      map (tower_entry sl) as @ (random_height coin, k, v) # map (tower_entry sl) bs"
proof -
  have sp: "splits_at sl (\<lambda>nk. ik_cmp nk k) as bs"
    and ne: "\<forall>b\<in>set bs. ik_cmp (node_key sl b) k \<noteq> Equal"
    using assms(2,3) by (auto simp: splits_at_def ik_cmp_pos node_pos_def)
  let ?s = "(linked coin k v as sl) \<lparr> sl_len := sl_len sl + 1 \<rparr>"
  have run: "sl_insert coin k v sl = Some (None, ?s)"
    using sl_insert_new_eq [OF assms(1) sp ne] linked_new(9) [OF assms(1)] by simp
  have "tower_entry ?s = tower_entry (linked coin k v as sl)"
    by (simp add: tower_entry_def node_entry_def node_key_def fun_eq_iff)
  moreover have "tower_entry (linked coin k v as sl) a = tower_entry sl a" if "a \<in> set (as @ bs)" for a
    using sl_inv_node [OF assms(1) that] linked_old(1,5) [OF assms(1)] by (simp add: tower_entry_def)
  moreover have "tower_entry (linked coin k v as sl) (length (store sl)) = (random_height coin, k, v)"
    using linked_new(1,5) [OF assms(1)] by (simp add: tower_entry_def)
  ultimately have "map (tower_entry ?s) (as @ length (store sl) # bs)
      = map (tower_entry sl) as @ (random_height coin, k, v) # map (tower_entry sl) bs"
    by simp
  with run linked_inv [OF assms] show ?thesis by blast
qed

section \<open>The skip list as an ordered store\<close>

definition sl_ok :: "SkipList \<Rightarrow> bool" where
  "sl_ok sl \<longleftrightarrow> (\<exists>ns. sl_inv sl ns)"

definition sl_content :: "SkipList \<Rightarrow> entry list" where
  "sl_content sl = (case sl_iter sl of Some es \<Rightarrow> es | None \<Rightarrow> [])"

text \<open>A run of inserts, each with its own coin flips.\<close>

fun sl_inserts :: "((nat \<Rightarrow> bool) \<times> InternalKey \<times> bytes) list \<Rightarrow> SkipList \<Rightarrow> SkipList option" where
  "sl_inserts [] sl = Some sl"
| "sl_inserts ((coin, k, v) # ops) sl =
     (case sl_insert coin k v sl of None \<Rightarrow> None | Some (_, sl') \<Rightarrow> sl_inserts ops sl')"

declare search_level.simps [code] iter_from.simps [code] range_from.simps [code]

lemma new_SkipList_inv: "sl_inv new_SkipList []"
  by (auto simp: sl_inv_def new_SkipList_def alloc_node_def MAX_HEIGHT_def node_next_def
      split: prod.splits)

lemma sl_iter_inv: "sl_inv sl ns \<Longrightarrow> sl_iter sl = Some (map (node_entry sl) ns)"
  using sl_inv_path [of sl ns 0] filter_taller_zero [of sl ns ns] iter_from_path [of sl 0 ns]
  by (simp add: sl_iter_def MAX_HEIGHT_def)

lemma sl_content_inv: "sl_inv sl ns \<Longrightarrow> sl_content sl = map (node_entry sl) ns"
  by (simp add: sl_content_def sl_iter_inv)

lemma epos_node_entry [simp]: "epos (node_entry sl a) = node_pos sl a"
  by (simp add: node_entry_def node_pos_def)

lemma sl_content_sorted: "sl_ok sl \<Longrightarrow> entries_sorted (sl_content sl)"
  by (auto simp: sl_ok_def sl_content_inv entries_sorted_def sorted_wrt_map dest: sl_inv_sorted)

text \<open>
  The abstract list with its towers: an insert draws the height of the new tower and puts it
  at the place of its key, unless the key is in the list.
\<close>

definition put_tower :: "(nat \<Rightarrow> bool) \<Rightarrow> InternalKey \<Rightarrow> bytes \<Rightarrow> (nat \<times> entry) list \<Rightarrow> (nat \<times> entry) list" where
  "put_tower coin k v ts =
     (if \<exists>t\<in>set ts. epos (snd t) = ik_pos k then ts
      else takeWhile (\<lambda>t. epos (snd t) < ik_pos k) ts @ (random_height coin, k, v) #
        dropWhile (\<lambda>t. epos (snd t) < ik_pos k) ts)"

definition sl_shape :: "SkipList \<Rightarrow> (nat \<times> entry) list \<Rightarrow> bool" where
  "sl_shape sl ts \<longleftrightarrow> (\<exists>ns. sl_inv sl ns \<and> map (tower_entry sl) ns = ts)"

lemma snd_tower_entry [simp]: "snd (tower_entry sl a) = node_entry sl a"
  by (simp add: tower_entry_def)

lemma map_snd_put_tower: "map snd (put_tower coin k v ts) = put_entry k v (map snd ts)"
  by (simp add: put_tower_def put_entry_def takeWhile_map dropWhile_map o_def)

lemma sl_shape_content: "sl_shape sl ts \<Longrightarrow> sl_ok sl \<and> sl_content sl = map snd ts"
  by (auto simp: sl_shape_def sl_ok_def sl_content_inv)

lemma sl_insert_shape:
  assumes "sl_shape sl ts"
  shows "\<exists>r sl'. sl_insert coin k v sl = Some (r, sl') \<and> sl_shape sl' (put_tower coin k v ts)"
proof -
  obtain ns where inv: "sl_inv sl ns" and ts: "ts = map (tower_entry sl) ns" using assms by (auto simp: sl_shape_def)
  show ?thesis
  proof (cases "\<exists>e\<in>set ns. node_pos sl e = ik_pos k")
    case True
    then obtain e where "e \<in> set ns" "node_pos sl e = ik_pos k" by blast
    then have "sl_insert coin k v sl = Some (Some (nvalue (store sl ! e)), sl)"
      using sl_insert_existing [OF inv] by blast
    then show ?thesis using True assms by (auto simp: put_tower_def ts)
  next
    case False
    let ?P = "\<lambda>a. ik_cmp (node_key sl a) k = Less"
    have P: "?P a \<longleftrightarrow> node_pos sl a < ik_pos k" for a by (simp add: ik_cmp_pos node_pos_def)
    have sp: "splits_at sl (\<lambda>nk. ik_cmp nk k) (takeWhile ?P ns) (dropWhile ?P ns)"
      using split_sorted [OF sl_inv_sorted [OF inv] downward_ik] .
    have lo: "\<forall>a\<in>set (takeWhile ?P ns). node_pos sl a < ik_pos k"
      using sp unfolding splits_at_def P by blast
    have hi: "\<forall>b\<in>set (dropWhile ?P ns). ik_pos k < node_pos sl b"
    proof
      fix b assume b: "b \<in> set (dropWhile ?P ns)"
      then have "\<not> node_pos sl b < ik_pos k" using sp unfolding splits_at_def P by blast
      moreover have "node_pos sl b \<noteq> ik_pos k" using b False by (blast dest: set_dropWhileD)
      ultimately show "ik_pos k < node_pos sl b" by simp
    qed
    obtain sl' where run: "sl_insert coin k v sl = Some (None, sl')"
      and inv': "sl_inv sl' (takeWhile ?P ns @ length (store sl) # dropWhile ?P ns)"
      and ents: "map (tower_entry sl') (takeWhile ?P ns @ length (store sl) # dropWhile ?P ns) =
        map (tower_entry sl) (takeWhile ?P ns) @ (random_height coin, k, v) # map (tower_entry sl) (dropWhile ?P ns)"
      using sl_insert_new [OF _ lo hi, of coin v] inv by fastforce
    have "put_tower coin k v ts = map (tower_entry sl') (takeWhile ?P ns @ length (store sl) # dropWhile ?P ns)"
      unfolding ents put_tower_def ts using False by (simp add: takeWhile_map dropWhile_map o_def P)
    then show ?thesis using run inv' by (auto simp: sl_shape_def)
  qed
qed

lemma sl_insert_content:
  assumes "sl_ok sl"
  shows "\<exists>r sl'. sl_insert coin k v sl = Some (r, sl') \<and> sl_ok sl' \<and>
    sl_content sl' = put_entry k v (sl_content sl)"
proof -
  obtain ts where ts: "sl_shape sl ts" using assms by (auto simp: sl_ok_def sl_shape_def)
  from sl_insert_shape [OF this, of coin k v] show ?thesis
    using sl_shape_content sl_shape_content [OF ts] by (metis map_snd_put_tower)
qed

lemma sl_split_ge:
  assumes "sl_inv sl ns"
    and P_def: "P = (\<lambda>a. user_key (node_key sl a) < uk)"
  shows "find_ge sl uk = Some (case dropWhile P ns of [] \<Rightarrow> None | b # _ \<Rightarrow> Some b)"
    "sl_inv sl (takeWhile P ns @ dropWhile P ns)"
proof -
  have P: "P = (\<lambda>a. ge_cmp uk (node_key sl a) = Less)" by (auto simp: P_def ge_cmp_def)
  show "sl_inv sl (takeWhile P ns @ dropWhile P ns)" using assms by simp
  then show "find_ge sl uk = Some (case dropWhile P ns of [] \<Rightarrow> None | b # _ \<Rightarrow> Some b)"
    using split_sorted [OF sl_inv_sorted [OF assms(1)] downward_ge] unfolding P
    by (rule find_ge_inv)
qed

lemma find_dropWhile: "find P xs = (case dropWhile (\<lambda>x. \<not> P x) xs of [] \<Rightarrow> None | x # _ \<Rightarrow> Some x)"
  by (induction xs) auto

lemma ukey_node_entry [simp]: "ukey (node_entry sl a) = user_key (node_key sl a)"
  by (simp add: node_entry_def)

lemma sl_seek_content:
  assumes "sl_ok sl"
  shows "sl_seek uk sl = Some (find (\<lambda>e. uk \<le> ukey e) (sl_content sl))"
proof -
  obtain ns where inv: "sl_inv sl ns" using assms by (auto simp: sl_ok_def)
  show ?thesis
    unfolding sl_seek_def sl_split_ge(1) [OF inv refl] sl_content_inv [OF inv] find_dropWhile
    by (cases "dropWhile (\<lambda>a. user_key (node_key sl a) < uk) ns")
      (simp_all add: dropWhile_map o_def linorder_not_le del: dropWhile_eq_Nil_conv)
qed

lemma sl_seek_iter_content:
  assumes "sl_ok sl"
  shows "sl_seek_iter uk sl = Some (dropWhile (\<lambda>e. ukey e < uk) (sl_content sl))"
proof -
  obtain ns where inv: "sl_inv sl ns" using assms by (auto simp: sl_ok_def)
  show ?thesis
    using iter_from_suffix [OF sl_split_ge(2) [OF inv refl, of uk]]
    by (simp add: sl_seek_iter_def sl_split_ge(1) [OF inv refl] sl_content_inv [OF inv] dropWhile_map o_def)
qed

interpretation skip: ordered_store sl_ok sl_content sl_insert sl_seek sl_seek_iter
  by unfold_locales (fact sl_content_sorted sl_insert_content sl_seek_content sl_seek_iter_content)+

lemma sl_inserts_content:
  "sl_ok sl \<Longrightarrow> \<exists>sl'. sl_inserts ops sl = Some sl' \<and> sl_ok sl' \<and>
     sl_content sl' = fold (\<lambda>(_, k, v). put_entry k v) ops (sl_content sl)"
proof (induction ops arbitrary: sl)
  case (Cons op ops)
  obtain coin k v where op: "op = (coin, k, v)" by (cases op)
  obtain r sl1 where "sl_insert coin k v sl = Some (r, sl1)" "sl_ok sl1"
    "sl_content sl1 = put_entry k v (sl_content sl)"
    using sl_insert_content [OF Cons.prems] by blast
  then show ?case using Cons.IH [of sl1] by (simp add: op)
qed simp

lemma sl_ok_iter: "sl_ok sl \<Longrightarrow> sl_iter sl = Some (sl_content sl) \<and> sl_len sl = length (sl_content sl)"
  by (auto simp: sl_ok_def sl_iter_inv sl_content_inv) (auto simp: sl_inv_def)

lemma new_SkipList_ok: "sl_ok new_SkipList" "sl_content new_SkipList = []"
  using new_SkipList_inv sl_content_inv [OF new_SkipList_inv] by (auto simp: sl_ok_def)

text \<open>
  (C6) The skip list implements a sorted association list.  Whatever the coin flips,
  every run of inserts on an empty skip list returns; iteration then yields exactly the
  entries of the same run of \<open>put_entry\<close> on a sorted list, the length counter is
  their number, \<open>seek\<close> returns the first entry with a user key at or above the
  target, and \<open>seek_iter\<close> everything from there on.
\<close>

theorem skip_list_refines_sorted_list:
  "\<exists>sl. sl_inserts ops new_SkipList = Some sl \<and>
     (let es = fold (\<lambda>(_, k, v). put_entry k v) ops [] in
        sl_iter sl = Some es \<and> sl_len sl = length es \<and> entries_sorted es \<and>
        sl_seek uk sl = Some (find (\<lambda>e. uk \<le> ukey e) es) \<and>
        sl_seek_iter uk sl = Some (dropWhile (\<lambda>e. ukey e < uk) es))"
proof -
  obtain sl where "sl_inserts ops new_SkipList = Some sl" and ok: "sl_ok sl"
    and "sl_content sl = fold (\<lambda>(_, k, v). put_entry k v) ops []"
    using sl_inserts_content [OF new_SkipList_ok(1)] by (auto simp: new_SkipList_ok(2))
  then show ?thesis
    using sl_ok_iter [OF ok] skip.content_sorted [OF ok] skip.seek_content [OF ok]
      skip.seek_iter_content [OF ok]
    by (simp add: Let_def)
qed

lemma sl_inserts_shape:
  "sl_shape sl ts \<Longrightarrow> \<exists>sl'. sl_inserts ops sl = Some sl' \<and>
     sl_shape sl' (fold (\<lambda>(coin, k, v). put_tower coin k v) ops ts)"
proof (induction ops arbitrary: sl ts)
  case (Cons op ops)
  obtain coin k v where op: "op = (coin, k, v)" by (cases op)
  obtain r sl1 where "sl_insert coin k v sl = Some (r, sl1)" "sl_shape sl1 (put_tower coin k v ts)"
    using sl_insert_shape [OF Cons.prems] by blast
  then show ?case using Cons.IH [of sl1] by (simp add: op)
qed simp

text \<open>
  The version \<open>find_equal\<close> stops at: among the versions of the user key with the tallest tower,
  the first one, that is, the newest.
\<close>

definition tallest :: "bytes \<Rightarrow> (nat \<times> entry) list \<Rightarrow> (nat \<times> entry) option" where
  "tallest uk ts = find (\<lambda>t. ukey (snd t) = uk \<and>
     list_all (\<lambda>t'. ukey (snd t') = uk \<longrightarrow> fst t' \<le> fst t) ts) ts"

lemma find_skip: "\<forall>x\<in>set xs. \<not> P x \<Longrightarrow> find P (xs @ ys) = find P ys"
  by (induction xs) auto

lemma downward_uk: "downward sl (\<lambda>nk. cmp (user_key nk) uk)"
  by (auto simp: downward_def node_pos_def ik_pos_def)

definition top_node :: "SkipList \<Rightarrow> bytes \<Rightarrow> nat list \<Rightarrow> nat \<Rightarrow> bool" where
  "top_node sl uk ns a \<longleftrightarrow> user_key (node_key sl a) = uk \<and>
     (\<forall>b\<in>set ns. user_key (node_key sl b) = uk \<longrightarrow> nheight (store sl ! b) \<le> nheight (store sl ! a))"

lemma find_equal_level:
  assumes inv: "sl_inv sl (as @ bs)" and sp: "splits_at sl (\<lambda>nk. cmp (user_key nk) uk) as bs"
    and top: "\<forall>a\<in>set (as @ bs). user_key (node_key sl a) = uk \<longrightarrow> nheight (store sl ! a) \<le> Suc n"
  shows "case first_equal sl (\<lambda>nk. cmp (user_key nk) uk) (filter (taller sl n) bs) of
      Some p \<Rightarrow> find (top_node sl uk (as @ bs)) (as @ bs) = Some p
    | None \<Rightarrow> \<forall>a\<in>set (as @ bs). user_key (node_key sl a) = uk \<longrightarrow> nheight (store sl ! a) \<le> n"
proof (cases "filter (taller sl n) bs")
  case Nil
  then show ?thesis using sp by (fastforce simp: first_equal_def splits_at_def taller_def filter_empty_conv)
next
  case (Cons p ps)
  then obtain us vs where bs: "bs = us @ p # vs" and us: "\<forall>u\<in>set us. \<not> taller sl n u" and p: "taller sl n p"
      and ps: "ps = filter (taller sl n) vs"
    by (auto dest: filter_eq_ConsD)
  have lt: "\<forall>a\<in>set as. user_key (node_key sl a) < uk" and ge: "\<forall>b\<in>set bs. uk \<le> user_key (node_key sl b)"
    using sp by (auto simp: splits_at_def linorder_not_less)
  have after: "\<forall>x\<in>set vs. user_key (node_key sl p) \<le> user_key (node_key sl x)"
    using sl_inv_sorted [OF inv] by (auto simp: bs sorted_wrt_append node_pos_def ik_pos_def)
  show ?thesis
  proof (cases "user_key (node_key sl p) = uk")
    case True
    have "nheight (store sl ! p) = Suc n" using top True p by (auto simp: bs taller_def)
    then have "top_node sl uk (as @ bs) p" using top True by (simp add: top_node_def)
    moreover have "\<forall>a\<in>set (as @ us). \<not> top_node sl uk (as @ bs) a"
      using lt us p True by (fastforce simp: top_node_def taller_def bs)
    ultimately have "find (top_node sl uk (as @ bs)) ((as @ us) @ p # vs) = Some p"
      by (subst find_skip) simp_all
    then show ?thesis using Cons True by (simp add: first_equal_def bs)
  next
    case False
    then have "uk < user_key (node_key sl p)" using ge by (auto simp: bs)
    then have "\<forall>a\<in>set (as @ bs). user_key (node_key sl a) = uk \<longrightarrow> a \<in> set us"
      using lt after by (fastforce simp: bs)
    then have "\<forall>a\<in>set (as @ bs). user_key (node_key sl a) = uk \<longrightarrow> \<not> taller sl n a" using us by blast
    then show ?thesis using Cons False by (simp add: first_equal_def taller_def linorder_not_less)
  qed
qed

lemma find_equal_from_inv:
  assumes "sl_inv sl (as @ bs)" "splits_at sl (\<lambda>nk. cmp (user_key nk) uk) as bs"
  shows "n \<le> MAX_HEIGHT \<Longrightarrow> start_ok sl n as cur \<Longrightarrow>
    \<forall>a\<in>set (as @ bs). user_key (node_key sl a) = uk \<longrightarrow> nheight (store sl ! a) \<le> n \<Longrightarrow>
    find_equal_from sl uk n cur = Some (find (top_node sl uk (as @ bs)) (as @ bs))"
proof (induction n arbitrary: cur)
  case 0
  then have "\<forall>a\<in>set (as @ bs). user_key (node_key sl a) \<noteq> uk" using sl_inv_node [OF assms(1)] by fastforce
  then have "find (top_node sl uk (as @ bs)) (as @ bs) = None"
    unfolding find_None_iff by (auto simp: top_node_def)
  then show ?case by simp
next
  case (Suc n)
  then show ?case
    using search_level_inv [OF assms, of n cur] start_ok_pred [of sl n as] find_equal_level [OF assms Suc.prems(3)]
    by (simp add: start_ok_def split: option.splits)
qed

lemma find_map: "find P (map f xs) = map_option f (find (P \<circ> f) xs)"
  by (induction xs) auto

lemma sl_get_shape:
  assumes "sl_shape sl ts"
  shows "sl_get uk sl = Some (map_option (snd \<circ> snd) (tallest uk ts))"
proof -
  obtain ns where inv: "sl_inv sl ns" and ts: "ts = map (tower_entry sl) ns" using assms by (auto simp: sl_shape_def)
  let ?P = "\<lambda>a. cmp (user_key (node_key sl a)) uk = Less"
  have ns: "takeWhile ?P ns @ dropWhile ?P ns = ns" by simp
  have "find_equal sl uk = Some (find (top_node sl uk ns) ns)"
    unfolding find_equal_def
    using find_equal_from_inv [of sl "takeWhile ?P ns" "dropWhile ?P ns" uk "max_height sl" 0, unfolded ns]
      split_sorted [OF sl_inv_sorted [OF inv] downward_uk] inv sl_inv_max_height [OF inv] sl_inv_node [OF inv]
    by (simp add: start_ok_head)
  moreover have "(\<lambda>t. ukey (snd t) = uk \<and> list_all (\<lambda>t'. ukey (snd t') = uk \<longrightarrow> fst t' \<le> fst t) ts) \<circ> tower_entry sl
      = top_node sl uk ns"
    by (auto simp: top_node_def fun_eq_iff ts list_all_iff tower_entry_def)
  ultimately show ?thesis
    unfolding sl_get_def tallest_def
    by (subst (2) ts) (simp add: find_map option.map_comp o_def tower_entry_def node_entry_def)
qed

lemma put_tower_keys: "(\<lambda>t. ukey (snd t)) ` set (put_tower coin k v ts) = insert (user_key k) ((\<lambda>t. ukey (snd t)) ` set ts)"
proof (cases "\<exists>t\<in>set ts. epos (snd t) = ik_pos k")
  case True
  then have "user_key k \<in> (\<lambda>t. ukey (snd t)) ` set ts" by (force simp: ik_pos_def)
  then show ?thesis using True by (auto simp: put_tower_def)
next
  case False
  then show ?thesis
    using set_append [of "takeWhile (\<lambda>t. epos (snd t) < ik_pos k) ts" "dropWhile (\<lambda>t. epos (snd t) < ik_pos k) ts"]
    by (simp add: put_tower_def flip: image_Un)
qed

lemma fold_put_tower_keys:
  "(\<lambda>t. ukey (snd t)) ` set (fold (\<lambda>(coin, k, v). put_tower coin k v) ops ts)
     = (\<lambda>(coin, k, v). user_key k) ` set ops \<union> (\<lambda>t. ukey (snd t)) ` set ts"
proof (induction ops arbitrary: ts)
  case (Cons op ops)
  obtain coin k v where op: "op = (coin, k, v)" by (cases op)
  show ?case by (simp add: op Cons.IH [of "put_tower coin k v ts"] put_tower_keys)
qed simp

lemma tallest_None: "tallest uk ts = None \<longleftrightarrow> uk \<notin> (\<lambda>t. ukey (snd t)) ` set ts"
proof
  assume none: "tallest uk ts = None"
  show "uk \<notin> (\<lambda>t. ukey (snd t)) ` set ts"
  proof
    let ?V = "{t \<in> set ts. ukey (snd t) = uk}"
    assume "uk \<in> (\<lambda>t. ukey (snd t)) ` set ts"
    then have "fst ` ?V \<noteq> {}" "finite (fst ` ?V)" by (blast, simp)
    then have "Max (fst ` ?V) \<in> fst ` ?V" "\<forall>t\<in>?V. fst t \<le> Max (fst ` ?V)" by (blast intro: Max_in Max_ge)+
    then obtain t where t: "t \<in> ?V" "\<forall>t'\<in>?V. fst t' \<le> fst t" by (metis (no_types, lifting) imageE)
    with none show False unfolding tallest_def find_None_iff list_all_iff by blast
  qed
next
  assume "uk \<notin> (\<lambda>t. ukey (snd t)) ` set ts"
  then have "\<forall>t\<in>set ts. ukey (snd t) \<noteq> uk" by blast
  then show "tallest uk ts = None" unfolding tallest_def find_None_iff by blast
qed

text \<open>
  (C22) \<open>SkipList::get\<close> returns the version of a user key with the tallest tower, not the newest
  one.  After every run of inserts, with every outcome of the coin flips, the lookup returns;
  its result is absent exactly when no version of the key was inserted, and otherwise it is the
  value of the newest among the versions whose tower is as high as that of any version of the
  key.  So an older version hides every newer one with a lower tower.
\<close>

theorem sl_get_tallest_version:
  "\<exists>sl. sl_inserts ops new_SkipList = Some sl \<and>
     (let ts = fold (\<lambda>(coin, k, v). put_tower coin k v) ops [] in
        sl_iter sl = Some (map snd ts) \<and>
        sl_get uk sl = Some (map_option (snd \<circ> snd) (tallest uk ts)) \<and>
        (tallest uk ts = None) = (uk \<notin> (\<lambda>(coin, k, v). user_key k) ` set ops))"
proof -
  have "sl_shape new_SkipList []" using new_SkipList_inv by (auto simp: sl_shape_def)
  from sl_inserts_shape [OF this, of ops] obtain sl where sl: "sl_inserts ops new_SkipList = Some sl"
      "sl_shape sl (fold (\<lambda>(coin, k, v). put_tower coin k v) ops [])" by blast
  with sl_get_shape [OF sl(2), of uk] sl_shape_content [OF sl(2)] show ?thesis
    by (simp add: Let_def sl_ok_iter tallest_None fold_put_tower_keys)
qed

end
