(* ===== verification/Mem_Table.thy ===== *)
theory Mem_Table
  imports Skip_List
begin

text \<open>
  \<open>core/mem_table.rs\<close>: the memtable, a skip list behind a lock, and its frozen form.
  The lock makes every method atomic, so a memtable is a value and \<open>put\<close> returns the
  new one.  A method that would not return has the value \<open>None\<close>.  The reads are
  compared with \<open>visible\<close> through the interface of the ordered store.
\<close>

record MemTable =
  skiplist :: SkipList
  size_limit :: nat

definition new_MemTable :: "nat \<Rightarrow> MemTable" where
  "new_MemTable n = \<lparr> skiplist = new_SkipList, size_limit = n \<rparr>"

definition mt_put :: "(nat \<Rightarrow> bool) \<Rightarrow> InternalKey \<Rightarrow> bytes \<Rightarrow> MemTable \<Rightarrow> MemTable option" where
  "mt_put coin k v mt =
     map_option (\<lambda>(_, sl). mt \<lparr> skiplist := sl \<rparr>) (sl_insert coin k v (skiplist mt))"

definition mt_seek_pinned :: "bytes \<Rightarrow> MemTable \<Rightarrow> entry option option" where
  "mt_seek_pinned key mt = sl_seek key (skiplist mt)"

definition mt_get_pinned :: "bytes \<Rightarrow> MemTable \<Rightarrow> entry option option" where
  "mt_get_pinned key mt =
     (case mt_seek_pinned key mt of
        None \<Rightarrow> None
      | Some (Some (inter_key, v)) \<Rightarrow>
          Some (if user_key inter_key = key then Some (inter_key, v) else None)
      | Some None \<Rightarrow> Some None)"

text \<open>The loop of \<open>get_pinned_at_seq\<close> over what the iterator yields.\<close>

fun at_seq_loop :: "bytes \<Rightarrow> u64 \<Rightarrow> entry list \<Rightarrow> entry option" where
  "at_seq_loop key read_seq [] = None"
| "at_seq_loop key read_seq ((internal_key, v) # es) =
     (case cmp (user_key internal_key) key of
        Less \<Rightarrow> at_seq_loop key read_seq es
      | Equal \<Rightarrow> if sequence_number internal_key \<le> read_seq then Some (internal_key, v)
                else at_seq_loop key read_seq es
      | Greater \<Rightarrow> None)"

definition mt_get_pinned_at_seq :: "bytes \<Rightarrow> u64 \<Rightarrow> MemTable \<Rightarrow> entry option option" where
  "mt_get_pinned_at_seq key read_seq mt =
     map_option (at_seq_loop key read_seq) (sl_seek_iter key (skiplist mt))"

definition mt_iter :: "MemTable \<Rightarrow> entry list option" where
  "mt_iter mt = sl_iter (skiplist mt)"

definition mt_memory_usage :: "MemTable \<Rightarrow> nat" where
  "mt_memory_usage mt = bytes_allocated (arena (skiplist mt))"

definition mt_should_flush :: "MemTable \<Rightarrow> bool" where
  "mt_should_flush mt \<longleftrightarrow> size_limit mt \<le> mt_memory_usage mt"

definition mt_len :: "MemTable \<Rightarrow> nat" where
  "mt_len mt = sl_len (skiplist mt)"

definition mt_is_empty :: "MemTable \<Rightarrow> bool" where
  "mt_is_empty mt \<longleftrightarrow> mt_len mt = 0"

text \<open>A run of puts, as the replay and the memtable stage of the write path perform them.\<close>

fun mt_puts :: "((nat \<Rightarrow> bool) \<times> InternalKey \<times> bytes) list \<Rightarrow> MemTable \<Rightarrow> MemTable option" where
  "mt_puts [] mt = Some mt"
| "mt_puts ((coin, k, v) # ops) mt = Option.bind (mt_put coin k v mt) (mt_puts ops)"

section \<open>Invariant and contents\<close>

definition mt_ok :: "MemTable \<Rightarrow> bool" where
  "mt_ok mt \<longleftrightarrow> sl_ok (skiplist mt)"

definition mt_content :: "MemTable \<Rightarrow> entry list" where
  "mt_content mt = sl_content (skiplist mt)"

lemma new_MemTable_ok [simp]: "mt_ok (new_MemTable n)" "mt_content (new_MemTable n) = []"
  by (simp_all add: mt_ok_def mt_content_def new_MemTable_def new_SkipList_ok)

lemma mt_content_sorted: "mt_ok mt \<Longrightarrow> entries_sorted (mt_content mt)"
  by (simp add: mt_ok_def mt_content_def skip.content_sorted)

lemma mt_put_content:
  assumes "mt_ok mt"
  shows "\<exists>mt'. mt_put coin k v mt = Some mt' \<and> mt_ok mt' \<and> size_limit mt' = size_limit mt \<and>
    mt_content mt' = put_entry k v (mt_content mt)"
  using skip.put_content [of "skiplist mt" coin k v] assms
  by (auto simp: mt_put_def mt_ok_def mt_content_def)

lemma mt_puts_content:
  "mt_ok mt \<Longrightarrow> \<exists>mt'. mt_puts ops mt = Some mt' \<and> mt_ok mt' \<and> size_limit mt' = size_limit mt \<and>
     mt_content mt' = fold (\<lambda>(_, k, v). put_entry k v) ops (mt_content mt)"
proof (induction ops arbitrary: mt)
  case (Cons op ops)
  obtain coin k v where op: "op = (coin, k, v)" by (cases op)
  obtain mt1 where "mt_put coin k v mt = Some mt1" "mt_ok mt1" "size_limit mt1 = size_limit mt"
    "mt_content mt1 = put_entry k v (mt_content mt)"
    using mt_put_content [OF Cons.prems] by blast
  then show ?case using Cons.IH [of mt1] by (simp add: op)
qed simp

lemma fold_put_entry_sorted:
  "entries_sorted es \<Longrightarrow> entries_sorted (fold (\<lambda>(_, k, v). put_entry k v) ops es)"
  by (induction ops arbitrary: es) (auto simp: put_entry_sorted)

text \<open>Puts of versions that are pairwise different and new add exactly those entries.\<close>

lemma fold_put_entry_set:
  assumes "entries_sorted es" "distinct (map (epos \<circ> snd) ops)"
    "\<forall>e\<in>set es. epos e \<notin> set (map (epos \<circ> snd) ops)"
  shows "set (fold (\<lambda>(_, k, v). put_entry k v) ops es) = set es \<union> set (map snd ops)"
  using assms
proof (induction ops arbitrary: es)
  case (Cons op ops)
  obtain c k v where op: "op = (c, k, v)" by (cases op)
  have new: "\<not> (\<exists>e\<in>set es. epos e = ik_pos k)" using Cons.prems(3) by (auto simp: op)
  have "set (fold (\<lambda>(_, k, v). put_entry k v) ops (put_entry k v es)) =
      set (put_entry k v es) \<union> set (map snd ops)"
    using Cons.prems new
    by (intro Cons.IH) (auto simp: op put_entry_sorted)
  then show ?case using new by (simp add: op put_entry_sorted(2) [OF Cons.prems(1)])
qed simp

lemma entries_sorted_distinct: "entries_sorted es \<Longrightarrow> distinct es"
  by (induction es) (auto simp: entries_sorted_def)

section \<open>Reads\<close>

lemma mt_get_pinned_visible:
  assumes "mt_ok mt"
  shows "mt_get_pinned key mt = Some (visible key SEQUENCE_NUMBER_MAX (mt_content mt))"
  using skip.seek_newest [of "skiplist mt" key] skip.seek_content [of "skiplist mt" key] assms
  by (auto simp: mt_get_pinned_def mt_seek_pinned_def mt_ok_def mt_content_def
      split: option.splits if_splits)

lemma at_seq_loop_visible:
  "entries_sorted es \<Longrightarrow> at_seq_loop key s es = visible key s es"
proof (induction es)
  case (Cons e es)
  have sorted: "entries_sorted es" "\<forall>x\<in>set es. epos e < epos x"
    using Cons.prems by (simp_all add: entries_sorted_def)
  have "visible key s es = None" if "key < ukey e"
    using sorted(2) that by (fastforce simp: visible_None epos_less)
  then show ?case
    using Cons.IH [OF sorted(1)] by (cases e) (auto simp: visible_def cmp_def)
qed (simp add: visible_def)

lemma visible_dropWhile: "visible key s (dropWhile (\<lambda>e. ukey e < key) es) = visible key s es"
  by (induction es) (auto simp: visible_def)

lemma entries_sorted_dropWhile: "entries_sorted es \<Longrightarrow> entries_sorted (dropWhile P es)"
  using entries_sorted_append [of "takeWhile P es" "dropWhile P es"] by simp

lemma mt_get_pinned_at_seq_visible:
  assumes "mt_ok mt"
  shows "mt_get_pinned_at_seq key s mt = Some (visible key s (mt_content mt))"
  using skip.seek_iter_content [of "skiplist mt" key] skip.content_sorted [of "skiplist mt"] assms
  by (simp add: mt_get_pinned_at_seq_def mt_ok_def mt_content_def at_seq_loop_visible
      entries_sorted_dropWhile visible_dropWhile)

text \<open>
  (C7) A memtable read is correct at every sequence number.  After any run of puts of
  pairwise different versions (coin flips arbitrary), \<open>get_pinned_at_seq\<close> returns the
  entry with the largest sequence number at or below \<open>read_seq\<close> among the entries put
  for that key, and nothing exactly if there is none; \<open>get_pinned\<close> returns the newest
  entry of the key.
\<close>

theorem memtable_reads_visible:
  assumes "distinct (map (epos \<circ> snd) ops)"
  shows "\<exists>mt. mt_puts ops (new_MemTable n) = Some mt \<and> mt_len mt = length ops \<and>
    (\<exists>r. mt_get_pinned_at_seq key s mt = Some r \<and>
      (\<forall>e. r = Some e \<longleftrightarrow> is_visible key s (set (map snd ops)) e)) \<and>
    (\<exists>r. mt_get_pinned key mt = Some r \<and>
      (\<forall>e. r = Some e \<longleftrightarrow> is_visible key SEQUENCE_NUMBER_MAX (set (map snd ops)) e))"
proof -
  let ?es = "fold (\<lambda>(_, k, v). put_entry k v) ops []"
  obtain mt where run: "mt_puts ops (new_MemTable n) = Some mt" and ok: "mt_ok mt"
    and content: "mt_content mt = ?es"
    using mt_puts_content [of "new_MemTable n" ops] by auto
  have sorted: "entries_sorted ?es"
    by (intro fold_put_entry_sorted) (simp add: entries_sorted_def)
  have "set ?es = set (map snd ops)"
    using fold_put_entry_set [of "[]" ops] assms by (simp add: entries_sorted_def)
  moreover have "distinct ?es"
    using sorted by (rule entries_sorted_distinct)
  moreover have "distinct (map snd ops)"
    using assms by (auto simp: distinct_map inj_on_def)
  ultimately have "length ?es = length ops"
    by (metis distinct_card length_map)
  then have len: "mt_len mt = length ops"
    using sl_ok_iter [of "skiplist mt"] ok content by (simp add: mt_len_def mt_ok_def mt_content_def)
  show ?thesis
    using run len visible_is_visible [OF sorted] mt_get_pinned_visible [OF ok]
      mt_get_pinned_at_seq_visible [OF ok] \<open>set ?es = set (map snd ops)\<close>
    by (simp add: content)
qed

theorem memtable_reads_visible_witness:
  "distinct (map (epos \<circ> snd)
     [(\<lambda>_. False, \<lparr> user_key = [97], encoded_sequence_number = 0x101 \<rparr>, [1]),
      (\<lambda>h. h < 3, \<lparr> user_key = [97], encoded_sequence_number = 0x201 \<rparr>, [2])]) \<and>
   (\<exists>mt. mt_puts [(\<lambda>_. False, \<lparr> user_key = [97], encoded_sequence_number = 0x101 \<rparr>, [1]),
      (\<lambda>h. h < 3, \<lparr> user_key = [97], encoded_sequence_number = 0x201 \<rparr>, [2])] (new_MemTable 64) = Some mt \<and>
     mt_len mt = 2)"
proof -
  let ?ops = "[(\<lambda>_. False, \<lparr> user_key = [97], encoded_sequence_number = 0x101 \<rparr>, [1]),
      (\<lambda>h. h < 3, \<lparr> user_key = [97], encoded_sequence_number = 0x201 \<rparr>, [2])] ::
      ((nat \<Rightarrow> bool) \<times> InternalKey \<times> bytes) list"
  have d: "distinct (map (epos \<circ> snd) ?ops)" by code_simp
  show ?thesis using d memtable_reads_visible [OF d, of 64 "[97]" 1] by auto
qed

lemma alloc_bytes_le: "bytes_allocated (alloc_bytes sz 8 ar) \<le> bytes_allocated ar + 7 + sz"
proof (induction sz "8 :: nat" ar rule: alloc_bytes.induct)
  case (1 sz ar)
  have "align_up 8 (current_len ar) - current_len ar \<le> 7"
    by (simp add: align_up_def)
  with 1 show ?case by (subst alloc_bytes.simps) (auto simp: Let_def)
qed

text \<open>
  (C33) The flush threshold ignores the payload.  A memtable with the limit of one mebibyte
  that holds a single value of any size at all does not ask for a flush: the
  arena counts nodes and towers, never the bytes of keys and values.
\<close>

theorem should_flush_ignores_payload:
  "\<exists>mt. mt_put coin k v (new_MemTable (1024 * 1024)) = Some mt \<and> \<not> mt_should_flush mt"
proof -
  let ?l = "linked coin k v [] new_SkipList"
  have run: "sl_insert coin k v new_SkipList = Some (None, ?l \<lparr> sl_len := sl_len ?l + 1 \<rparr>)"
    using sl_insert_new_eq [of new_SkipList "[]" "[]"] new_SkipList_inv by (simp add: splits_at_def)
  have "arena ?l = arena (with_node coin k v new_SkipList)"
    using linked_next [of new_SkipList "[]" "[]" coin k v] new_SkipList_inv by (simp add: same_nodes_def)
  also have "\<dots> = alloc_bytes (NODE_SIZE + 8 * random_height coin) 8 (arena new_SkipList)"
    by (simp add: with_node_def alloc_node_def)
  finally have ar: "arena ?l = \<dots>" .
  have "bytes_allocated (arena new_SkipList) \<le> 400"
    using alloc_bytes_le [of "NODE_SIZE + 8 * MAX_HEIGHT" "arena_with_capacity 4096"]
    by (simp add: new_SkipList_def alloc_node_def arena_with_capacity_def NODE_SIZE_def MAX_HEIGHT_def)
  then have "bytes_allocated (arena ?l) \<le> 1000"
    using alloc_bytes_le [of "NODE_SIZE + 8 * random_height coin" "arena new_SkipList"]
      random_height_range [of coin] by (simp add: ar NODE_SIZE_def MAX_HEIGHT_def)
  with run show ?thesis
    by (simp add: mt_put_def new_MemTable_def mt_should_flush_def mt_memory_usage_def)
qed

end
