(* ===== verification/Lsm_State.thy ===== *)
theory Lsm_State
  imports Options Mem_Table
begin

text \<open>
  \<open>core/lsm_state.rs\<close> and \<open>storage/wal/handle.rs\<close>: what readers, the writer and the flush worker
  share.  A frozen memtable is a memtable that takes no more puts.  The handle of a log file is
  its log number; dropping the last reference to it asks for the removal of the file.
\<close>

record WalHandle =
  wh_log_number :: u64
  cleanup_enabled :: bool

definition drop_WalHandle :: "WalHandle \<Rightarrow> u64 option" where
  "drop_WalHandle h =
     (if wh_log_number h = 0 then None else if \<not> cleanup_enabled h then None else Some (wh_log_number h))"

record ImmutableMemTableEntry =
  im_table :: MemTable
  im_wal_handle :: "WalHandle option"

record LSMState =
  mem_table :: MemTable
  immutable_mem_tables :: "ImmutableMemTableEntry list"
  flush_failure_streak :: nat
  flush_circuit_open :: bool
  lsm_version :: Version

definition new_LSMState :: "MemTable \<Rightarrow> Version \<Rightarrow> LSMState" where
  "new_LSMState mt v = \<lparr> mem_table = mt, immutable_mem_tables = [], flush_failure_streak = 0,
     flush_circuit_open = False, lsm_version = v \<rparr>"

text \<open>All memtables, and the readable state of one: every table is well formed.\<close>

definition lsm_tables :: "LSMState \<Rightarrow> MemTable list" where
  "lsm_tables s = mem_table s # map im_table (immutable_mem_tables s)"

end
