(* ===== verification/Sequence_Number.thy ===== *)
theory Sequence_Number
  imports Mvcc
begin

text \<open>
  \<open>core/sequence_number.rs\<close>: the atomic counter of sequence numbers.  The
  compare-and-exchange loop of \<open>try_allocate_range\<close> runs while other threads move the
  counter; \<open>observed\<close> lists the values the successive exchanges find there, and an
  exchange that is not interfered with succeeds.
\<close>

definition checked_add :: "u64 \<Rightarrow> u64 \<Rightarrow> u64 option" where
  "checked_add a b = (if a \<le> a + b then Some (a + b) else None)"

text \<open>\<open>fetch_add\<close> wraps and returns the old value.\<close>

definition seq_allocate_range :: "u64 \<Rightarrow> u64 \<Rightarrow> u64 \<times> u64" where
  "seq_allocate_range count counter = (counter, counter + count)"

definition seq_next :: "u64 \<Rightarrow> u64 \<times> u64" where
  "seq_next counter = (counter, counter + 1)"

text \<open>
  The loop.  The result is the start of the range and the new counter value, or
  \<open>None\<close> if the loop gave up and the counter was not written.
\<close>

fun try_allocate_loop :: "u64 list \<Rightarrow> u64 \<Rightarrow> u64 \<Rightarrow> u64 \<Rightarrow> (u64 \<times> u64) option" where
  "try_allocate_loop observed count max_inclusive current =
     (case checked_add current (count - 1) of
        None \<Rightarrow> None
      | Some last_seq \<Rightarrow>
          if max_inclusive < last_seq then None
          else case checked_add current count of
              None \<Rightarrow> None
            | Some next \<Rightarrow>
                (case observed of
                   [] \<Rightarrow> Some (current, next)
                 | seen # rest \<Rightarrow>
                     if seen = current then Some (current, next)
                     else try_allocate_loop rest count max_inclusive seen))"

definition try_allocate_range :: "u64 list \<Rightarrow> u64 \<Rightarrow> u64 \<Rightarrow> u64 \<Rightarrow> u64 option \<times> u64 option" where
  "try_allocate_range observed count max_inclusive loaded =
     (if count = 0 then (Some loaded, None)
      else case try_allocate_loop observed count max_inclusive loaded of
          None \<Rightarrow> (None, None)
        | Some (start, next) \<Rightarrow> (Some start, Some next))"

text \<open>One uncontended request on the counter, and a sequence of them.\<close>

definition alloc_request :: "u64 \<Rightarrow> u64 \<Rightarrow> u64 \<Rightarrow> (u64 \<times> u64) option \<times> u64" where
  "alloc_request max_inclusive count counter =
     (case try_allocate_range [] count max_inclusive counter of
        (Some start, Some next) \<Rightarrow> (Some (start, count), next)
      | _ \<Rightarrow> (None, counter))"

fun alloc_requests :: "u64 \<Rightarrow> u64 list \<Rightarrow> u64 \<Rightarrow> (u64 \<times> u64) list \<times> u64" where
  "alloc_requests max_inclusive [] counter = ([], counter)"
| "alloc_requests max_inclusive (n # ns) counter =
     (let (r, counter1) = alloc_request max_inclusive n counter;
          (rs, counter2) = alloc_requests max_inclusive ns counter1
      in ((case r of None \<Rightarrow> rs | Some x \<Rightarrow> x # rs), counter2))"

section \<open>What an allocation returns\<close>

lemma checked_add_Some:
  "checked_add a b = Some c \<longleftrightarrow> unat a + unat b < 2 ^ 64 \<and> c = a + b"
proof -
  have "a \<le> a + b \<longleftrightarrow> unat a + unat b < 2 ^ 64"
    using no_olen_add_nat [of a b] by simp
  then show ?thesis by (auto simp: checked_add_def)
qed

lemma unat_pred: "(n::u64) \<noteq> 0 \<Longrightarrow> unat (n - 1) = unat n - 1"
  by (simp add: unat_minus_one)

lemma try_allocate_loop_Some:
  assumes "try_allocate_loop observed count mx current = Some (start, next)" "count \<noteq> 0"
  shows "start \<in> set (current # observed) \<and> unat next = unat start + unat count \<and>
    unat start + unat count - 1 \<le> unat mx"
  using assms
proof (induction observed count mx current rule: try_allocate_loop.induct)
  case (1 observed count mx current)
  obtain e n where e: "checked_add current (count - 1) = Some e" "\<not> mx < e"
    and n: "checked_add current count = Some n"
    using "1.prems"(1) by (auto split: option.splits if_splits)
  show ?case
  proof (cases "observed = [] \<or> hd observed = current")
    case True
    then have "start = current" "next = n"
      using "1.prems"(1) e n by (auto split: list.splits)
    moreover have "unat e \<le> unat mx" using e(2) by (simp add: word_le_nat_alt linorder_not_less)
    ultimately show ?thesis
      using e(1) n "1.prems"(2) unat_pred [of count]
      by (auto simp: checked_add_Some unat_add_lem [symmetric] word_less_nat_alt
          unat_word_ariths(1))
  next
    case False
    then obtain seen rest where o: "observed = seen # rest" "seen \<noteq> current" by (cases observed) auto
    have "try_allocate_loop rest count mx seen = Some (start, next)"
      using "1.prems"(1) e n o by simp
    then show ?thesis using "1.IH" [OF e(1) e(2) n o] "1.prems"(2) o by auto
  qed
qed

text \<open>Without interference the loop runs once.\<close>

lemma alloc_request_Some:
  assumes "alloc_request mx n c = (Some (s, n'), c')"
  shows "s = c \<and> n' = n \<and> n \<noteq> 0 \<and> unat c' = unat c + unat n \<and> unat c + unat n - 1 \<le> unat mx"
proof -
  have n: "n \<noteq> 0" "n' = n" and loop: "try_allocate_loop [] n mx c = Some (s, c')"
    using assms by (auto simp: alloc_request_def try_allocate_range_def simp del: try_allocate_loop.simps
        split: if_splits option.splits)
  show ?thesis using try_allocate_loop_Some [OF loop n(1)] n by auto
qed

lemma alloc_request_None: "alloc_request mx n c = (None, c') \<Longrightarrow> c' = c"
  by (auto simp: alloc_request_def simp del: try_allocate_loop.simps split: option.splits prod.splits)

text \<open>
  (C17) Sequence ranges never overlap and leave no gap.  Whatever sizes are requested, the
  granted ranges, in the order they were granted, tile the interval from the old to the new
  counter value exactly, with no wrap-around, and none of them reaches beyond
  \<open>max_inclusive\<close>; a refused request leaves the counter alone.
\<close>

theorem allocated_ranges_tile:
  "case alloc_requests mx ns c of (rs, c') \<Rightarrow>
     concat (map (\<lambda>(s, n). [unat s..<unat s + unat n]) rs) = [unat c..<unat c'] \<and>
     unat c \<le> unat c' \<and>
     list_all (\<lambda>(s, n). 0 < unat n \<and> unat s + unat n - 1 \<le> unat mx) rs"
proof (induction ns arbitrary: c)
  case (Cons n ns)
  obtain r c1 where r: "alloc_request mx n c = (r, c1)" by fastforce
  obtain rs c2 where rs: "alloc_requests mx ns c1 = (rs, c2)" by fastforce
  note IH = Cons.IH [of c1, unfolded rs, simplified]
  show ?case
  proof (cases r)
    case None
    then show ?thesis using IH r rs alloc_request_None [of mx n c c1] by simp
  next
    case (Some x)
    obtain s n' where x: "x = (s, n')" by (cases x)
    have *: "s = c" "n' = n" "n \<noteq> 0" "unat c1 = unat c + unat n" "unat c + unat n - 1 \<le> unat mx"
      using alloc_request_Some r Some x by blast+
    have "[unat c..<unat c1] @ [unat c1..<unat c2] = [unat c..<unat c2]"
      using IH *(4) upt_add_eq_append [of "unat c" "unat c1" "unat c2 - unat c1"] by simp
    then show ?thesis using IH * by (simp add: r rs Some x unat_gt_0)
  qed
qed simp

text \<open>
  An allocation that raced with other threads is a clean one.  If the loop succeeds
  after any number of failed exchanges, the range starts at a value the counter really
  had when the exchange succeeded, does not wrap, respects the bound, and the counter
  ends right behind it.
\<close>

lemma contended_allocation_sound:
  assumes "try_allocate_range observed count mx loaded = (Some start, Some next)"
  shows "start \<in> set (loaded # observed) \<and> unat next = unat start + unat count \<and>
    unat start + unat count - 1 \<le> unat mx"
proof -
  have "count \<noteq> 0" and loop: "try_allocate_loop observed count mx loaded = Some (start, next)"
    using assms by (auto simp: try_allocate_range_def simp del: try_allocate_loop.simps
        split: if_splits option.splits)
  then show ?thesis by (intro try_allocate_loop_Some)
qed

end
