(* ===== verification/Kv_Writer.thy ===== *)
theory Kv_Writer
  imports Lsm_State Sequence_Number
begin

text \<open>
  \<open>core/kv_engine/writer.rs\<close>: the two-stage group commit.  Every call of \<open>submit_write\<close> is one
  thread; the first to find no leader runs the log stage for all queued requests, hands each
  group to the memtable stage, and the memtable leader applies it, publishes the sequence number
  and completes the requests.  A critical section of the state mutex is one atomic step and so is
  the body of \<open>apply_wal_group\<close> and of \<open>apply_mem_group\<close>, of which at most one runs at a time;
  everything else interleaves.  A thread that waits for a condition has no step until the
  condition holds.  The texts of errors that are passed on are not kept.
\<close>

section \<open>Requests and state\<close>

datatype WriteOp = PutOp bytes bytes | DeleteOp bytes

record MemApplyPayload =
  pl_records :: "entry list"
  pl_max_seq :: "u64 option"

record WriteRequest =
  rq_ops :: "WriteOp list"
  mem_payload :: "MemApplyPayload option"
  ops_len :: nat
  approx_bytes :: nat
  rq_result :: "unit result option"

fun op_bytes :: "WriteOp \<Rightarrow> nat" where
  "op_bytes (PutOp k v) = length k + length v + 20"
| "op_bytes (DeleteOp k) = length k + 20"

definition new_WriteRequest :: "WriteOp list \<Rightarrow> WriteRequest" where
  "new_WriteRequest ops = \<lparr> rq_ops = ops, mem_payload = None, ops_len = length ops,
     approx_bytes = fold (\<lambda>op n. sat_add64 n (op_bytes op)) ops 0, rq_result = None \<rparr>"

definition complete :: "unit result \<Rightarrow> WriteRequest \<Rightarrow> WriteRequest" where
  "complete r req = (if rq_result req \<noteq> None then req else req \<lparr> rq_result := Some r \<rparr>)"

definition complete_all :: "unit result \<Rightarrow> nat list \<Rightarrow> WriteRequest list \<Rightarrow> WriteRequest list" where
  "complete_all r ids = fold (\<lambda>i rs. rs[i := complete r (rs ! i)]) ids"

datatype CloseReason = Manual | Failed

datatype WritePressureAction = Allow | Slowdown u64 | Stop Error

datatype WritePressureLevel = NormalLevel | SlowdownLevel | StopLevel

record WriteState =
  wal_queue :: "nat list"
  mem_queue :: "nat list"
  wal_queue_reqs :: nat
  wal_queue_bytes :: nat
  mem_queue_reqs :: nat
  mem_queue_bytes :: nat
  wal_leader_active :: bool
  mem_leader_active :: bool
  wal_inflight_groups :: nat
  mem_inflight_groups :: nat
  flush_blocked :: bool
  closed_reason :: "CloseReason option"

definition new_WriteState :: WriteState where
  "new_WriteState = \<lparr> wal_queue = [], mem_queue = [], wal_queue_reqs = 0, wal_queue_bytes = 0, mem_queue_reqs = 0,
     mem_queue_bytes = 0, wal_leader_active = False, mem_leader_active = False, wal_inflight_groups = 0,
     mem_inflight_groups = 0, flush_blocked = False, closed_reason = None \<rparr>"

definition is_closed :: "WriteState \<Rightarrow> bool" where
  "is_closed s \<longleftrightarrow> closed_reason s \<noteq> None"

definition has_pending_work :: "WriteState \<Rightarrow> bool" where
  "has_pending_work s \<longleftrightarrow> wal_queue s \<noteq> [] \<or> mem_queue s \<noteq> [] \<or> 0 < wal_inflight_groups s \<or> 0 < mem_inflight_groups s"

fun close_reason_to_error :: "CloseReason \<Rightarrow> Error" where
  "close_reason_to_error Manual = Unavailable ''write_coordinator'' ''write coordinator closed''"
| "close_reason_to_error Failed = Internal ''write_coordinator'' ''''"

text \<open>A request is named by its index; \<open>kw_state\<close> is what the state mutex guards.\<close>

record KvWriter =
  kw_reqs :: "WriteRequest list"
  kw_wal :: WalWriterState
  kw_sequence :: u64
  kw_lsm :: LSMState
  kw_state :: WriteState
  last_published_seq :: u64
  flush_requested :: bool
  write_pressure_level :: WritePressureLevel

section \<open>Admission\<close>

definition wal_queue_backpressured :: "KvEngineOptions \<Rightarrow> WriteState \<Rightarrow> nat \<Rightarrow> bool" where
  "wal_queue_backpressured opts s incoming \<longleftrightarrow>
     (let max_reqs = max (max_wal_queue_reqs opts) 1; max_bytes = max (max_wal_queue_bytes opts) 1 in
      max_reqs \<le> wal_queue_reqs s \<or> 0 < wal_queue_reqs s \<and> max_bytes < sat_add64 (wal_queue_bytes s) incoming)"

definition mem_queue_backpressured :: "KvEngineOptions \<Rightarrow> WriteState \<Rightarrow> nat \<Rightarrow> bool" where
  "mem_queue_backpressured opts s incoming \<longleftrightarrow>
     (let max_reqs = max (max_mem_queue_reqs opts) 1; max_bytes = max (max_mem_queue_bytes opts) 1 in
      max_reqs \<le> mem_queue_reqs s \<or> 0 < mem_queue_reqs s \<and> max_bytes < sat_add64 (mem_queue_bytes s) incoming)"

definition flush_backpressure_error :: "KvEngineOptions \<Rightarrow> LSMState \<Rightarrow> Error option" where
  "flush_backpressure_error opts l =
     (if flush_circuit_open l then Some (Unavailable ''write_backpressure'' ''flush circuit open'')
      else if max (max_immutable_memtables opts) 1 \<le> length (immutable_mem_tables l)
      then Some (Unavailable ''write_backpressure'' ''immutable memtable backlog reached limit'')
      else None)"

definition sat_add :: "u64 \<Rightarrow> u64 \<Rightarrow> u64" where
  "sat_add a b = (if a \<le> a + b then a + b else - 1)"

definition sat_mul :: "u64 \<Rightarrow> u64 \<Rightarrow> u64" where
  "sat_mul a b = of_nat (min (2 ^ 64 - 1) (unat a * unat b))"

fun level_debt :: "Version \<Rightarrow> u64 \<Rightarrow> nat list \<Rightarrow> u64 \<Rightarrow> u64 \<Rightarrow> u64" where
  "level_debt v multiplier [] target pending = pending"
| "level_debt v multiplier (level # levels) target pending =
     (let level_size = get_level_size v level;
          pending = (if target < level_size then sat_add pending (level_size - target) else pending) in
      level_debt v multiplier levels (sat_mul target multiplier) pending)"

definition estimated_pending_compaction_bytes :: "KvEngineOptions \<Rightarrow> Version \<Rightarrow> u64" where
  "estimated_pending_compaction_bytes opts v =
     (if num_levels v \<le> 1 then 0
      else
        let base = max (compaction_max_bytes_for_level_base opts) 1;
            multiplier = max (compaction_max_bytes_for_level_multiplier opts) 2;
            pending = level_debt v multiplier [1..<num_levels v] base 0 in
        if max (l0_compaction_file_trigger opts) 1 < length (get_files v 0)
        then sat_add pending (get_level_size v 0) else pending)"

definition write_pressure_action :: "KvEngineOptions \<Rightarrow> LSMState \<Rightarrow> WritePressureLevel \<times> WritePressureAction" where
  "write_pressure_action opts l =
     (let l0_files = length (get_files (lsm_version l) 0);
          l0_slowdown = max (l0_slowdown_writes_trigger opts) 1;
          l0_stop = max (l0_stop_writes_trigger opts) l0_slowdown;
          pending_compaction_bytes = estimated_pending_compaction_bytes opts (lsm_version l);
          soft_limit = max (soft_pending_compaction_bytes_limit opts) 1;
          hard_limit = max (hard_pending_compaction_bytes_limit opts) soft_limit in
      if l0_stop \<le> l0_files
        then (StopLevel, Stop (Unavailable ''write_backpressure'' ''L0 file count reached stop trigger''))
      else if hard_limit \<le> pending_compaction_bytes
        then (StopLevel, Stop (Unavailable ''write_backpressure'' ''pending compaction bytes reached hard limit''))
      else if l0_slowdown \<le> l0_files \<or> soft_limit \<le> pending_compaction_bytes
        then (SlowdownLevel, Slowdown (max (write_slowdown_delay_ms opts) 1))
      else (NormalLevel, Allow))"

section \<open>Queues\<close>

definition push_wal :: "nat \<Rightarrow> WriteRequest \<Rightarrow> WriteState \<Rightarrow> WriteState" where
  "push_wal r req s = s \<lparr> wal_queue := wal_queue s @ [r], wal_queue_reqs := sat_add64 (wal_queue_reqs s) 1,
     wal_queue_bytes := sat_add64 (wal_queue_bytes s) (approx_bytes req) \<rparr>"

definition push_mem :: "nat \<Rightarrow> WriteRequest \<Rightarrow> WriteState \<Rightarrow> WriteState" where
  "push_mem r req s = s \<lparr> mem_queue := mem_queue s @ [r], mem_queue_reqs := sat_add64 (mem_queue_reqs s) 1,
     mem_queue_bytes := sat_add64 (mem_queue_bytes s) (approx_bytes req) \<rparr>"

text \<open>
  The loop that fills a group: a request is taken while the limits allow, and the first one always.
  The sums that are compared wrap; the running totals saturate.
\<close>

fun fill_group ::
    "WriteRequest list \<Rightarrow> nat \<Rightarrow> nat \<Rightarrow> bool \<Rightarrow> nat \<Rightarrow> nat \<Rightarrow> nat list \<Rightarrow> nat \<Rightarrow> nat \<Rightarrow> nat list \<times> nat list \<times> nat \<times> nat" where
  "fill_group rs max_ops max_bytes none ops_total bytes_total [] n b = ([], [], n, b)"
| "fill_group rs max_ops max_bytes none ops_total bytes_total (r # q) n b =
     (let req_ops = ops_len (rs ! r); req_bytes = approx_bytes (rs ! r) in
      if none \<or> (ops_total + req_ops) mod 2 ^ 64 \<le> max_ops \<and> (bytes_total + req_bytes) mod 2 ^ 64 \<le> max_bytes
      then (case fill_group rs max_ops max_bytes False (sat_add64 ops_total req_ops) (sat_add64 bytes_total req_bytes)
              q (n - 1) (b - req_bytes) of (g, rest) \<Rightarrow> (r # g, rest))
      else ([], r # q, n, b))"

text \<open>
  The result \<open>None\<close> is the micro-wait for company: the thread releases the lock, and calls again with
  \<open>waited\<close> set.  An empty group means that the leader role was given up.
\<close>

definition pop_next_wal_group ::
    "KvEngineOptions \<Rightarrow> WriteRequest list \<Rightarrow> bool \<Rightarrow> WriteState \<Rightarrow> nat list option \<times> WriteState" where
  "pop_next_wal_group opts rs waited s =
     (if wal_queue s = [] then (Some [], s \<lparr> wal_leader_active := False \<rparr>)
      else if \<not> waited \<and> 0 < wal_group_wait_us opts \<and> length (wal_queue s) = 1 then (None, s)
      else case fill_group rs (max (wal_max_group_ops opts) 1) (max (wal_max_group_bytes opts) 1) True 0 0
             (wal_queue s) (wal_queue_reqs s) (wal_queue_bytes s) of
        (grp, q, n, b) \<Rightarrow> (Some grp, s \<lparr> wal_queue := q, wal_queue_reqs := n, wal_queue_bytes := b,
           wal_inflight_groups := (if grp \<noteq> [] then sat_add64 (wal_inflight_groups s) 1 else wal_inflight_groups s) \<rparr>))"

definition pop_next_mem_group ::
    "KvEngineOptions \<Rightarrow> WriteRequest list \<Rightarrow> bool \<Rightarrow> WriteState \<Rightarrow> nat list option \<times> WriteState" where
  "pop_next_mem_group opts rs waited s =
     (if mem_queue s = [] then (Some [], s \<lparr> mem_leader_active := False \<rparr>)
      else if \<not> waited \<and> 0 < mem_group_wait_us opts \<and> length (mem_queue s) = 1 then (None, s)
      else case fill_group rs (max (mem_max_group_ops opts) 1) (max (mem_max_group_bytes opts) 1) True 0 0
             (mem_queue s) (mem_queue_reqs s) (mem_queue_bytes s) of
        (grp, q, n, b) \<Rightarrow> (Some grp, s \<lparr> mem_queue := q, mem_queue_reqs := n, mem_queue_bytes := b,
           mem_inflight_groups := (if grp \<noteq> [] then sat_add64 (mem_inflight_groups s) 1 else mem_inflight_groups s) \<rparr>))"

text \<open>
  \<open>enqueue_mem_group\<close> from the first request that is not queued yet up to the next point where the
  thread waits, runs the memtable loop itself, or is done; the requests left over come with it.
\<close>

datatype Enqueued = EnqClosed CloseReason | EnqLead | EnqWait | EnqDone bool

fun enqueue_mem_group ::
    "KvEngineOptions \<Rightarrow> WriteRequest list \<Rightarrow> nat list \<Rightarrow> WriteState \<Rightarrow> Enqueued \<times> nat list \<times> WriteState" where
  "enqueue_mem_group opts rs [] s =
     (if \<not> mem_leader_active s \<and> mem_queue s \<noteq> []
      then (EnqDone True, [], s \<lparr> mem_leader_active := True \<rparr>) else (EnqDone False, [], s))"
| "enqueue_mem_group opts rs (r # grp) s =
     (if closed_reason s = Some Failed then (EnqClosed Failed, r # grp, s)
      else if \<not> mem_queue_backpressured opts s (approx_bytes (rs ! r))
        then enqueue_mem_group opts rs grp (push_mem r (rs ! r) s)
      else if \<not> mem_leader_active s \<and> mem_queue s \<noteq> []
        then (EnqLead, r # grp, s \<lparr> mem_leader_active := True \<rparr>)
      else (EnqWait, r # grp, s))"

definition finish_wal_inflight_group :: "WriteState \<Rightarrow> WriteState" where
  "finish_wal_inflight_group s = s \<lparr> wal_inflight_groups := wal_inflight_groups s - 1 \<rparr>"

definition finish_mem_inflight_group :: "WriteState \<Rightarrow> WriteState" where
  "finish_mem_inflight_group s = s \<lparr> mem_inflight_groups := mem_inflight_groups s - 1 \<rparr>"

definition drain_all_queued :: "WriteState \<Rightarrow> nat list \<times> WriteState" where
  "drain_all_queued s = (wal_queue s @ mem_queue s, s \<lparr> wal_queue_reqs := 0, wal_queue_bytes := 0,
     mem_queue_reqs := 0, mem_queue_bytes := 0, wal_queue := [], mem_queue := [] \<rparr>)"

definition fail_fast :: "WriteRequest list \<Rightarrow> WriteState \<Rightarrow> WriteRequest list \<times> WriteState" where
  "fail_fast rs s =
     (if closed_reason s = Some Failed then (rs, s)
      else case drain_all_queued (s \<lparr> closed_reason := Some Failed, flush_blocked := False \<rparr>) of
        (pending, s) \<Rightarrow> (complete_all (Err (Internal ''write_group'' '''')) pending rs, s))"

definition close_writer :: "WriteState \<Rightarrow> WriteState" where
  "close_writer s = (if is_closed s then s else s \<lparr> closed_reason := Some Manual \<rparr>)"

section \<open>The two stages\<close>

fun stage_op :: "WriteOp \<Rightarrow> u64 \<Rightarrow> entry result" where
  "stage_op (PutOp k v) seq = and_then (new_InternalKey k seq Put) (\<lambda>ik. Ok (ik, v))"
| "stage_op (DeleteOp k) seq = and_then (new_InternalKey k seq Delete) (\<lambda>ik. Ok (ik, []))"

fun stage_ops :: "WriteOp list \<Rightarrow> u64 \<Rightarrow> u64 option \<Rightarrow> (entry list \<times> u64 option \<times> u64) result" where
  "stage_ops [] seq req_max_seq = Ok ([], req_max_seq, seq)"
| "stage_ops (op # ops) seq req_max_seq =
     and_then (stage_op op seq) (\<lambda>e.
       case checked_add seq 1 of
         None \<Rightarrow> Err (Unavailable ''sequence_number'' ''sequence overflow'')
       | Some seq' \<Rightarrow> and_then (stage_ops ops seq' (Some seq)) (\<lambda>(es, r). Ok (e # es, r)))"

definition set_mem_payload :: "nat \<Rightarrow> MemApplyPayload \<Rightarrow> WriteRequest list \<Rightarrow> WriteRequest list" where
  "set_mem_payload i p rs = rs[i := (rs ! i) \<lparr> mem_payload := Some p \<rparr>]"

fun stage_group :: "(nat \<times> WriteOp list) list \<Rightarrow> u64 \<Rightarrow> WriteRequest list \<Rightarrow> entry list list result \<times> WriteRequest list" where
  "stage_group [] seq rs = (Ok [], rs)"
| "stage_group ((i, ops) # grp) seq rs =
     (case stage_ops ops seq None of
        Inl e \<Rightarrow> (Err e, rs)
      | Inr (es, mx, seq') \<Rightarrow>
          (case stage_group grp seq' (set_mem_payload i \<lparr> pl_records = es, pl_max_seq = mx \<rparr> rs) of
             (Inl e, rs) \<Rightarrow> (Err e, rs)
           | (Inr batches, rs) \<Rightarrow> (Ok (es # batches), rs)))"

fun take_all_ops :: "nat list \<Rightarrow> WriteRequest list \<Rightarrow> WriteOp list list \<times> WriteRequest list" where
  "take_all_ops [] rs = ([], rs)"
| "take_all_ops (i # grp) rs =
     (case take_all_ops grp (rs[i := (rs ! i) \<lparr> rq_ops := [] \<rparr>]) of
        (opss, rs') \<Rightarrow> (rq_ops (rs ! i) # opss, rs'))"

definition apply_wal_group ::
    "KvEngineOptions \<Rightarrow> (bytes \<Rightarrow> u32) \<Rightarrow> wal_io \<Rightarrow> nat list \<Rightarrow> 'a KvWriter_scheme \<Rightarrow> unit result \<times> 'a KvWriter_scheme" where
  "apply_wal_group opts crc io grp w =
     (case take_all_ops grp (kw_reqs w) of (ops_groups, rs) \<Rightarrow>
        let total_ops = fold (\<lambda>ops n. sat_add64 n (length ops)) ops_groups 0; w = w \<lparr> kw_reqs := rs \<rparr> in
        if total_ops = 0
        then (Ok (), w \<lparr> kw_reqs := fold (\<lambda>i. set_mem_payload i \<lparr> pl_records = [], pl_max_seq = None \<rparr>) grp rs \<rparr>)
        else case try_allocate_range [] (of_nat total_ops) SEQUENCE_NUMBER_MAX (kw_sequence w) of
            (None, _) \<Rightarrow> (Err (Unavailable ''sequence_number'' ''sequence number exhausted''), w)
          | (Some seq, moved) \<Rightarrow>
              let w = w \<lparr> kw_sequence := (case moved of None \<Rightarrow> kw_sequence w | Some next \<Rightarrow> next) \<rparr> in
              (case stage_group (zip grp ops_groups) seq rs of
                 (Inl e, rs) \<Rightarrow> (Err e, w \<lparr> kw_reqs := rs \<rparr>)
               | (Inr wal_batches, rs) \<Rightarrow>
                   (case append_grouped_batches (wal_config opts) io crc wal_batches (kw_wal w) of
                      (res, wal) \<Rightarrow> (res, w \<lparr> kw_reqs := rs, kw_wal := wal \<rparr>))))"

fun max_seq :: "u64 option \<Rightarrow> u64 option \<Rightarrow> u64 option" where
  "max_seq cur None = cur"
| "max_seq None (Some s) = Some s"
| "max_seq (Some c) (Some s) = Some (max c s)"

text \<open>\<open>coins\<close> gives the tower heights; a skip list whose insertion does not end would be a panic.\<close>

fun apply_requests ::
    "(entry \<Rightarrow> nat \<Rightarrow> bool) \<Rightarrow> nat list \<Rightarrow> u64 option \<Rightarrow> WriteRequest list \<Rightarrow> MemTable
       \<Rightarrow> u64 option result \<times> WriteRequest list \<times> MemTable" where
  "apply_requests coins [] mx rs mt = (Ok mx, rs, mt)"
| "apply_requests coins (i # grp) mx rs mt =
     (case mem_payload (rs ! i) of
        None \<Rightarrow> (Err (Internal ''mem_group'' ''missing mem apply payload after WAL stage''), rs, mt)
      | Some p \<Rightarrow>
          let rs = rs[i := (rs ! i) \<lparr> mem_payload := None \<rparr>] in
          (case mt_puts (map (\<lambda>e. (coins e, e)) (pl_records p)) mt of
             None \<Rightarrow> (Err (Panic ''skip list''), rs, mt)
           | Some mt \<Rightarrow> apply_requests coins grp (max_seq mx (pl_max_seq p)) rs mt))"

definition apply_mem_group ::
    "(entry \<Rightarrow> nat \<Rightarrow> bool) \<Rightarrow> nat list \<Rightarrow> 'a KvWriter_scheme \<Rightarrow> (bool \<times> u64 option) result \<times> 'a KvWriter_scheme" where
  "apply_mem_group coins grp w =
     (case apply_requests coins grp None (kw_reqs w) (mem_table (kw_lsm w)) of
        (res, rs, mt) \<Rightarrow>
          (and_then res (\<lambda>mx. Ok (mt_should_flush mt, mx)),
           w \<lparr> kw_reqs := rs, kw_lsm := (kw_lsm w) \<lparr> mem_table := mt \<rparr> \<rparr>))"

text \<open>The compare-and-exchange loop of \<open>publish_sequence\<close> ends with the larger of the two values.\<close>

definition publish_sequence :: "u64 \<Rightarrow> 'a KvWriter_scheme \<Rightarrow> 'a KvWriter_scheme" where
  "publish_sequence seq w = (if last_published_seq w < seq then w \<lparr> last_published_seq := seq \<rparr> else w)"

section \<open>Threads\<close>

text \<open>
  Where a call of \<open>submit_write\<close> stands.  \<open>MemReturn\<close> says what follows the memtable loop: the log
  loop, the rest of \<open>enqueue_mem_group\<close>, or the wait for the result.
\<close>

datatype MemReturn = ToWalLoop | ToEnqueue "nat list" "nat list" | ToWait

datatype Call =
    Admit
  | WalLoop bool | WalApply "nat list" | WalEnqueue "nat list" "nat list" | WalEnqueued bool
  | WalErr "nat list" | WalErrComplete "nat list" | WalErrFail
  | MemLoop bool MemReturn | MemApply "nat list" MemReturn | MemPublish "nat list" bool "u64 option" MemReturn
  | MemComplete "nat list" bool MemReturn | MemFinish bool MemReturn
  | MemErr "nat list" MemReturn | MemErrComplete "nat list" MemReturn | MemErrFail MemReturn
  | Help | Await | Returned "unit result"

text \<open>Where a caller of \<open>enter_flush_barrier\<close> stands.\<close>

datatype Barrier = BarrierEnter | BarrierDrain | BarrierHeld | BarrierLeft

text \<open>
  The writer with its running calls and three records of the past that no step reads: the
  operations of every request, and the batches that the log and the memtable took, in order.
\<close>

record Running = KvWriter +
  calls :: "Call list"
  flush_calls :: nat
  barriers :: "Barrier list"
  submitted :: "WriteOp list list"
  logged :: "(nat \<times> entry list) list"
  applied :: "(nat \<times> entry list) list"

definition goto :: "nat \<Rightarrow> Call \<Rightarrow> Running \<Rightarrow> Running" where
  "goto i c w = w \<lparr> calls := (calls w)[i := c] \<rparr>"

fun resume :: "MemReturn \<Rightarrow> Call" where
  "resume ToWalLoop = WalLoop False"
| "resume (ToEnqueue grp rest) = WalEnqueue grp rest"
| "resume ToWait = Await"

definition submit_admit :: "KvEngineOptions \<Rightarrow> nat \<Rightarrow> Running \<Rightarrow> Running option" where
  "submit_admit opts i w =
     (let s = kw_state w; req = kw_reqs w ! i in
      case closed_reason s of
        Some reason \<Rightarrow> Some (goto i (Returned (Err (close_reason_to_error reason))) w)
      | None \<Rightarrow>
        (case flush_backpressure_error opts (kw_lsm w) of
           Some err \<Rightarrow> Some (goto i (Returned (Err err)) w)
         | None \<Rightarrow>
           if flush_blocked s \<or> wal_queue_backpressured opts s (approx_bytes req) then None
           else case write_pressure_action opts (kw_lsm w) of
               (level, Slowdown delay) \<Rightarrow> Some (w \<lparr> write_pressure_level := level \<rparr>)
             | (level, Stop err) \<Rightarrow> Some (goto i (Returned (Err err)) (w \<lparr> write_pressure_level := level \<rparr>))
             | (level, Allow) \<Rightarrow>
                 let s = push_wal i req s in
                 if wal_leader_active s
                 then Some (goto i Help (w \<lparr> write_pressure_level := level, kw_state := s \<rparr>))
                 else Some (goto i (WalLoop False)
                        (w \<lparr> write_pressure_level := level, kw_state := s \<lparr> wal_leader_active := True \<rparr> \<rparr>))))"

definition wal_pop_step :: "KvEngineOptions \<Rightarrow> nat \<Rightarrow> bool \<Rightarrow> Running \<Rightarrow> Running" where
  "wal_pop_step opts i waited w =
     (case pop_next_wal_group opts (kw_reqs w) waited (kw_state w) of
        (None, s) \<Rightarrow> goto i (WalLoop True) w
      | (Some grp, s) \<Rightarrow> goto i (if grp = [] then Help else WalApply grp) (w \<lparr> kw_state := s \<rparr>))"

definition wal_apply_step :: "KvEngineOptions \<Rightarrow> (bytes \<Rightarrow> u32) \<Rightarrow> wal_io \<Rightarrow> nat \<Rightarrow> nat list \<Rightarrow> Running \<Rightarrow> Running" where
  "wal_apply_step opts crc io i grp w =
     (case apply_wal_group opts crc io grp w of
        (Inl err, w) \<Rightarrow> goto i (WalErr grp) w
      | (Inr _, w) \<Rightarrow> goto i (WalEnqueue grp grp)
          (w \<lparr> logged := logged w @ map (\<lambda>r. (r, pl_records (the (mem_payload (kw_reqs w ! r))))) grp \<rparr>))"

definition wal_enqueue_step :: "KvEngineOptions \<Rightarrow> nat \<Rightarrow> nat list \<Rightarrow> nat list \<Rightarrow> Running \<Rightarrow> Running option" where
  "wal_enqueue_step opts i grp rest w =
     (case enqueue_mem_group opts (kw_reqs w) rest (kw_state w) of
        (EnqClosed _, _, s) \<Rightarrow> Some (goto i (WalErr grp) (w \<lparr> kw_state := s \<rparr>))
      | (EnqLead, rest', s) \<Rightarrow> Some (goto i (MemLoop False (ToEnqueue grp rest')) (w \<lparr> kw_state := s \<rparr>))
      | (EnqWait, rest', s) \<Rightarrow>
          if rest' = rest then None else Some (goto i (WalEnqueue grp rest') (w \<lparr> kw_state := s \<rparr>))
      | (EnqDone start, _, s) \<Rightarrow> Some (goto i (WalEnqueued start) (w \<lparr> kw_state := s \<rparr>)))"

definition mem_pop_step :: "KvEngineOptions \<Rightarrow> nat \<Rightarrow> bool \<Rightarrow> MemReturn \<Rightarrow> Running \<Rightarrow> Running" where
  "mem_pop_step opts i waited ret w =
     (case pop_next_mem_group opts (kw_reqs w) waited (kw_state w) of
        (None, s) \<Rightarrow> goto i (MemLoop True ret) w
      | (Some grp, s) \<Rightarrow> goto i (if grp = [] then resume ret else MemApply grp ret) (w \<lparr> kw_state := s \<rparr>))"

definition mem_apply_step :: "(entry \<Rightarrow> nat \<Rightarrow> bool) \<Rightarrow> nat \<Rightarrow> nat list \<Rightarrow> MemReturn \<Rightarrow> Running \<Rightarrow> Running" where
  "mem_apply_step coins i grp ret w =
     (let taken = map (\<lambda>r. (r, pl_records (the (mem_payload (kw_reqs w ! r))))) grp in
      case apply_mem_group coins grp w of
        (Inl err, w) \<Rightarrow> goto i (MemErr grp ret) w
      | (Inr (needs_flush, mx), w) \<Rightarrow>
          goto i (MemPublish grp needs_flush mx ret) (w \<lparr> applied := applied w @ taken \<rparr>))"

text \<open>\<open>run_mem_leader_loop_if_needed\<close>, and the wait at the end with the flush request it may consume.\<close>

definition help_step :: "nat \<Rightarrow> Running \<Rightarrow> Running" where
  "help_step i w =
     (let s = kw_state w in
      if mem_leader_active s \<or> mem_queue s = [] then goto i Await w
      else goto i (MemLoop False ToWait) (w \<lparr> kw_state := s \<lparr> mem_leader_active := True \<rparr> \<rparr>))"

definition await_step :: "nat \<Rightarrow> Running \<Rightarrow> Running option" where
  "await_step i w =
     (case rq_result (kw_reqs w ! i) of
        None \<Rightarrow> None
      | Some res \<Rightarrow>
          let w = w \<lparr> kw_reqs := (kw_reqs w)[i := (kw_reqs w ! i) \<lparr> rq_result := None \<rparr>] \<rparr> in
          if res = Ok () \<and> flush_requested w
          then Some (goto i (Returned res) (w \<lparr> flush_requested := False, flush_calls := flush_calls w + 1 \<rparr>))
          else Some (goto i (Returned res) w))"

definition fail_step :: "nat \<Rightarrow> Call \<Rightarrow> Running \<Rightarrow> Running" where
  "fail_step i next w =
     (case fail_fast (kw_reqs w) (kw_state w) of (rs, s) \<Rightarrow> goto i next (w \<lparr> kw_reqs := rs, kw_state := s \<rparr>))"

definition call_step ::
    "KvEngineOptions \<Rightarrow> (bytes \<Rightarrow> u32) \<Rightarrow> wal_io \<Rightarrow> (entry \<Rightarrow> nat \<Rightarrow> bool) \<Rightarrow> nat \<Rightarrow> Running \<Rightarrow> Running option" where
  "call_step opts crc io coins i w =
     (case calls w ! i of
        Admit \<Rightarrow> submit_admit opts i w
      | WalLoop waited \<Rightarrow> Some (wal_pop_step opts i waited w)
      | WalApply grp \<Rightarrow> Some (wal_apply_step opts crc io i grp w)
      | WalEnqueue grp rest \<Rightarrow> wal_enqueue_step opts i grp rest w
      | WalEnqueued start \<Rightarrow> Some (goto i (if start then MemLoop False ToWalLoop else WalLoop False)
          (w \<lparr> kw_state := finish_wal_inflight_group (kw_state w) \<rparr>))
      | WalErr grp \<Rightarrow> Some (goto i (WalErrComplete grp) (w \<lparr> kw_state := finish_wal_inflight_group (kw_state w) \<rparr>))
      | WalErrComplete grp \<Rightarrow> Some (goto i WalErrFail
          (w \<lparr> kw_reqs := complete_all (Err (Internal ''write_group'' '''')) grp (kw_reqs w) \<rparr>))
      | WalErrFail \<Rightarrow> Some (fail_step i Help w)
      | MemLoop waited ret \<Rightarrow> Some (mem_pop_step opts i waited ret w)
      | MemApply grp ret \<Rightarrow> Some (mem_apply_step coins i grp ret w)
      | MemPublish grp needs_flush mx ret \<Rightarrow> Some (goto i (MemComplete grp needs_flush ret)
          (case mx of None \<Rightarrow> w | Some seq \<Rightarrow> publish_sequence seq w))
      | MemComplete grp needs_flush ret \<Rightarrow> Some (goto i (MemFinish needs_flush ret)
          (w \<lparr> kw_reqs := complete_all (Ok ()) grp (kw_reqs w) \<rparr>))
      | MemFinish needs_flush ret \<Rightarrow> Some (goto i (MemLoop False ret)
          (w \<lparr> kw_state := finish_mem_inflight_group (kw_state w), flush_requested := flush_requested w \<or> needs_flush \<rparr>))
      | MemErr grp ret \<Rightarrow> Some (goto i (MemErrComplete grp ret) (w \<lparr> kw_state := finish_mem_inflight_group (kw_state w) \<rparr>))
      | MemErrComplete grp ret \<Rightarrow> Some (goto i (MemErrFail ret)
          (w \<lparr> kw_reqs := complete_all (Err (Internal ''write_group'' '''')) grp (kw_reqs w) \<rparr>))
      | MemErrFail ret \<Rightarrow> Some (fail_step i (resume ret) w)
      | Help \<Rightarrow> Some (help_step i w)
      | Await \<Rightarrow> await_step i w
      | Returned res \<Rightarrow> None)"

definition barrier_step :: "nat \<Rightarrow> Running \<Rightarrow> Running option" where
  "barrier_step j w =
     (let s = kw_state w in
      case barriers w ! j of
        BarrierEnter \<Rightarrow>
          if \<not> is_closed s \<and> flush_blocked s then None
          else Some (w \<lparr> kw_state := s \<lparr> flush_blocked := True \<rparr>,
                 barriers := (barriers w)[j := if has_pending_work s then BarrierDrain else BarrierHeld] \<rparr>)
      | BarrierDrain \<Rightarrow> if has_pending_work s then None else Some (w \<lparr> barriers := (barriers w)[j := BarrierHeld] \<rparr>)
      | BarrierHeld \<Rightarrow> Some (w \<lparr> kw_state := s \<lparr> flush_blocked := False \<rparr>, barriers := (barriers w)[j := BarrierLeft] \<rparr>)
      | BarrierLeft \<Rightarrow> None)"

text \<open>
  What can happen next.  Callers submit operations whose keys and values have 32-bit lengths, and
  all requests fit into the address space; the log file stays below its maximal size.  The flush
  worker and the readers may replace every part of the shared state but the memtable.
\<close>

fun op_fits :: "WriteOp \<Rightarrow> bool" where
  "op_fits (PutOp k v) \<longleftrightarrow> length k + 8 < 2 ^ 32 \<and> length v < 2 ^ 32"
| "op_fits (DeleteOp k) \<longleftrightarrow> length k + 8 < 2 ^ 32"

definition total_bytes :: "WriteRequest list \<Rightarrow> nat" where
  "total_bytes rs = sum_list (map approx_bytes rs)"

inductive wstep :: "KvEngineOptions \<Rightarrow> (bytes \<Rightarrow> u32) \<Rightarrow> Running \<Rightarrow> Running \<Rightarrow> bool" for opts crc where
  submit: "list_all op_fits ops \<Longrightarrow> total_bytes (kw_reqs w @ [new_WriteRequest ops]) < 2 ^ 64 \<Longrightarrow>
     length (kw_reqs w) + 1 < 2 ^ 64 \<Longrightarrow>
     wstep opts crc w (w \<lparr> kw_reqs := kw_reqs w @ [new_WriteRequest ops], calls := calls w @ [Admit],
       submitted := submitted w @ [ops] \<rparr>)"
| call: "i < length (calls w) \<Longrightarrow> call_step opts crc io coins i w = Some w' \<Longrightarrow>
     logical_size (kw_wal w') < 2 ^ 64 - 1 \<Longrightarrow> wstep opts crc w w'"
| enter: "wstep opts crc w (w \<lparr> barriers := barriers w @ [BarrierEnter] \<rparr>)"
| barrier: "j < length (barriers w) \<Longrightarrow> barrier_step j w = Some w' \<Longrightarrow> wstep opts crc w w'"
| close: "wstep opts crc w (w \<lparr> kw_state := close_writer (kw_state w) \<rparr>)"
| lsm: "mem_table l = mem_table (kw_lsm w) \<Longrightarrow> wstep opts crc w (w \<lparr> kw_lsm := l \<rparr>)"

definition start_writer :: "MemTable \<Rightarrow> Version \<Rightarrow> WalWriterState \<Rightarrow> u64 \<Rightarrow> u64 \<Rightarrow> Running" where
  "start_writer mt v wal seq published =
     \<lparr> kw_reqs = [], kw_wal = wal, kw_sequence = seq, kw_lsm = new_LSMState mt v, kw_state = new_WriteState,
       last_published_seq = published, flush_requested = False, write_pressure_level = NormalLevel,
       calls = [], flush_calls = 0, barriers = [], submitted = [], logged = [], applied = [] \<rparr>"

end
