(* ===== verification/Writer_Control.thy ===== *)
theory Writer_Control
  imports Kv_Writer
begin

text \<open>
  The control of the write path of \<open>Kv_Writer\<close> under every interleaving of its threads: each stage
  has at most one leader, and the requests that are admitted and not answered are exactly those
  that a queue or a leader holds, each once and in the order of admission.  The counters of the
  state agree with the queues and with the groups that are under way.
\<close>

section \<open>Leaders and the pipeline\<close>

text \<open>
  The requests that the leader of a stage holds: for the log stage those that are not in the
  memtable queue yet, for the memtable stage those that are not completed yet.
\<close>

fun ret_rest :: "MemReturn \<Rightarrow> nat list option" where
  "ret_rest ToWalLoop = Some []"
| "ret_rest (ToEnqueue grp rest) = Some rest"
| "ret_rest ToWait = None"

fun wal_held :: "Call \<Rightarrow> nat list option" where
  "wal_held (WalLoop _) = Some []"
| "wal_held (WalApply grp) = Some grp"
| "wal_held (WalEnqueue grp rest) = Some rest"
| "wal_held (WalEnqueued _) = Some []"
| "wal_held (WalErr grp) = Some grp"
| "wal_held (WalErrComplete grp) = Some grp"
| "wal_held WalErrFail = Some []"
| "wal_held (MemLoop _ ret) = ret_rest ret"
| "wal_held (MemApply _ ret) = ret_rest ret"
| "wal_held (MemPublish _ _ _ ret) = ret_rest ret"
| "wal_held (MemComplete _ _ ret) = ret_rest ret"
| "wal_held (MemFinish _ ret) = ret_rest ret"
| "wal_held _ = None"

fun mem_held :: "Call \<Rightarrow> nat list option" where
  "mem_held (WalEnqueued True) = Some []"
| "mem_held (MemLoop _ ret) = Some []"
| "mem_held (MemApply grp ret) = Some grp"
| "mem_held (MemPublish grp _ _ ret) = Some grp"
| "mem_held (MemComplete grp _ ret) = Some grp"
| "mem_held (MemFinish _ ret) = Some []"
| "mem_held _ = None"

fun mem_failing :: "Call \<Rightarrow> bool" where
  "mem_failing (MemErr _ _) \<longleftrightarrow> True"
| "mem_failing (MemErrComplete _ _) \<longleftrightarrow> True"
| "mem_failing (MemErrFail _) \<longleftrightarrow> True"
| "mem_failing _ \<longleftrightarrow> False"

fun admitted :: "Call \<Rightarrow> bool" where
  "admitted Admit \<longleftrightarrow> False"
| "admitted (Returned _) \<longleftrightarrow> False"
| "admitted _ \<longleftrightarrow> True"

definition leads :: "(Call \<Rightarrow> nat list option) \<Rightarrow> nat option \<Rightarrow> Call list \<Rightarrow> bool" where
  "leads f l cs \<longleftrightarrow> (\<forall>i. l = Some i \<longrightarrow> i < length cs) \<and> (\<forall>j<length cs. f (cs ! j) \<noteq> None \<longleftrightarrow> l = Some j)"

definition held :: "(Call \<Rightarrow> nat list option) \<Rightarrow> nat option \<Rightarrow> Call list \<Rightarrow> nat list" where
  "held f l cs = (case l of None \<Rightarrow> [] | Some i \<Rightarrow> the (f (cs ! i)))"

text \<open>All requests that are under way, the oldest first.\<close>

definition pipe :: "nat option \<Rightarrow> nat option \<Rightarrow> Call list \<Rightarrow> WriteState \<Rightarrow> nat list" where
  "pipe wl ml cs s = held mem_held ml cs @ mem_queue s @ held wal_held wl cs @ wal_queue s"

definition flags_ok :: "nat option \<Rightarrow> nat option \<Rightarrow> WriteState \<Rightarrow> bool" where
  "flags_ok wl ml s \<longleftrightarrow> (wl \<noteq> None \<longrightarrow> wal_leader_active s) \<and>
     (wal_leader_active s \<longrightarrow> wl \<noteq> None \<or> closed_reason s = Some Failed) \<and> (mem_leader_active s \<longleftrightarrow> ml \<noteq> None) \<and>
     (closed_reason s = Some Failed \<longrightarrow> wl = None \<and> wal_queue s = [] \<and> mem_queue s = []) \<and>
     (wal_queue s \<noteq> [] \<longrightarrow> wl \<noteq> None) \<and> (mem_queue s \<noteq> [] \<longrightarrow> ml \<noteq> None)"

definition under_way :: "Call list \<Rightarrow> WriteRequest list \<Rightarrow> nat set" where
  "under_way cs rs = {j. j < length cs \<and> admitted (cs ! j) \<and> rq_result (rs ! j) = None}"

definition ctl_inv :: "nat option \<Rightarrow> nat option \<Rightarrow> Running \<Rightarrow> bool" where
  "ctl_inv wl ml w \<longleftrightarrow> length (calls w) = length (kw_reqs w) \<and> leads wal_held wl (calls w) \<and> leads mem_held ml (calls w) \<and>
     list_all (\<lambda>c. \<not> mem_failing c) (calls w) \<and> flags_ok wl ml (kw_state w) \<and>
     distinct (pipe wl ml (calls w) (kw_state w)) \<and>
     set (pipe wl ml (calls w) (kw_state w)) = under_way (calls w) (kw_reqs w)"

lemma leads_update:
  assumes "leads f l cs" "i < length cs" "f c \<noteq> None \<longrightarrow> l = None \<or> l = Some i"
    "l' = (if f c \<noteq> None then Some i else if l = Some i then None else l)"
  shows "leads f l' (cs[i := c])"
  using assms by (auto simp: leads_def nth_list_update split: if_splits)

lemma leads_same:
  assumes "leads f l cs" "i < length cs" "f c \<noteq> None \<longleftrightarrow> f (cs ! i) \<noteq> None"
  shows "leads f l (cs[i := c])"
  using assms by (auto simp: leads_def nth_list_update split: if_splits)

lemma held_update: "i < length cs \<Longrightarrow> held f l (cs[i := c]) = (if l = Some i then the (f c) else held f l cs)"
  by (auto simp: held_def nth_list_update split: option.splits)

lemma leads_here: "leads f l cs \<Longrightarrow> i < length cs \<Longrightarrow> f (cs ! i) = Some g \<Longrightarrow> l = Some i \<and> held f l cs = g"
  by (auto simp: leads_def held_def)

lemma leads_not_here: "leads f l cs \<Longrightarrow> i < length cs \<Longrightarrow> f (cs ! i) = None \<Longrightarrow> l \<noteq> Some i"
  by (auto simp: leads_def)

text \<open>The steps that move requests along the pipeline keep their order.\<close>

lemma ctl_frame:
  assumes inv: "ctl_inv wl ml w" and i: "i < length (calls w)"
    and w': "calls w' = (calls w)[i := c]" "map rq_result (kw_reqs w') = map rq_result (kw_reqs w)"
    and c: "admitted c" "admitted (calls w ! i)" "\<not> mem_failing c"
    and l: "leads wal_held wl' ((calls w)[i := c])" "leads mem_held ml' ((calls w)[i := c])"
    and s: "flags_ok wl' ml' (kw_state w')" "pipe wl' ml' ((calls w)[i := c]) (kw_state w') = pipe wl ml (calls w) (kw_state w)"
  shows "ctl_inv wl' ml' w'"
proof -
  have len: "length (kw_reqs w') = length (kw_reqs w)" using w'(2) by (metis length_map)
  then have "\<forall>j<length (kw_reqs w). rq_result (kw_reqs w' ! j) = rq_result (kw_reqs w ! j)"
    using w'(2) by (metis nth_map)
  then have "under_way (calls w') (kw_reqs w') = under_way (calls w) (kw_reqs w)"
    using inv i w' c by (auto simp: under_way_def ctl_inv_def nth_list_update)
  moreover have "list_all (\<lambda>c. \<not> mem_failing c) (calls w')"
    using inv c by (auto simp: ctl_inv_def w' list_all_iff dest!: set_update_subset_insert [THEN subsetD])
  ultimately show ?thesis using inv l s w' len by (simp add: ctl_inv_def)
qed

lemma leads_unique: "leads f l cs \<Longrightarrow> leads f l' cs \<Longrightarrow> l = l'"
  by (auto simp: leads_def) (metis not_None_eq)

lemma ctl_inv_unique: "ctl_inv wl ml w \<Longrightarrow> ctl_inv wl' ml' w \<Longrightarrow> wl' = wl \<and> ml' = ml"
  by (auto simp: ctl_inv_def dest: leads_unique)

lemma fill_group_split:
  "fill_group rs mo mb none ot bt q n b = (g, q', n', b') \<Longrightarrow>
   q = g @ q' \<and> (none \<and> q \<noteq> [] \<longrightarrow> g \<noteq> []) \<and> n' = n - length g \<and> b' = b - sum_list (map (\<lambda>r. approx_bytes (rs ! r)) g)"
  by (induction rs mo mb none ot bt q n b arbitrary: g q' n' b' rule: fill_group.induct)
    (auto simp: Let_def split: if_splits prod.splits)

lemma complete_all_simps [simp]:
  "complete_all r [] rs = rs"
  "complete_all r (i # ids) rs = complete_all r ids (rs[i := complete r (rs ! i)])"
  by (simp_all add: complete_all_def)

lemma complete_keeps [simp]:
  "rq_ops (complete r q) = rq_ops q" "mem_payload (complete r q) = mem_payload q"
  "ops_len (complete r q) = ops_len q" "approx_bytes (complete r q) = approx_bytes q"
  by (simp_all add: complete_def)

lemma map_update_keep: "f y = f (rs ! i) \<Longrightarrow> map f (rs[i := y]) = map f rs"
  by (cases "i < length rs") (simp_all add: map_update list_update_same_conv list_update_beyond)

lemma complete_all_keeps:
  assumes "\<And>q. f (complete r q) = f q"
  shows "map f (complete_all r ids rs) = map f rs"
proof (induction ids arbitrary: rs)
  case (Cons i ids)
  show ?case using Cons [of "rs[i := complete r (rs ! i)]"] by (simp add: map_update_keep assms)
qed simp

lemma length_complete_all [simp]: "length (complete_all r ids rs) = length rs"
  by (induction ids arbitrary: rs) simp_all

lemma complete_all_result:
  "j < length rs \<Longrightarrow> rq_result (complete_all r ids rs ! j) =
     (if j \<in> set ids \<and> rq_result (rs ! j) = None then Some r else rq_result (rs ! j))"
proof (induction ids arbitrary: rs)
  case (Cons i ids)
  then show ?case by (cases "i = j") (auto simp: complete_def)
qed simp

fun enq_post ::
    "KvEngineOptions \<Rightarrow> WriteRequest list \<Rightarrow> CloseReason option \<Rightarrow> bool \<Rightarrow> nat list \<Rightarrow> nat list \<Rightarrow> bool \<Rightarrow> WriteState \<Rightarrow> Enqueued \<Rightarrow> bool" where
  "enq_post opts rs cr lead q rest l s (EnqClosed r) \<longleftrightarrow> cr = Some Failed \<and> l = lead"
| "enq_post opts rs cr lead q rest l s EnqLead \<longleftrightarrow> \<not> lead \<and> l \<and> q \<noteq> [] \<and> rest \<noteq> []"
| "enq_post opts rs cr lead q rest l s EnqWait \<longleftrightarrow> l = lead \<and> (l \<or> q = []) \<and> rest \<noteq> [] \<and>
     mem_queue_backpressured opts s (approx_bytes (rs ! hd rest))"
| "enq_post opts rs cr lead q rest l s (EnqDone start) \<longleftrightarrow> rest = [] \<and> l = (lead \<or> start) \<and>
     (if start then \<not> lead \<and> q \<noteq> [] else l \<or> q = [])"

lemma enqueue_mem_group_split:
  "enqueue_mem_group opts rs rest s = (res, rest', s') \<Longrightarrow>
   \<exists>pushed n b l. rest = pushed @ rest' \<and>
     s' = s \<lparr> mem_queue := mem_queue s @ pushed, mem_queue_reqs := n, mem_queue_bytes := b, mem_leader_active := l \<rparr> \<and>
     enq_post opts rs (closed_reason s) (mem_leader_active s) (mem_queue s @ pushed) rest' l s' res"
proof (induction rest arbitrary: s)
  case Nil
  then show ?case
    by (rule_tac exI [of _ "[]"], rule_tac exI [of _ "mem_queue_reqs s"], rule_tac exI [of _ "mem_queue_bytes s"],
        rule_tac exI [of _ "mem_leader_active s'"]) (auto split: if_splits)
next
  case (Cons r grp)
  show ?case
  proof (cases "closed_reason s \<noteq> Some Failed \<and> \<not> mem_queue_backpressured opts s (approx_bytes (rs ! r))")
    case True
    with Cons.prems have "enqueue_mem_group opts rs grp (push_mem r (rs ! r) s) = (res, rest', s')" by simp
    from Cons.IH [OF this] obtain pushed n b l where "grp = pushed @ rest'"
        "s' = (push_mem r (rs ! r) s) \<lparr> mem_queue := mem_queue s @ [r] @ pushed, mem_queue_reqs := n, mem_queue_bytes := b, mem_leader_active := l \<rparr>"
        "enq_post opts rs (closed_reason s) (mem_leader_active s) (mem_queue s @ [r] @ pushed) rest' l s' res"
      by (auto simp: push_mem_def)
    then show ?thesis by (intro exI [of _ "r # pushed"] exI [of _ n] exI [of _ b] exI [of _ l]) (simp add: push_mem_def)
  next
    case False
    with Cons.prems show ?thesis
      by (rule_tac exI [of _ "[]"], rule_tac exI [of _ "mem_queue_reqs s"], rule_tac exI [of _ "mem_queue_bytes s"],
          rule_tac exI [of _ "mem_leader_active s'"]) (auto split: if_splits)
  qed
qed

section \<open>Every step keeps the leaders and the pipeline\<close>

lemma ctl_invD:
  assumes "ctl_inv wl ml w"
  shows "length (calls w) = length (kw_reqs w)" "leads wal_held wl (calls w)" "leads mem_held ml (calls w)"
    "flags_ok wl ml (kw_state w)" "distinct (pipe wl ml (calls w) (kw_state w))"
    "set (pipe wl ml (calls w) (kw_state w)) = under_way (calls w) (kw_reqs w)"
  using assms by (simp_all add: ctl_inv_def)

lemma goto_simps [simp]:
  "calls (goto i c w) = (calls w)[i := c]" "kw_reqs (goto i c w) = kw_reqs w" "kw_state (goto i c w) = kw_state w"
  "kw_wal (goto i c w) = kw_wal w" "kw_sequence (goto i c w) = kw_sequence w" "kw_lsm (goto i c w) = kw_lsm w"
  "last_published_seq (goto i c w) = last_published_seq w" "flush_requested (goto i c w) = flush_requested w"
  "barriers (goto i c w) = barriers w" "submitted (goto i c w) = submitted w" "logged (goto i c w) = logged w"
  "applied (goto i c w) = applied w"
  by (simp_all add: goto_def)

lemma pop_wal_split:
  assumes "pop_next_wal_group opts rs waited s = (g, s')"
  shows "(g = Some [] \<and> wal_queue s = [] \<and> s' = s \<lparr> wal_leader_active := False \<rparr>) \<or> (g = None \<and> s' = s \<and> wal_queue s \<noteq> []) \<or>
     (\<exists>grp q. g = Some grp \<and> grp \<noteq> [] \<and> wal_queue s = grp @ q \<and>
        s' = s \<lparr> wal_queue := q, wal_queue_reqs := wal_queue_reqs s - length grp,
          wal_queue_bytes := wal_queue_bytes s - sum_list (map (\<lambda>r. approx_bytes (rs ! r)) grp),
          wal_inflight_groups := sat_add64 (wal_inflight_groups s) 1 \<rparr>)"
  using assms by (auto simp: pop_next_wal_group_def split: if_splits prod.splits dest!: fill_group_split)

lemma pop_mem_split:
  assumes "pop_next_mem_group opts rs waited s = (g, s')"
  shows "(g = Some [] \<and> mem_queue s = [] \<and> s' = s \<lparr> mem_leader_active := False \<rparr>) \<or> (g = None \<and> s' = s \<and> mem_queue s \<noteq> []) \<or>
     (\<exists>grp q. g = Some grp \<and> grp \<noteq> [] \<and> mem_queue s = grp @ q \<and>
        s' = s \<lparr> mem_queue := q, mem_queue_reqs := mem_queue_reqs s - length grp,
          mem_queue_bytes := mem_queue_bytes s - sum_list (map (\<lambda>r. approx_bytes (rs ! r)) grp),
          mem_inflight_groups := sat_add64 (mem_inflight_groups s) 1 \<rparr>)"
  using assms by (auto simp: pop_next_mem_group_def split: if_splits prod.splits dest!: fill_group_split)

text \<open>A step of call \<open>i\<close> that leaves the results alone and moves at most the ends of the queues.\<close>

lemma ctl_move:
  assumes inv: "ctl_inv wl ml w" and i: "i < length (calls w)" "admitted (calls w ! i)"
    and c: "admitted c" "\<not> mem_failing c"
    and w': "calls w' = (calls w)[i := c]" "map rq_result (kw_reqs w') = map rq_result (kw_reqs w)"
    and wl': "wl' = (if wal_held c \<noteq> None then Some i else if wl = Some i then None else wl)" "wal_held c \<noteq> None \<longrightarrow> wl = None \<or> wl = Some i"
    and ml': "ml' = (if mem_held c \<noteq> None then Some i else if ml = Some i then None else ml)" "mem_held c \<noteq> None \<longrightarrow> ml = None \<or> ml = Some i"
    and s: "flags_ok wl' ml' (kw_state w')"
      "(if wl' = Some i then the (wal_held c) else held wal_held wl' (calls w)) @ wal_queue (kw_state w') = a"
      "(if ml' = Some i then the (mem_held c) else held mem_held ml' (calls w)) @ mem_queue (kw_state w') @ a =
        pipe wl ml (calls w) (kw_state w)"
  shows "ctl_inv wl' ml' w'"
proof (rule ctl_frame [OF inv i(1) w' c(1) i(2) c(2)])
  note d = ctl_invD [OF inv]
  show l: "leads wal_held wl' ((calls w)[i := c])" "leads mem_held ml' ((calls w)[i := c])"
    using leads_update [OF d(2) i(1) wl'(2,1)] leads_update [OF d(3) i(1) ml'(2,1)] .
  show "pipe wl' ml' ((calls w)[i := c]) (kw_state w') = pipe wl ml (calls w) (kw_state w)"
    using s(2,3) i(1) by (simp add: pipe_def held_update)
qed (rule s(1))

lemma ctl_wal_pop:
  assumes inv: "ctl_inv wl ml w" and i: "i < length (calls w)" "calls w ! i = WalLoop waited"
  shows "\<exists>wl'. ctl_inv wl' ml (wal_pop_step opts i waited w)"
proof -
  note d = ctl_invD [OF inv]
  have wl: "wl = Some i" "held wal_held wl (calls w) = []" using leads_here [OF d(2) i(1)] i(2) by auto
  have ml: "ml \<noteq> Some i" using leads_not_here [OF d(3) i(1)] i(2) by simp
  have fl: "wal_leader_active (kw_state w)" "closed_reason (kw_state w) \<noteq> Some Failed" using d(4) wl by (auto simp: flags_ok_def)
  obtain g s where p: "pop_next_wal_group opts (kw_reqs w) waited (kw_state w) = (g, s)" by fastforce
  let ?c = "case g of None \<Rightarrow> WalLoop True | Some grp \<Rightarrow> if grp = [] then Help else WalApply grp"
  have step: "wal_pop_step opts i waited w = goto i ?c (w \<lparr> kw_state := s \<rparr>)"
    using p pop_wal_split [OF p] by (auto simp: wal_pop_step_def)
  have "ctl_inv (if wal_held ?c \<noteq> None then Some i else None) ml (wal_pop_step opts i waited w)"
    unfolding step
    by (rule ctl_move [OF inv i(1), where c = ?c])
      (use pop_wal_split [OF p] i wl ml d(4) fl in
        \<open>auto simp: flags_ok_def pipe_def held_def [of _ None] split: option.splits\<close>)
  then show ?thesis ..
qed

lemma mem_leader_elsewhere:
  assumes inv: "ctl_inv wl ml w" and i: "i < length (calls w)" "wal_held (calls w ! i) = h"
  shows "wl = Some i \<longleftrightarrow> h \<noteq> None" "wl = Some i \<Longrightarrow> held wal_held wl (calls w) = the h"
  using ctl_invD(2) [OF inv] i by (auto simp: leads_def held_def)

lemma ctl_mem_pop:
  assumes inv: "ctl_inv wl ml w" and i: "i < length (calls w)" "calls w ! i = MemLoop waited ret"
  shows "\<exists>ml'. ctl_inv wl ml' (mem_pop_step opts i waited ret w)"
proof -
  note d = ctl_invD [OF inv]
  have ml: "ml = Some i" "held mem_held ml (calls w) = []" using leads_here [OF d(3) i(1)] i(2) by auto
  have wl: "wl = Some i \<longleftrightarrow> ret_rest ret \<noteq> None" "wl = Some i \<Longrightarrow> held wal_held wl (calls w) = the (ret_rest ret)"
    using mem_leader_elsewhere [OF inv i(1)] i(2) by simp_all
  have c: "wal_held (resume ret) = ret_rest ret" "mem_held (resume ret) = None" "admitted (resume ret)" "\<not> mem_failing (resume ret)"
    by (cases ret; simp)+
  obtain g s where p: "pop_next_mem_group opts (kw_reqs w) waited (kw_state w) = (g, s)" by fastforce
  note fl = d(4) [unfolded flags_ok_def]
  from pop_mem_split [OF p] show ?thesis
  proof (elim disjE exE conjE)
    assume g: "g = Some []" and q: "mem_queue (kw_state w) = []" and s: "s = kw_state w \<lparr> mem_leader_active := False \<rparr>"
    have "ctl_inv wl None (mem_pop_step opts i waited ret w)"
      by (rule ctl_move [OF inv i(1), where c = "resume ret"])
        (use p g s q i ml wl c fl in \<open>simp_all add: mem_pop_step_def flags_ok_def pipe_def held_def [of _ None]\<close>)
    then show ?thesis ..
  next
    assume g: "g = None" and s: "s = kw_state w"
    have "ctl_inv wl ml (mem_pop_step opts i waited ret w)"
      by (rule ctl_move [OF inv i(1), where c = "MemLoop True ret"])
        (use p g s i ml wl fl in \<open>simp_all add: mem_pop_step_def flags_ok_def pipe_def\<close>)
    then show ?thesis ..
  next
    fix grp q
    assume g: "g = Some grp" "grp \<noteq> []" and q: "mem_queue (kw_state w) = grp @ q"
      and s: "s = kw_state w \<lparr> mem_queue := q, mem_queue_reqs := mem_queue_reqs (kw_state w) - length grp,
          mem_queue_bytes := mem_queue_bytes (kw_state w) - sum_list (map (\<lambda>r. approx_bytes (kw_reqs w ! r)) grp),
          mem_inflight_groups := sat_add64 (mem_inflight_groups (kw_state w)) 1 \<rparr>"
    have "ctl_inv wl ml (mem_pop_step opts i waited ret w)"
      by (rule ctl_move [OF inv i(1), where c = "MemApply grp ret"])
        (use p g s q i ml wl fl in \<open>simp_all add: mem_pop_step_def flags_ok_def pipe_def, blast?\<close>)
    then show ?thesis ..
  qed
qed

lemma ctl_enqueue:
  assumes inv: "ctl_inv wl ml w" and i: "i < length (calls w)" "calls w ! i = WalEnqueue grp rest"
    and step: "wal_enqueue_step opts i grp rest w = Some w'"
  shows "\<exists>ml'. ctl_inv wl ml' w'"
proof -
  note d = ctl_invD [OF inv]
  have wl: "wl = Some i" "held wal_held wl (calls w) = rest" using leads_here [OF d(2) i(1)] i(2) by auto
  have ml: "ml \<noteq> Some i" using leads_not_here [OF d(3) i(1)] i(2) by simp
  have open_: "closed_reason (kw_state w) \<noteq> Some Failed" using d(4) wl by (auto simp: flags_ok_def)
  obtain res rest' s where e: "enqueue_mem_group opts (kw_reqs w) rest (kw_state w) = (res, rest', s)" by (metis prod_cases3)
  obtain pushed n b l where p: "rest = pushed @ rest'"
      "s = kw_state w \<lparr> mem_queue := mem_queue (kw_state w) @ pushed, mem_queue_reqs := n, mem_queue_bytes := b,
         mem_leader_active := l \<rparr>"
      and res: "enq_post opts (kw_reqs w) (closed_reason (kw_state w)) (mem_leader_active (kw_state w))
        (mem_queue (kw_state w) @ pushed) rest' l s res"
    using enqueue_mem_group_split [OF e] by blast
  let ?c = "case res of EnqLead \<Rightarrow> MemLoop False (ToEnqueue grp rest') | EnqWait \<Rightarrow> WalEnqueue grp rest' | EnqDone start \<Rightarrow> WalEnqueued start"
  let ?ml = "if mem_held ?c = None then ml else Some i"
  have w': "w' = goto i ?c (w \<lparr> kw_state := s \<rparr>)" "\<not> (\<exists>r. res = EnqClosed r)"
    using step e res open_ by (auto simp: wal_enqueue_step_def split: Enqueued.splits if_splits)
  have lead: "mem_held ?c \<noteq> None \<Longrightarrow> ml = None \<and> mem_held ?c = Some []"
    using res d(4) w'(2) by (cases res) (auto simp: flags_ok_def elim!: mem_held.elims split: if_splits)
  have c: "wal_held ?c = Some rest'" "admitted ?c" "\<not> mem_failing ?c" using res w'(2) by (cases res; auto)+
  have l: "if mem_held ?c = None then l = mem_leader_active (kw_state w) else l" "mem_queue (kw_state w) @ pushed \<noteq> [] \<longrightarrow> l"
    using res w'(2) by (cases res; auto elim!: mem_held.elims split: if_splits)+
  have "ctl_inv wl ?ml w'"
    unfolding w'(1)
  proof (rule ctl_frame [OF inv i(1)])
    show "leads wal_held wl ((calls w)[i := ?c])" using leads_same [OF d(2) i(1), of ?c] c(1) i(2) by simp
    show "leads mem_held ?ml ((calls w)[i := ?c])"
      using lead ml by (intro leads_update [OF d(3) i(1)]) auto
    show "flags_ok wl ?ml (kw_state (goto i ?c (w \<lparr> kw_state := s \<rparr>)))"
      using d(4) l lead wl(1) open_ by (auto simp: flags_ok_def p)
    show "pipe wl ?ml ((calls w)[i := ?c]) (kw_state (goto i ?c (w \<lparr> kw_state := s \<rparr>))) = pipe wl ml (calls w) (kw_state w)"
      using lead wl ml c(1) held_update [OF i(1), of _ _ ?c] held_update [OF i(1), of _ _ ?c] i(1)
      by (auto simp: pipe_def p held_def)
  qed (use c i in simp_all)
  then show ?thesis ..
qed

lemma map_rq_result_payload [simp]: "map rq_result (set_mem_payload i p rs) = map rq_result rs"
  by (simp add: set_mem_payload_def map_update_keep)

lemma take_all_ops_keeps:
  assumes "\<And>q. f (q \<lparr> rq_ops := [] \<rparr>) = f q"
  shows "map f (snd (take_all_ops ids rs)) = map f rs"
proof (induction ids arbitrary: rs)
  case (Cons i ids)
  show ?case using Cons [of "rs[i := (rs ! i) \<lparr> rq_ops := [] \<rparr>]"] by (auto simp: map_update_keep assms split: prod.splits)
qed simp

lemma stage_group_keeps:
  assumes "\<And>q p. f (q \<lparr> mem_payload := Some p \<rparr>) = f q"
  shows "map f (snd (stage_group grp seq rs)) = map f rs"
proof (induction grp seq rs rule: stage_group.induct)
  case (2 i ops grp seq rs)
  then show ?case
    by (auto simp: set_mem_payload_def map_update_keep assms split: sum.splits prod.splits) (metis snd_conv)+
qed simp

lemma fold_set_mem_payload_keeps:
  assumes "\<And>q p. f (q \<lparr> mem_payload := Some p \<rparr>) = f q"
  shows "map f (fold (\<lambda>i. set_mem_payload i p) ids rs) = map f rs"
  by (induction ids arbitrary: rs) (simp_all add: set_mem_payload_def map_update_keep assms)

lemma apply_wal_group_keeps:
  assumes "\<And>q. f (q \<lparr> rq_ops := [] \<rparr>) = f q" "\<And>q p. f (q \<lparr> mem_payload := Some p \<rparr>) = f q"
  shows "map f (kw_reqs (snd (apply_wal_group opts crc io grp w))) = map f (kw_reqs w)"
  using take_all_ops_keeps [of f, OF assms(1), of grp "kw_reqs w"] stage_group_keeps [of f, OF assms(2)]
    fold_set_mem_payload_keeps [of f, OF assms(2)]
  by (auto simp: apply_wal_group_def Let_def split: prod.splits sum.splits option.splits) (metis snd_conv)+

lemma apply_wal_group_frame:
  "kw_state (snd (apply_wal_group opts crc io grp w)) = kw_state w"
  "kw_lsm (snd (apply_wal_group opts crc io grp w)) = kw_lsm w"
  "last_published_seq (snd (apply_wal_group opts crc io grp w)) = last_published_seq w"
  "calls (snd (apply_wal_group opts crc io grp r)) = calls r"
  "submitted (snd (apply_wal_group opts crc io grp r)) = submitted r"
  "logged (snd (apply_wal_group opts crc io grp r)) = logged r"
  "applied (snd (apply_wal_group opts crc io grp r)) = applied r"
  by (auto simp: apply_wal_group_def Let_def split: prod.splits sum.splits option.splits)

lemma apply_requests_keeps:
  assumes "\<And>q. f (q \<lparr> mem_payload := None \<rparr>) = f q"
  shows "map f (fst (snd (apply_requests coins grp mx rs mt))) = map f rs"
proof (induction coins grp mx rs mt rule: apply_requests.induct)
  case (2 coins i grp mx rs mt)
  then show ?case by (auto simp: map_update_keep assms Let_def split: option.splits)
qed simp

lemma apply_mem_group_frame:
  "kw_state (snd (apply_mem_group coins grp w)) = kw_state w"
  "kw_wal (snd (apply_mem_group coins grp w)) = kw_wal w"
  "kw_sequence (snd (apply_mem_group coins grp w)) = kw_sequence w"
  "last_published_seq (snd (apply_mem_group coins grp w)) = last_published_seq w"
  "calls (snd (apply_mem_group coins grp r)) = calls r"
  "submitted (snd (apply_mem_group coins grp r)) = submitted r"
  "logged (snd (apply_mem_group coins grp r)) = logged r"
  "applied (snd (apply_mem_group coins grp r)) = applied r"
  by (auto simp: apply_mem_group_def split: prod.splits)

lemma apply_mem_group_keeps:
  assumes "\<And>q. f (q \<lparr> mem_payload := None \<rparr>) = f q"
  shows "map f (kw_reqs (snd (apply_mem_group coins grp w))) = map f (kw_reqs w)"
  using apply_requests_keeps [of f, OF assms, of coins grp None "kw_reqs w" "mem_table (kw_lsm w)"]
  by (auto simp: apply_mem_group_def split: prod.splits)

text \<open>The steps that complete requests take them out of the pipeline.\<close>

lemma ctl_complete:
  assumes inv: "ctl_inv wl ml w" and i: "i < length (calls w)" "admitted (calls w ! i)"
    and c: "admitted c" "\<not> mem_failing c"
    and w': "calls w' = (calls w)[i := c]" "kw_reqs w' = complete_all r ids (kw_reqs w)"
    and l: "leads wal_held wl' ((calls w)[i := c])" "leads mem_held ml' ((calls w)[i := c])"
    and s: "flags_ok wl' ml' (kw_state w')"
      "mset (pipe wl ml (calls w) (kw_state w)) = mset ids + mset (pipe wl' ml' ((calls w)[i := c]) (kw_state w'))"
  shows "ctl_inv wl' ml' w'"
proof -
  note d = ctl_invD [OF inv]
  let ?p = "pipe wl ml (calls w) (kw_state w)" and ?p' = "pipe wl' ml' ((calls w)[i := c]) (kw_state w')"
  have mset: "mset ?p = mset (ids @ ?p')" using s(2) by simp
  have dist: "distinct (ids @ ?p')" using mset d(5) by (metis mset_eq_imp_distinct_iff)
  have "set ?p = set (ids @ ?p')" using mset by (rule mset_eq_setD)
  then have p': "set ?p' = under_way (calls w) (kw_reqs w) - set ids" using d(6) dist by auto
  have "under_way (calls w') (kw_reqs w') = under_way (calls w) (kw_reqs w) - set ids"
    using d(1) i c by (auto simp: under_way_def w' complete_all_result nth_list_update split: if_splits)
  moreover have "list_all (\<lambda>c. \<not> mem_failing c) (calls w')"
    using inv c by (auto simp: ctl_inv_def w' list_all_iff dest!: set_update_subset_insert [THEN subsetD])
  ultimately show ?thesis using d(1) l s(1) dist p' w' by (simp add: ctl_inv_def)
qed

lemma ctl_mem_complete:
  assumes inv: "ctl_inv wl ml w" and i: "i < length (calls w)" "calls w ! i = MemComplete grp nf ret"
  shows "ctl_inv wl ml (goto i (MemFinish nf ret) (w \<lparr> kw_reqs := complete_all r grp (kw_reqs w) \<rparr>))"
proof (rule ctl_complete [OF inv i(1)])
  note d = ctl_invD [OF inv]
  let ?c = "MemFinish nf ret"
  have ml: "ml = Some i" "held mem_held ml (calls w) = grp" using leads_here [OF d(3) i(1)] i(2) by auto
  have wl: "held wal_held wl ((calls w)[i := ?c]) = held wal_held wl (calls w)"
    using held_update [OF i(1), of _ _ ?c] i(2) by (auto simp: held_def)
  show "leads wal_held wl ((calls w)[i := ?c])" "leads mem_held ml ((calls w)[i := ?c])"
    using leads_same [OF d(2) i(1), of ?c] leads_same [OF d(3) i(1), of ?c] i(2) by simp_all
  show "mset (pipe wl ml (calls w) (kw_state w)) = mset grp + mset (pipe wl ml ((calls w)[i := ?c])
      (kw_state (goto i (MemFinish nf ret) (w \<lparr> kw_reqs := complete_all r grp (kw_reqs w) \<rparr>))))"
    using held_update [OF i(1), of _ _ ?c] ml wl by (simp add: pipe_def)
qed (use i ctl_invD [OF inv] in simp_all)

lemma ctl_wal_complete:
  assumes inv: "ctl_inv wl ml w" and i: "i < length (calls w)" "calls w ! i = WalErrComplete grp"
  shows "ctl_inv wl ml (goto i WalErrFail (w \<lparr> kw_reqs := complete_all r grp (kw_reqs w) \<rparr>))"
proof (rule ctl_complete [OF inv i(1)])
  note d = ctl_invD [OF inv]
  have wl: "wl = Some i" "held wal_held wl (calls w) = grp" using leads_here [OF d(2) i(1)] i(2) by auto
  have ml: "held mem_held ml ((calls w)[i := WalErrFail]) = held mem_held ml (calls w)"
    using held_update [OF i(1), of _ _ WalErrFail] i(2) leads_not_here [OF d(3) i(1)] by simp
  show "leads wal_held wl ((calls w)[i := WalErrFail])" "leads mem_held ml ((calls w)[i := WalErrFail])"
    using leads_same [OF d(2) i(1), of WalErrFail] leads_same [OF d(3) i(1), of WalErrFail] i(2) by simp_all
  show "mset (pipe wl ml (calls w) (kw_state w)) = mset grp + mset (pipe wl ml ((calls w)[i := WalErrFail])
      (kw_state (goto i WalErrFail (w \<lparr> kw_reqs := complete_all r grp (kw_reqs w) \<rparr>))))"
    using held_update [OF i(1), of _ _ WalErrFail] ml wl by (simp add: pipe_def)
qed (use i ctl_invD [OF inv] in simp_all)

lemma ctl_wal_fail:
  assumes inv: "ctl_inv wl ml w" and i: "i < length (calls w)" "calls w ! i = WalErrFail"
  shows "ctl_inv None ml (fail_step i Help w)"
proof -
  note d = ctl_invD [OF inv]
  let ?s = "kw_state w" and ?c = "Help"
  have wl: "wl = Some i" "held wal_held wl (calls w) = []" using leads_here [OF d(2) i(1)] i(2) by auto
  have ml: "held mem_held ml ((calls w)[i := ?c]) = held mem_held ml (calls w)" "ml \<noteq> Some i"
    using held_update [OF i(1), of _ _ ?c] i(2) leads_not_here [OF d(3) i(1)] by simp_all
  have fl: "closed_reason ?s \<noteq> Some Failed" using d(4) wl by (auto simp: flags_ok_def)
  let ?ids = "wal_queue ?s @ mem_queue ?s" and ?w = "fail_step i Help w"
  have w': "calls ?w = (calls w)[i := ?c]" "kw_reqs ?w = complete_all (Err (Internal ''write_group'' '''')) ?ids (kw_reqs w)"
    and s': "wal_queue (kw_state ?w) = []" "mem_queue (kw_state ?w) = []" "mem_leader_active (kw_state ?w) = mem_leader_active ?s"
      "closed_reason (kw_state ?w) = Some Failed"
    using fl by (simp_all add: fail_step_def fail_fast_def drain_all_queued_def)
  show ?thesis
  proof (rule ctl_complete [OF inv i(1) _ _ _ w'])
    show "leads wal_held None ((calls w)[i := ?c])" by (rule leads_update [OF d(2) i(1)]) (simp_all add: wl)
    show "leads mem_held ml ((calls w)[i := ?c])" using leads_same [OF d(3) i(1), of ?c] i(2) by simp
    show "flags_ok None ml (kw_state ?w)" using d(4) s' by (simp add: flags_ok_def)
    show "mset (pipe wl ml (calls w) ?s) = mset ?ids + mset (pipe None ml ((calls w)[i := ?c]) (kw_state ?w))"
      using ml wl s' by (simp add: pipe_def held_def [of _ None])
  qed (use i in simp_all)
qed

text \<open>Admission, the wait for the result, and the remaining steps inside the loops.\<close>

lemma under_way_Admit:
  assumes "i < length cs" "\<not> admitted (cs ! i)" "length cs = length rs"
  shows "under_way (cs[i := c]) rs =
    (if admitted c \<and> rq_result (rs ! i) = None then insert i (under_way cs rs) else under_way cs rs)"
  using assms by (auto simp: under_way_def nth_list_update split: if_splits)

lemma pipe_outside:
  assumes inv: "ctl_inv wl ml w" and i: "i < length (calls w)" "wal_held (calls w ! i) = None" "mem_held (calls w ! i) = None"
    "wal_held c = None" "mem_held c = None"
  shows "leads wal_held wl ((calls w)[i := c])" "leads mem_held ml ((calls w)[i := c])"
    "pipe wl ml ((calls w)[i := c]) s = pipe wl ml (calls w) s"
  using leads_same [OF ctl_invD(2) [OF inv] i(1), of c] leads_same [OF ctl_invD(3) [OF inv] i(1), of c]
    held_update [OF i(1), of _ _ c] held_update [OF i(1), of _ _ c] i
    leads_not_here [OF ctl_invD(2) [OF inv] i(1,2)] leads_not_here [OF ctl_invD(3) [OF inv] i(1,3)]
  by (simp_all add: pipe_def)

lemma not_failing_update:
  "list_all (\<lambda>c. \<not> mem_failing c) cs \<Longrightarrow> \<not> mem_failing c \<Longrightarrow> list_all (\<lambda>c. \<not> mem_failing c) (cs[i := c])"
  by (auto simp: list_all_iff dest!: set_update_subset_insert [THEN subsetD])

lemma ctl_return:
  assumes inv: "ctl_inv wl ml w" and i: "i < length (calls w)" "calls w ! i = Admit \<or> calls w ! i = Await \<and> rq_result (kw_reqs w ! i) \<noteq> None"
    and w': "calls w' = (calls w)[i := Returned r]" "kw_state w' = kw_state w" "length (kw_reqs w') = length (kw_reqs w)"
      "\<forall>j<length (kw_reqs w). j \<noteq> i \<longrightarrow> kw_reqs w' ! j = kw_reqs w ! j"
  shows "ctl_inv wl ml w'"
proof -
  note d = ctl_invD [OF inv]
  have "wal_held (calls w ! i) = None" "mem_held (calls w ! i) = None" using i(2) by auto
  note p = pipe_outside [OF inv i(1) this, of "Returned r"]
  have "under_way (calls w') (kw_reqs w') = under_way (calls w) (kw_reqs w)"
    using i d(1) w' by (auto simp: under_way_def nth_list_update split: if_splits)
  then show ?thesis using inv p w' by (simp add: ctl_inv_def not_failing_update)
qed

lemma ctl_admit:
  assumes inv: "ctl_inv wl ml w" and i: "i < length (calls w)" "calls w ! i = Admit"
    and new: "rq_result (kw_reqs w ! i) = None" and step: "submit_admit opts i w = Some w'"
  shows "\<exists>wl'. ctl_inv wl' ml w'"
proof -
  note d = ctl_invD [OF inv]
  let ?s = "push_wal i (kw_reqs w ! i) (kw_state w)"
  let ?c = "if wal_leader_active (kw_state w) then Help else WalLoop False"
  consider (returned) r where "calls w' = (calls w)[i := Returned r]" "kw_state w' = kw_state w" "kw_reqs w' = kw_reqs w"
    | (same) "calls w' = calls w" "kw_state w' = kw_state w" "kw_reqs w' = kw_reqs w"
    | (pushed) "closed_reason (kw_state w) = None" "calls w' = (calls w)[i := ?c]" "kw_reqs w' = kw_reqs w"
        "kw_state w' = ?s \<lparr> wal_leader_active := True \<rparr>"
    using step by (fastforce simp: submit_admit_def Let_def push_wal_def split: option.splits if_splits prod.splits
        WritePressureAction.splits)
  then show ?thesis
  proof cases
    case returned
    have "ctl_inv wl ml w'" by (rule ctl_return [OF inv i(1)]) (use i returned in simp_all)
    then show ?thesis ..
  next
    case same
    then have "ctl_inv wl ml w'" using inv by (simp add: ctl_inv_def)
    then show ?thesis ..
  next
    case pushed
    let ?wl = "if wal_leader_active (kw_state w) then wl else Some i"
    have none: "wl \<noteq> Some i" "ml \<noteq> Some i" using leads_not_here [OF d(2) i(1)] leads_not_here [OF d(3) i(1)] i(2) by auto
    have wl: "wal_leader_active (kw_state w) \<longleftrightarrow> wl \<noteq> None" using d(4) pushed(1) by (auto simp: flags_ok_def)
    have l: "leads wal_held ?wl ((calls w)[i := ?c])" "leads mem_held ml ((calls w)[i := ?c])"
      using none wl by (auto intro!: leads_update [OF d(2) i(1)] leads_update [OF d(3) i(1)])
    have p: "pipe ?wl ml ((calls w)[i := ?c]) (kw_state w') = pipe wl ml (calls w) (kw_state w) @ [i]"
      using none wl i(1) pushed(4) by (auto simp: pipe_def held_update held_def [of _ None] push_wal_def)
    have u: "under_way (calls w') (kw_reqs w') = insert i (under_way (calls w) (kw_reqs w))"
      using under_way_Admit [OF i(1), of "kw_reqs w" ?c] i(2) new d(1) pushed by simp
    have "i \<notin> under_way (calls w) (kw_reqs w)" using i(2) by (simp add: under_way_def)
    moreover have "flags_ok ?wl ml (kw_state w')" using d(4) wl pushed by (auto simp: flags_ok_def push_wal_def)
    moreover have "list_all (\<lambda>c. \<not> mem_failing c) (calls w')" using inv pushed by (simp add: ctl_inv_def not_failing_update)
    ultimately have "ctl_inv ?wl ml w'"
      using d l p u pushed by (auto simp: ctl_inv_def)
    then show ?thesis ..
  qed
qed

text \<open>A step inside a loop that keeps what the call holds.\<close>

lemma ctl_inside:
  assumes inv: "ctl_inv wl ml w" and i: "i < length (calls w)" "admitted (calls w ! i)"
    and c: "admitted c" "\<not> mem_failing c" "wal_held c = wal_held (calls w ! i)" "mem_held c = mem_held (calls w ! i)"
    and w': "calls w' = (calls w)[i := c]" "map rq_result (kw_reqs w') = map rq_result (kw_reqs w)"
    and s: "kw_state w' = kw_state w \<lparr> wal_inflight_groups := a, mem_inflight_groups := b \<rparr>"
  shows "ctl_inv wl ml w'"
proof -
  note d = ctl_invD [OF inv]
  have "flags_ok wl ml (kw_state w')" using d(4) s by (simp add: flags_ok_def)
  moreover have "pipe wl ml ((calls w)[i := c]) (kw_state w') = pipe wl ml (calls w) (kw_state w)"
    using held_update [OF i(1), of _ _ c] held_update [OF i(1), of _ _ c] c(3,4) s
    by (auto simp: pipe_def held_def)
  moreover have "leads wal_held wl ((calls w)[i := c])" "leads mem_held ml ((calls w)[i := c])"
    using leads_same [OF d(2) i(1), of c] leads_same [OF d(3) i(1), of c] c(3,4) by simp_all
  ultimately show ?thesis using c i by (intro ctl_frame [OF inv i(1) w']) auto
qed

lemma ctl_help:
  assumes inv: "ctl_inv wl ml w" and i: "i < length (calls w)" "calls w ! i = Help"
  shows "\<exists>ml'. ctl_inv wl ml' (help_step i w)"
proof (cases "mem_leader_active (kw_state w) \<or> mem_queue (kw_state w) = []")
  case True
  have "ctl_inv wl ml (goto i Await w)"
    by (rule ctl_inside [OF inv i(1), where c = Await and a = "wal_inflight_groups (kw_state w)" and b = "mem_inflight_groups (kw_state w)"])
      (use i in simp_all)
  then show ?thesis using True by (auto simp: help_step_def Let_def)
next
  case False
  note d = ctl_invD [OF inv]
  have l: "wl \<noteq> Some i" "ml = None"
    using leads_not_here [OF d(2) i(1)] i(2) d(4) False by (auto simp: flags_ok_def)
  have "ctl_inv wl (Some i) (help_step i w)"
    by (rule ctl_move [OF inv i(1), where c = "MemLoop False ToWait"])
      (use i l False d(4) in \<open>auto simp: help_step_def flags_ok_def pipe_def held_def [of _ None] Let_def\<close>)
  then show ?thesis ..
qed

lemma ctl_call:
  assumes inv: "ctl_inv wl ml w" and i: "i < length (calls w)" and step: "call_step opts crc io coins i w = Some w'"
    and new: "calls w ! i = Admit \<Longrightarrow> rq_result (kw_reqs w ! i) = None"
    and ok: "\<And>grp ret. calls w ! i = MemApply grp ret \<Longrightarrow> \<exists>r. fst (apply_mem_group coins grp w) = Inr r"
  shows "\<exists>wl' ml'. ctl_inv wl' ml' w'"
proof -
  note d = ctl_invD [OF inv]

  have fl: "\<not> mem_failing (calls w ! i)" using inv i by (auto simp: ctl_inv_def list_all_length)

  show ?thesis
  proof (cases "calls w ! i")
    case (WalApply grp)
    obtain r w1 where a: "apply_wal_group opts crc io grp w = (r, w1)" by fastforce
    note fr = apply_wal_group_frame [of opts crc io grp w, unfolded a snd_conv] apply_wal_group_keeps [of rq_result opts crc io grp w, unfolded a snd_conv]
    let ?c = "case r of Inl _ \<Rightarrow> WalErr grp | Inr _ \<Rightarrow> WalEnqueue grp grp"
    have "ctl_inv wl ml w'"
      by (rule ctl_inside [OF inv i(1), where c = ?c and a = "wal_inflight_groups (kw_state w)" and b = "mem_inflight_groups (kw_state w)"])
        (use step WalApply a fr in \<open>auto simp: call_step_def wal_apply_step_def split: sum.splits\<close>)
    then show ?thesis by blast
  next
    case (MemApply grp ret)
    obtain r w1 where a: "apply_mem_group coins grp w = (r, w1)" by fastforce
    obtain nf mx where r: "r = Inr (nf, mx)" using ok [OF MemApply] a by auto
    note fr = apply_mem_group_frame [of coins grp w, unfolded a snd_conv] apply_mem_group_keeps [of rq_result coins grp w, unfolded a snd_conv]
    have "ctl_inv wl ml w'"
      by (rule ctl_inside [OF inv i(1), where c = "MemPublish grp nf mx ret" and a = "wal_inflight_groups (kw_state w)" and b = "mem_inflight_groups (kw_state w)"])
        (use step MemApply a fr r in \<open>auto simp: call_step_def mem_apply_step_def\<close>)
    then show ?thesis by blast
  next
    case (WalEnqueued start)
    have "ctl_inv wl ml w'"
      by (rule ctl_inside [OF inv i(1), where c = "if start then MemLoop False ToWalLoop else WalLoop False"
            and a = "wal_inflight_groups (kw_state w) - 1" and b = "mem_inflight_groups (kw_state w)"])
        (use step WalEnqueued in \<open>auto simp: call_step_def finish_wal_inflight_group_def\<close>)
    then show ?thesis by blast
  next
    case (WalErr grp)
    have "ctl_inv wl ml w'"
      by (rule ctl_inside [OF inv i(1), where c = "WalErrComplete grp"
            and a = "wal_inflight_groups (kw_state w) - 1" and b = "mem_inflight_groups (kw_state w)"])
        (use step WalErr in \<open>auto simp: call_step_def finish_wal_inflight_group_def\<close>)
    then show ?thesis by blast
  next
    case (MemPublish grp nf mx ret)
    have "ctl_inv wl ml w'"
      by (rule ctl_inside [OF inv i(1), where c = "MemComplete grp nf ret"
            and a = "wal_inflight_groups (kw_state w)" and b = "mem_inflight_groups (kw_state w)"])
        (use step MemPublish in \<open>auto simp: call_step_def publish_sequence_def split: option.splits\<close>)
    then show ?thesis by blast
  next
    case (MemFinish nf ret)
    have "ctl_inv wl ml w'"
      by (rule ctl_inside [OF inv i(1), where c = "MemLoop False ret"
            and a = "wal_inflight_groups (kw_state w)" and b = "mem_inflight_groups (kw_state w) - 1"])
        (use step MemFinish in \<open>auto simp: call_step_def finish_mem_inflight_group_def\<close>)
    then show ?thesis by blast
  next
    case Await
    have "ctl_inv wl ml w'"
      using step Await
      by (intro ctl_return [OF inv i(1), where r = "the (rq_result (kw_reqs w ! i))"])
        (auto simp: call_step_def await_step_def Let_def split: option.splits if_splits)
    then show ?thesis by blast
  qed (use step fl inv i new ctl_wal_pop [OF inv i] ctl_mem_pop [OF inv i] ctl_enqueue [OF inv i] ctl_mem_complete [OF inv i]
        ctl_wal_complete [OF inv i] ctl_wal_fail [OF inv i] ctl_help [OF inv i] ctl_admit [OF inv i]
      in \<open>auto simp: call_step_def, metis+\<close>)
qed

lemma ctl_outside:
  assumes inv: "ctl_inv wl ml w" and same: "calls w' = calls w" "kw_reqs w' = kw_reqs w"
    and s: "wal_queue (kw_state w') = wal_queue (kw_state w)" "mem_queue (kw_state w') = mem_queue (kw_state w)"
      "wal_leader_active (kw_state w') = wal_leader_active (kw_state w)"
      "mem_leader_active (kw_state w') = mem_leader_active (kw_state w)"
      "closed_reason (kw_state w') = Some Failed \<longleftrightarrow> closed_reason (kw_state w) = Some Failed"
  shows "ctl_inv wl ml w'"
  using inv by (simp add: ctl_inv_def pipe_def flags_ok_def same s)

lemma ctl_submit:
  assumes inv: "ctl_inv wl ml w" and w': "calls w' = calls w @ [Admit]" "kw_reqs w' = kw_reqs w @ [q]" "kw_state w' = kw_state w"
  shows "ctl_inv wl ml w'"
proof -
  note d = ctl_invD [OF inv]
  have l: "leads f l (cs @ [Admit])" "held f l (cs @ [Admit]) = held f l cs" if "leads f l cs" "f Admit = None" for f l cs
    using that by (auto simp: leads_def held_def nth_append split: option.splits)
  have "under_way (calls w @ [Admit]) (kw_reqs w @ [q]) = under_way (calls w) (kw_reqs w)"
    using d(1) by (auto simp: under_way_def nth_append split: if_splits)
  then show ?thesis using inv l [OF d(2)] l [OF d(3)] w' by (simp add: ctl_inv_def pipe_def)
qed

lemma barrier_step_frame:
  assumes "barrier_step j w = Some w'"
  shows "calls w' = calls w" "kw_reqs w' = kw_reqs w" "\<exists>f. kw_state w' = kw_state w \<lparr> flush_blocked := f \<rparr>"
    "kw_wal w' = kw_wal w" "kw_sequence w' = kw_sequence w" "kw_lsm w' = kw_lsm w" "last_published_seq w' = last_published_seq w"
    "submitted w' = submitted w" "logged w' = logged w" "applied w' = applied w"
  using assms by (auto simp: barrier_step_def Let_def split: Barrier.splits if_splits intro: exI [of _ "flush_blocked (kw_state w)"])

section \<open>The queues count what they hold\<close>

definition qbytes :: "WriteRequest list \<Rightarrow> nat list \<Rightarrow> nat" where
  "qbytes rs q = sum_list (map (\<lambda>r. approx_bytes (rs ! r)) q)"

fun ret_busy :: "MemReturn \<Rightarrow> bool" where
  "ret_busy (ToEnqueue _ _) \<longleftrightarrow> True"
| "ret_busy _ \<longleftrightarrow> False"

fun wal_busy :: "Call \<Rightarrow> bool" where
  "wal_busy (WalApply _) \<longleftrightarrow> True"
| "wal_busy (WalEnqueue _ _) \<longleftrightarrow> True"
| "wal_busy (WalEnqueued _) \<longleftrightarrow> True"
| "wal_busy (WalErr _) \<longleftrightarrow> True"
| "wal_busy (MemLoop _ ret) \<longleftrightarrow> ret_busy ret"
| "wal_busy (MemApply _ ret) \<longleftrightarrow> ret_busy ret"
| "wal_busy (MemPublish _ _ _ ret) \<longleftrightarrow> ret_busy ret"
| "wal_busy (MemComplete _ _ ret) \<longleftrightarrow> ret_busy ret"
| "wal_busy (MemFinish _ ret) \<longleftrightarrow> ret_busy ret"
| "wal_busy _ \<longleftrightarrow> False"

fun mem_busy :: "Call \<Rightarrow> bool" where
  "mem_busy (MemApply _ _) \<longleftrightarrow> True"
| "mem_busy (MemPublish _ _ _ _) \<longleftrightarrow> True"
| "mem_busy (MemComplete _ _ _) \<longleftrightarrow> True"
| "mem_busy (MemFinish _ _) \<longleftrightarrow> True"
| "mem_busy _ \<longleftrightarrow> False"

definition busy :: "(Call \<Rightarrow> bool) \<Rightarrow> nat option \<Rightarrow> Call list \<Rightarrow> nat" where
  "busy f l cs = (case l of None \<Rightarrow> 0 | Some i \<Rightarrow> of_bool (f (cs ! i)))"

definition queue_ok :: "WriteRequest list \<Rightarrow> WriteState \<Rightarrow> bool" where
  "queue_ok rs s \<longleftrightarrow> wal_queue_reqs s = length (wal_queue s) \<and> wal_queue_bytes s = qbytes rs (wal_queue s) \<and>
     mem_queue_reqs s = length (mem_queue s) \<and> mem_queue_bytes s = qbytes rs (mem_queue s)"

definition cnt_inv :: "nat option \<Rightarrow> nat option \<Rightarrow> Running \<Rightarrow> bool" where
  "cnt_inv wl ml w \<longleftrightarrow> total_bytes (kw_reqs w) < 2 ^ 64 \<and> length (kw_reqs w) < 2 ^ 64 \<and> queue_ok (kw_reqs w) (kw_state w) \<and>
     wal_inflight_groups (kw_state w) = busy wal_busy wl (calls w) \<and>
     mem_inflight_groups (kw_state w) = busy mem_busy ml (calls w)"

lemma qbytes_append [simp]: "qbytes rs (p @ q) = qbytes rs p + qbytes rs q" by (simp add: qbytes_def)

lemma qbytes_simps [simp]: "qbytes rs [] = 0" "qbytes rs (r # q) = approx_bytes (rs ! r) + qbytes rs q"
  by (simp_all add: qbytes_def)

lemma qbytes_cong: "map approx_bytes rs = map approx_bytes rs' \<Longrightarrow> set q \<subseteq> {..<length rs} \<Longrightarrow> qbytes rs q = qbytes rs' q"
  unfolding qbytes_def by (rule arg_cong [where f = sum_list]) (auto, metis length_map lessThan_iff nth_map subsetD)

lemma qbytes_le_total:
  assumes "distinct q" "set q \<subseteq> {..<length rs}"
  shows "qbytes rs q \<le> total_bytes rs"
proof -
  have "qbytes rs q = (\<Sum>r\<in>set q. approx_bytes (rs ! r))"
    using assms(1) by (simp add: qbytes_def sum_list_distinct_conv_sum_set)
  also have "\<dots> \<le> (\<Sum>r<length rs. approx_bytes (rs ! r))" using assms(2) by (intro sum_mono2) auto
  finally show ?thesis by (simp add: total_bytes_def sum_list_sum_nth lessThan_atLeast0)
qed

lemma length_distinct_le: "distinct q \<Longrightarrow> set q \<subseteq> {..<n} \<Longrightarrow> length q \<le> n"
  by (metis card_lessThan card_mono distinct_card finite_lessThan)

lemma pipe_bounds:
  assumes inv: "ctl_inv wl ml w"
  shows "distinct (pipe wl ml (calls w) (kw_state w))" "set (pipe wl ml (calls w) (kw_state w)) \<subseteq> {..<length (kw_reqs w)}"
  using ctl_invD [OF inv] by (auto simp: under_way_def)

lemma busy_update: "i < length cs \<Longrightarrow> busy f l (cs[i := c]) = (if l = Some i then of_bool (f c) else busy f l cs)"
  by (auto simp: busy_def nth_list_update split: option.splits)

lemma push_wal_ok:
  assumes "queue_ok rs s" "distinct (wal_queue s @ [r])" "set (wal_queue s @ [r]) \<subseteq> {..<length rs}"
    "total_bytes rs < 2 ^ 64" "length rs < 2 ^ 64"
  shows "queue_ok rs (push_wal r (rs ! r) s)"
  using qbytes_le_total [OF assms(2,3)] length_distinct_le [OF assms(2,3)] assms(1,4,5)
  by (simp add: queue_ok_def push_wal_def sat_add64_def)

lemma push_mem_ok:
  assumes "queue_ok rs s" "distinct (mem_queue s @ [r])" "set (mem_queue s @ [r]) \<subseteq> {..<length rs}"
    "total_bytes rs < 2 ^ 64" "length rs < 2 ^ 64"
  shows "queue_ok rs (push_mem r (rs ! r) s)"
  using qbytes_le_total [OF assms(2,3)] length_distinct_le [OF assms(2,3)] assms(1,4,5)
  by (simp add: queue_ok_def push_mem_def sat_add64_def)

lemma enqueue_mem_group_ok:
  assumes "enqueue_mem_group opts rs rest s = (res, rest', s')" "queue_ok rs s" "distinct (mem_queue s @ rest)"
    "set (mem_queue s @ rest) \<subseteq> {..<length rs}" "total_bytes rs < 2 ^ 64" "length rs < 2 ^ 64"
  shows "queue_ok rs s'"
  using assms
proof (induction rest arbitrary: s)
  case (Cons r rest)
  have "queue_ok rs (push_mem r (rs ! r) s)" using Cons.prems by (intro push_mem_ok) auto
  then show ?case using Cons.IH [of "push_mem r (rs ! r) s"] Cons.prems
    by (auto simp: queue_ok_def push_mem_def split: if_splits)
qed (auto simp: queue_ok_def split: if_splits)

lemma leads_step:
  assumes "leads f l cs" "leads f l' (cs[i := c])" "i < length cs"
  shows "l' = (if f c \<noteq> None then Some i else if l = Some i then None else l)"
proof -
  have other: "l' = Some j \<longleftrightarrow> l = Some j" if "j \<noteq> i" for j
  proof (cases "j < length cs")
    case True
    then have "l' = Some j \<longleftrightarrow> f (cs[i := c] ! j) \<noteq> None" "l = Some j \<longleftrightarrow> f (cs ! j) \<noteq> None"
      using assms(1,2) unfolding leads_def by simp_all
    then show ?thesis using that by simp
  next
    case False
    then show ?thesis using assms(1,2) unfolding leads_def by auto
  qed
  have here: "l' = Some i \<longleftrightarrow> f c \<noteq> None" using assms(2,3) unfolding leads_def by (metis length_list_update nth_list_update_eq)
  show ?thesis
  proof (cases "f c = None")
    case True
    then have "l' \<noteq> Some i" using here by simp
    then have "l' = Some j \<longleftrightarrow> (if l = Some i then None else l) = Some j" for j
      using other [of j] by (cases "j = i") auto
    then have "l' = (if l = Some i then None else l)" by (metis not_None_eq)
    then show ?thesis using True by simp
  qed (use here in simp)
qed

lemma busy_step:
  assumes "leads f l cs" "leads f l' (cs[i := c])" "i < length cs" "\<And>c. g c \<Longrightarrow> f c \<noteq> None"
  shows "busy g l' (cs[i := c]) + of_bool (g (cs ! i)) = busy g l cs + of_bool (g c)"
proof (cases "l = Some i")
  case True
  then show ?thesis using leads_step [OF assms(1-3)] assms(3) assms(4) [of c] by (auto simp: busy_def)
next
  case False
  then have "\<not> g (cs ! i)" using assms(1,3) assms(4) [of "cs ! i"] unfolding leads_def by metis
  moreover have "l = None" if "f c \<noteq> None"
  proof (cases l)
    case (Some j)
    then have "j < length cs" "f (cs ! j) \<noteq> None" "j \<noteq> i" using assms(1) False unfolding leads_def by auto
    then have "l' = Some j" using assms(2) unfolding leads_def by (metis length_list_update nth_list_update_neq)
    then show ?thesis using leads_step [OF assms(1-3)] that \<open>j \<noteq> i\<close> by simp
  qed
  ultimately show ?thesis
    using leads_step [OF assms(1-3)] False assms(3) assms(4) [of c]
    by (cases "f c = None") (auto simp: busy_update busy_def [of _ None])
qed

lemma wal_busy_held: "wal_busy c \<Longrightarrow> wal_held c \<noteq> None"
  by (cases c) (auto elim: ret_busy.elims)

lemma mem_busy_held: "mem_busy c \<Longrightarrow> mem_held c \<noteq> None"
  by (cases c) auto

lemma cnt_step:
  assumes ctl: "ctl_inv wl ml w" and cnt: "cnt_inv wl ml w" and ctl': "ctl_inv wl' ml' w'"
    and i: "i < length (calls w)" and w': "calls w' = (calls w)[i := c]" "map approx_bytes (kw_reqs w') = map approx_bytes (kw_reqs w)"
    and q: "queue_ok (kw_reqs w) (kw_state w')"
    and inflight: "wal_inflight_groups (kw_state w') + of_bool (wal_busy (calls w ! i)) = wal_inflight_groups (kw_state w) + of_bool (wal_busy c)"
      "mem_inflight_groups (kw_state w') + of_bool (mem_busy (calls w ! i)) = mem_inflight_groups (kw_state w) + of_bool (mem_busy c)"
  shows "cnt_inv wl' ml' w'"
proof -
  note d = ctl_invD [OF ctl] and d' = ctl_invD [OF ctl']
  have "busy wal_busy wl' ((calls w)[i := c]) + of_bool (wal_busy (calls w ! i)) = busy wal_busy wl (calls w) + of_bool (wal_busy c)"
    using busy_step [OF d(2) _ i wal_busy_held] d'(2) w'(1) by simp
  moreover have "busy mem_busy ml' ((calls w)[i := c]) + of_bool (mem_busy (calls w ! i)) = busy mem_busy ml (calls w) + of_bool (mem_busy c)"
    using busy_step [OF d(3) _ i mem_busy_held] d'(3) w'(1) by simp
  moreover have len: "length (kw_reqs w') = length (kw_reqs w)" using w'(2) by (metis length_map)
  moreover have "set (wal_queue (kw_state w')) \<union> set (mem_queue (kw_state w')) \<subseteq> {..<length (kw_reqs w')}"
    using pipe_bounds(2) [OF ctl'] by (auto simp: pipe_def)
  then have "queue_ok (kw_reqs w') (kw_state w')"
    using q qbytes_cong [OF w'(2)] by (simp add: queue_ok_def)
  ultimately show ?thesis
    using cnt inflight w' by (simp add: cnt_inv_def total_bytes_def)
qed

lemma cnt_wal_pop:
  assumes ctl: "ctl_inv wl ml w" and cnt: "cnt_inv wl ml w" and i: "i < length (calls w)" "calls w ! i = WalLoop waited"
    and ctl': "ctl_inv wl' ml' (wal_pop_step opts i waited w)"
  shows "cnt_inv wl' ml' (wal_pop_step opts i waited w)"
proof -
  obtain g s where p: "pop_next_wal_group opts (kw_reqs w) waited (kw_state w) = (g, s)" by fastforce
  have wl: "wl = Some i" using leads_here [OF ctl_invD(2) [OF ctl] i(1)] i(2) by simp
  have fl: "wal_inflight_groups (kw_state w) = 0" "queue_ok (kw_reqs w) (kw_state w)" using cnt wl i by (simp_all add: cnt_inv_def busy_def)
  note st = cnt_step [OF ctl cnt ctl' i(1)]
  from pop_wal_split [OF p] show ?thesis
  proof (elim disjE exE conjE)
    assume g: "g = Some []" "s = kw_state w \<lparr> wal_leader_active := False \<rparr>"
    show ?thesis by (rule st [of Help]) (use p g i fl in \<open>simp_all add: wal_pop_step_def queue_ok_def\<close>)
  next
    assume g: "g = None" "s = kw_state w"
    show ?thesis by (rule st [of "WalLoop True"]) (use p g i fl in \<open>simp_all add: wal_pop_step_def\<close>)
  next
    fix grp q
    assume g: "g = Some grp" "grp \<noteq> []" "wal_queue (kw_state w) = grp @ q"
      and s: "s = kw_state w \<lparr> wal_queue := q, wal_queue_reqs := wal_queue_reqs (kw_state w) - length grp,
          wal_queue_bytes := wal_queue_bytes (kw_state w) - sum_list (map (\<lambda>r. approx_bytes (kw_reqs w ! r)) grp),
          wal_inflight_groups := sat_add64 (wal_inflight_groups (kw_state w)) 1 \<rparr>"
    have "queue_ok (kw_reqs w) s" "wal_inflight_groups s = 1" "mem_inflight_groups s = mem_inflight_groups (kw_state w)"
      using fl g by (simp_all add: s queue_ok_def sat_add64_def qbytes_def)
    then show ?thesis by (intro st [of "WalApply grp"]) (use p g i fl in \<open>simp_all add: wal_pop_step_def\<close>)
  qed
qed

lemma cnt_mem_pop:
  assumes ctl: "ctl_inv wl ml w" and cnt: "cnt_inv wl ml w" and i: "i < length (calls w)" "calls w ! i = MemLoop waited ret"
    and ctl': "ctl_inv wl' ml' (mem_pop_step opts i waited ret w)"
  shows "cnt_inv wl' ml' (mem_pop_step opts i waited ret w)"
proof -
  obtain g s where p: "pop_next_mem_group opts (kw_reqs w) waited (kw_state w) = (g, s)" by fastforce
  have ml: "ml = Some i" using leads_here [OF ctl_invD(3) [OF ctl] i(1)] i(2) by simp
  have fl: "mem_inflight_groups (kw_state w) = 0" "queue_ok (kw_reqs w) (kw_state w)" using cnt ml i by (simp_all add: cnt_inv_def busy_def)
  have r: "wal_busy (resume ret) = ret_busy ret" "\<not> mem_busy (resume ret)" by (cases ret; simp)+
  note st = cnt_step [OF ctl cnt ctl' i(1)]
  from pop_mem_split [OF p] show ?thesis
  proof (elim disjE exE conjE)
    assume g: "g = Some []" "s = kw_state w \<lparr> mem_leader_active := False \<rparr>"
    show ?thesis by (rule st [of "resume ret"]) (use p g i fl r in \<open>simp_all add: mem_pop_step_def queue_ok_def\<close>)
  next
    assume g: "g = None" "s = kw_state w"
    show ?thesis by (rule st [of "MemLoop True ret"]) (use p g i fl in \<open>simp_all add: mem_pop_step_def\<close>)
  next
    fix grp q
    assume g: "g = Some grp" "grp \<noteq> []" "mem_queue (kw_state w) = grp @ q"
      and s: "s = kw_state w \<lparr> mem_queue := q, mem_queue_reqs := mem_queue_reqs (kw_state w) - length grp,
          mem_queue_bytes := mem_queue_bytes (kw_state w) - sum_list (map (\<lambda>r. approx_bytes (kw_reqs w ! r)) grp),
          mem_inflight_groups := sat_add64 (mem_inflight_groups (kw_state w)) 1 \<rparr>"
    have "queue_ok (kw_reqs w) s" "mem_inflight_groups s = 1" "wal_inflight_groups s = wal_inflight_groups (kw_state w)"
      using fl g by (simp_all add: s queue_ok_def sat_add64_def qbytes_def)
    then show ?thesis by (intro st [of "MemApply grp ret"]) (use p g i fl in \<open>simp_all add: mem_pop_step_def\<close>)
  qed
qed

lemma cnt_call:
  assumes ctl: "ctl_inv wl ml w" and cnt: "cnt_inv wl ml w" and i: "i < length (calls w)"
    and step: "call_step opts crc io coins i w = Some w'" and ctl': "ctl_inv wl' ml' w'"
  shows "cnt_inv wl' ml' w'"
proof -
  note d = ctl_invD [OF ctl] and d' = ctl_invD [OF ctl']
  have q: "queue_ok (kw_reqs w) (kw_state w)" using cnt by (simp add: cnt_inv_def)
  note b = pipe_bounds [OF ctl]
  have fl: "\<not> mem_failing (calls w ! i)" using ctl i by (auto simp: ctl_inv_def list_all_length)
  have wl: "wal_busy (calls w ! i) \<Longrightarrow> wal_inflight_groups (kw_state w) = 1"
    using cnt leads_here [OF d(2) i] wal_busy_held [of "calls w ! i"] by (auto simp: cnt_inv_def busy_def)
  have ml: "mem_busy (calls w ! i) \<Longrightarrow> mem_inflight_groups (kw_state w) = 1"
    using cnt leads_here [OF d(3) i] mem_busy_held [of "calls w ! i"] by (auto simp: cnt_inv_def busy_def)
  note st = cnt_step [OF ctl cnt ctl' i]
  show ?thesis
  proof (cases "calls w ! i")
    case Admit
    then consider (same) "calls w' = calls w" "kw_state w' = kw_state w" "kw_reqs w' = kw_reqs w"
      | (ret) r where "calls w' = (calls w)[i := Returned r]" "kw_state w' = kw_state w" "kw_reqs w' = kw_reqs w"
      | (push) "calls w' = (calls w)[i := if wal_leader_active (kw_state w) then Help else WalLoop False]" "kw_reqs w' = kw_reqs w"
          "kw_state w' = push_wal i (kw_reqs w ! i) (kw_state w) \<lparr> wal_leader_active := True \<rparr>"
      using step by (fastforce simp: call_step_def submit_admit_def Let_def push_wal_def split: option.splits if_splits
          prod.splits WritePressureAction.splits)
    then show ?thesis
    proof cases
      case same
      have "(calls w)[i := Admit] = calls w" by (metis Admit list_update_id)
      then show ?thesis by (intro st [of Admit]) (use Admit same q in simp_all)
    next
      case ret
      then show ?thesis by (intro st [of "Returned r"]) (use Admit q in simp_all)
    next
      case push
      have "set (wal_queue (kw_state w)) \<subseteq> under_way (calls w) (kw_reqs w)" unfolding d(6) [symmetric] by (auto simp: pipe_def)
      then have "i \<notin> set (wal_queue (kw_state w))" using Admit by (auto simp: under_way_def)
      moreover have "distinct (wal_queue (kw_state w))" "set (wal_queue (kw_state w)) \<subseteq> {..<length (kw_reqs w)}"
        using b by (auto simp: pipe_def)
      ultimately have "queue_ok (kw_reqs w) (push_wal i (kw_reqs w ! i) (kw_state w))"
        using cnt i d(1) by (intro push_wal_ok) (auto simp: cnt_inv_def)
      then show ?thesis
        by (intro st [of "if wal_leader_active (kw_state w) then Help else WalLoop False"])
          (use Admit push in \<open>simp_all add: queue_ok_def push_wal_def\<close>)
    qed
  next
    case (WalEnqueue grp rest)
    have wl': "held wal_held wl (calls w) = rest" using leads_here [OF d(2) i] WalEnqueue by auto
    obtain res rest' s where e: "enqueue_mem_group opts (kw_reqs w) rest (kw_state w) = (res, rest', s)" by (metis prod_cases3)
    have qs: "queue_ok (kw_reqs w) s"
      using b cnt q wl' by (intro enqueue_mem_group_ok [OF e]) (auto simp: pipe_def cnt_inv_def)
    have s: "wal_inflight_groups s = wal_inflight_groups (kw_state w)" "mem_inflight_groups s = mem_inflight_groups (kw_state w)"
      using enqueue_mem_group_split [OF e] by auto
    obtain c where c: "w' = goto i c (w \<lparr> kw_state := s \<rparr>)" "wal_busy c" "\<not> mem_busy c"
      using step WalEnqueue e by (auto simp: call_step_def wal_enqueue_step_def split: Enqueued.splits if_splits)
    show ?thesis by (rule st [of c]) (use c qs s WalEnqueue in simp_all)
  next
    case (WalApply grp)
    obtain r w1 where a: "apply_wal_group opts crc io grp w = (r, w1)" by fastforce
    note fr = apply_wal_group_frame [of opts crc io grp w, unfolded a snd_conv] apply_wal_group_keeps [of approx_bytes opts crc io grp w, unfolded a snd_conv]
    show ?thesis
      by (rule st [of "case r of Inl _ \<Rightarrow> WalErr grp | Inr _ \<Rightarrow> WalEnqueue grp grp"])
        (use step WalApply a fr q in \<open>auto simp: call_step_def wal_apply_step_def split: sum.splits\<close>)
  next
    case (MemApply grp ret)
    obtain r w1 where a: "apply_mem_group coins grp w = (r, w1)" by fastforce
    note fr = apply_mem_group_frame [of coins grp w, unfolded a snd_conv] apply_mem_group_keeps [of approx_bytes coins grp w, unfolded a snd_conv]
    have "\<exists>nf mx. r = Inr (nf, mx)"
      using ctl' step MemApply a fr i by (auto simp: call_step_def mem_apply_step_def ctl_inv_def list_all_length split: sum.splits)
    then obtain nf mx where r: "r = Inr (nf, mx)" by blast
    show ?thesis
      by (rule st [of "MemPublish grp nf mx ret"])
        (use step MemApply a fr q r in \<open>auto simp: call_step_def mem_apply_step_def\<close>)
  next
    case (MemPublish grp nf mx ret)
    show ?thesis
      by (rule st [of "MemComplete grp nf ret"])
        (use step MemPublish q in \<open>auto simp: call_step_def publish_sequence_def split: option.splits\<close>)
  next
    case (WalErrFail)
    have "queue_ok (kw_reqs w) (kw_state w')" "wal_inflight_groups (kw_state w') = wal_inflight_groups (kw_state w)"
        "mem_inflight_groups (kw_state w') = mem_inflight_groups (kw_state w)" "calls w' = (calls w)[i := Help]"
        "map approx_bytes (kw_reqs w') = map approx_bytes (kw_reqs w)"
      using step WalErrFail q
      by (auto simp: call_step_def fail_step_def fail_fast_def drain_all_queued_def queue_ok_def complete_all_keeps split: if_splits)
    then show ?thesis by (intro st [of Help]) (use WalErrFail in simp_all)
  next
    case Help
    obtain c where c: "calls w' = (calls w)[i := c]" "\<not> wal_busy c" "\<not> mem_busy c"
      using step Help by (auto simp: call_step_def help_step_def Let_def split: if_splits)
    have "queue_ok (kw_reqs w) (kw_state w')" "kw_reqs w' = kw_reqs w"
        "wal_inflight_groups (kw_state w') = wal_inflight_groups (kw_state w)"
        "mem_inflight_groups (kw_state w') = mem_inflight_groups (kw_state w)"
      using step Help q by (auto simp: call_step_def help_step_def queue_ok_def Let_def split: if_splits)
    then show ?thesis by (intro st [of c]) (use Help c in simp_all)
  next
    case Await
    show ?thesis
      by (rule st [of "Returned (the (rq_result (kw_reqs w ! i)))"])
        (use step Await q in \<open>auto simp: call_step_def await_step_def Let_def map_update_keep split: option.splits if_splits\<close>)
  next
    case (WalLoop waited)
    then show ?thesis using step ctl' cnt_wal_pop [OF ctl cnt i] by (auto simp: call_step_def)
  next
    case (MemLoop waited ret)
    then show ?thesis using step ctl' cnt_mem_pop [OF ctl cnt i] by (auto simp: call_step_def)
  next
    case (WalEnqueued start)
    show ?thesis
      by (rule st [of "if start then MemLoop False ToWalLoop else WalLoop False"])
        (use step WalEnqueued q wl in \<open>auto simp: call_step_def finish_wal_inflight_group_def queue_ok_def\<close>)
  next
    case (WalErr grp)
    show ?thesis
      by (rule st [of "WalErrComplete grp"])
        (use step WalErr q wl in \<open>auto simp: call_step_def finish_wal_inflight_group_def queue_ok_def\<close>)
  next
    case (MemFinish nf ret)
    show ?thesis
      by (rule st [of "MemLoop False ret"])
        (use step MemFinish q ml in \<open>auto simp: call_step_def finish_mem_inflight_group_def queue_ok_def\<close>)
  next
    case (WalErrComplete grp)
    show ?thesis
      by (rule st [of WalErrFail]) (use step WalErrComplete q in \<open>auto simp: call_step_def complete_all_keeps\<close>)
  next
    case (MemComplete grp nf ret)
    show ?thesis
      by (rule st [of "MemFinish nf ret"]) (use step MemComplete q in \<open>auto simp: call_step_def complete_all_keeps\<close>)
  qed (use step fl in \<open>auto simp: call_step_def\<close>)
qed

lemma cnt_outside:
  assumes "cnt_inv wl ml w" "calls w' = calls w" "kw_reqs w' = kw_reqs w"
    "kw_state w' = kw_state w \<lparr> flush_blocked := f, closed_reason := r \<rparr>"
  shows "cnt_inv wl ml w'"
  using assms by (simp add: cnt_inv_def queue_ok_def)

lemma cnt_submit:
  assumes ctl: "ctl_inv wl ml w" and cnt: "cnt_inv wl ml w"
    and w': "calls w' = calls w @ [Admit]" "kw_reqs w' = kw_reqs w @ [q]" "kw_state w' = kw_state w"
    and fits: "total_bytes (kw_reqs w @ [q]) < 2 ^ 64" "length (kw_reqs w) + 1 < 2 ^ 64"
  shows "cnt_inv wl ml w'"
proof -
  note b = pipe_bounds(2) [OF ctl] and d = ctl_invD [OF ctl]
  have q: "qbytes (kw_reqs w @ [q]) xs = qbytes (kw_reqs w) xs" if "set xs \<subseteq> {..<length (kw_reqs w)}" for xs
    using that unfolding qbytes_def by (intro arg_cong [where f = sum_list] map_cong) (auto simp: nth_append)
  have "set (wal_queue (kw_state w)) \<subseteq> {..<length (kw_reqs w)}" "set (mem_queue (kw_state w)) \<subseteq> {..<length (kw_reqs w)}"
    using b by (auto simp: pipe_def)
  then have "queue_ok (kw_reqs w') (kw_state w')" using cnt q w' by (simp add: cnt_inv_def queue_ok_def)
  moreover have "busy f wl (calls w @ [Admit]) = busy f wl (calls w)" "busy f ml (calls w @ [Admit]) = busy f ml (calls w)" for f
    using d(2,3) by (auto simp: busy_def leads_def nth_append split: option.splits)
  ultimately show ?thesis using cnt fits w' by (simp add: cnt_inv_def)
qed

end
