(* ===== verification/Spec2Isabelle.thy ===== *)
theory Spec2Isabelle
  imports Coding Snapshot_Manager Writer_Control
begin

text \<open>
  GoatKV, the key-value engine of the GoatDB repository, as an Isabelle/HOL library.  The sources
  are under \<open>src/src/goatkv\<close>; file names below are relative to it.

  \<^bold>\<open>The program.\<close>  GoatKV is a log-structured merge tree.  A write goes to the write-ahead log and
  then into a skip list in memory.  A full memtable is frozen and written as a sorted table file
  (SSTable).  A version says which table files make up the database; every change of it is an
  edit, appended to a manifest file, from which the versions are recovered.  Every entry carries a
  sequence number, and a reader sees the newest entry of a key that is not newer than its snapshot.

  \<^bold>\<open>How the code is translated.\<close>  A struct is a record, an enum a datatype, a \<open>Result\<close> the sum type
  \<open>result\<close> with the errors of \<open>error.rs\<close> (a panic is an error of its own), a \<open>u8\<close>, \<open>u32\<close> or \<open>u64\<close> a word
  of that size whose arithmetic wraps, and a \<open>usize\<close> a natural number with the saturation or
  wrap-around of the source written out where it matters.  State is passed explicitly; a file is
  its bytes, with the part that survives a crash beside it where a claim needs it.  Checksums,
  hash functions, the coin tosses of the skip list and the outcome of every system call are
  arguments of the definitions, so the theorems hold for all of them.  Texts inside errors that
  are formatted at run time are left out.  The build is the release profile: debug assertions are
  not part of the model, and plain additions wrap.

  \<^bold>\<open>Theories, in the order of their dependencies.\<close>

  \<^item> \<open>Goat_Prelude\<close>: results, bytes, little and big endian numbers and shared lemmas.
  \<^item> \<open>Coding\<close> (\<open>format/coding.rs\<close>): varints and length-prefixed slices, with a locale of codecs;
    round trips, unique decoding of sequences, the value of every varint and its two defects.
  \<^item> \<open>Internal_Key\<close>, \<open>Mvcc\<close> (\<open>format/internal_key.rs\<close>): keys with sequence number and kind, their
    order, and what a reader at a sequence number must see.
  \<^item> \<open>Wal_Format\<close>, \<open>Wal_Recovery\<close>, \<open>Wal_Writer\<close> (\<open>storage/wal\<close>): record format, replay and the
    writer.  Replay after a crash at any byte yields whole batches only, appends are durable, and
    replay is idempotent.
  \<^item> \<open>Skip_List\<close>, \<open>Mem_Table\<close> (\<open>core/skip_list\<close>, \<open>core/mem_table.rs\<close>): towers of links over an arena,
    shown to refine a sorted list; which version the plain lookup returns; the reads of the memtable.
  \<^item> \<open>Sequence_Number\<close>, \<open>Snapshot_Manager\<close> (\<open>core\<close>): allocation of ranges, reference-counted snapshots.
  \<^item> \<open>Compression\<close>, \<open>Bloom\<close>, \<open>Block_Builder\<close>, \<open>Block_Reader\<close>, \<open>Block_Lookup\<close>, \<open>Sstable_Builder\<close>,
    \<open>Sstable_Reader\<close>, \<open>Sstable_Layout\<close>, \<open>Sstable_Table\<close> (\<open>storage/sstable\<close>): the table files.  A built
    table opens again, its scan returns the entries, its filter has no false negatives.  The
    theorems on lookups state the limits they need (no zero byte in a user key, at most sixteen
    versions of a key, a last data block that does not hold a multiple of sixteen entries), and
    others fix what happens beyond the last two.
  \<^item> \<open>Version_Edit\<close>, \<open>Manifest\<close>, \<open>Version_Reads\<close>, \<open>Version_Set\<close> (\<open>metadata\<close>): edits and their
    encoding, the manifest with torn writes, the reads of a version over the tables of all levels,
    and the set of versions.  Recovery reproduces the state that any sequence of edits reached.
  \<^item> \<open>Options\<close>, \<open>Lsm_State\<close> (\<open>utils/options.rs\<close>, \<open>core/lsm_state.rs\<close>): options and shared state.
  \<^item> \<open>Kv_Writer\<close>, \<open>Writer_Control\<close> (\<open>core/kv_engine/writer.rs\<close>): the two-stage group commit.  Each
    call of \<open>submit_write\<close> is a thread, and the relation \<open>wstep\<close> interleaves their critical sections
    with flush barriers, closing and changes of the shared state.  The lemmas show that each stage
    has at most one leader and that no admitted request is lost or duplicated.

  \<^bold>\<open>Interfaces.\<close>  Locales state what one component promises to another: codecs (\<open>Coding\<close>), the
  append-only log (\<open>Wal_Writer\<close>), the ordered store behind the memtable (\<open>Mvcc\<close>, provided by
  \<open>Skip_List\<close>), and the reads of a table that a version uses (\<open>Version_Reads\<close>).  Each is interpreted
  on the definitions of the component that provides it.

  \<^bold>\<open>Loops and bounds.\<close>  Loops over files, blocks and tables are functions with a termination
  proof, and no operation takes fuel; the walks along the links of a skip list are
  partial functions whose value is \<open>None\<close> if they do not return, and the lemmas show that they do on
  every list that insertions build.  Hypotheses such as lengths below \<open>2 ^ 32\<close> or \<open>2 ^ 64\<close> are the
  widths of the fields of the formats.

  \<^bold>\<open>Not modelled.\<close>  The merge of the read path (\<open>core/kv_engine/reader.rs\<close>), start-up, transactions and
  shutdown (\<open>core/kv_engine/engine.rs\<close>), the flush worker and compaction (\<open>core/flush_worker.rs\<close>,
  \<open>storage/compaction\<close>) and the caches (\<open>storage/sstable/cache.rs\<close>) compose or accelerate what is
  modelled here and have no theory of their own.  Removal of files, paths, metrics, logging, the
  network server and the client are input and output only.
\<close>

end
